(* ===== verification/Prelude.thy ===== *)
theory Prelude
  imports Main "HOL-Library.Word" "HOL-Library.Char_ord" "HOL-Library.List_Lexorder"
    "HOL-Library.Product_Lexorder" "HOL-Library.Option_ord" "HOL-Library.Multiset"
    "HOL-Library.AList"
begin

unbundle bit_operations_syntax

text \<open>
  Shared ground of the development: names for the Rust types the sources use, the few
  operations of the Rust standard library they call (saturating addition, byte order,
  hexadecimal text, \<open>position\<close>), and generic facts on lists, folds and maps.

  Rust types. \<open>u8\<close>, \<open>u32\<close>, \<open>u64\<close> are words of that width. A byte array
  \<open>[u8; N]\<close> is the \<open>8 * N\<close>-bit word that reads it in big-endian order: the derived
  \<open>Ord\<close> of an array is lexicographic, which is the numeric order of that reading, and
  the bytewise XOR of two arrays is the XOR of the words. \<open>String\<close> is the list of its
  UTF-8 bytes as \<open>char\<close>s, and its \<open>Ord\<close> is lexicographic. Tuples compare
  lexicographically (\<open>HOL-Library.Product_Lexorder\<close>). A \<open>usize\<close> that counts
  elements held in memory is a \<open>nat\<close>.
\<close>

section \<open>Type names\<close>

type_synonym u8 = "8 word"
type_synonym u32 = "32 word"
type_synonym u64 = "64 word"
type_synonym bytes = "u8 list"
type_synonym hash = "256 word"
type_synonym pubkey = "256 word"
type_synonym seed = "256 word"
type_synonym sig64 = "512 word"
type_synonym prio = "u64 \<times> pubkey"

text \<open>A computation that may panic, as an index out of range or a failed \<open>assert!\<close> does.\<close>

datatype 'a rust = Ret (ret_val: 'a) | Panic

primrec rbind :: "'a rust \<Rightarrow> ('a \<Rightarrow> 'b rust) \<Rightarrow> 'b rust" where
  "rbind (Ret x) f = f x"
| "rbind Panic f = Panic"

primrec fold_rust :: "('a \<Rightarrow> 's \<Rightarrow> 's rust) \<Rightarrow> 'a list \<Rightarrow> 's \<Rightarrow> 's rust" where
  "fold_rust f [] s = Ret s"
| "fold_rust f (x # xs) s = rbind (f x s) (fold_rust f xs)"

lemma rbind_Ret_iff [simp]: "rbind r f = Ret y \<longleftrightarrow> (\<exists>x. r = Ret x \<and> f x = Ret y)"
  by (cases r) auto

lemma map_rust_Ret [simp]: "map_rust f r = Ret y \<longleftrightarrow> (\<exists>x. r = Ret x \<and> y = f x)"
  by (cases r) auto

lemma map_rust_Panic [simp]: "map_rust f r = Panic \<longleftrightarrow> r = Panic"
  by (cases r) auto

lemma fold_rust_append: "fold_rust f (xs @ ys) s = rbind (fold_rust f xs s) (fold_rust f ys)"
proof (induction xs arbitrary: s)
  case (Cons x xs)
  then show ?case by (cases "f x s") auto
qed simp

lemma fold_rust_inv:
  "P s \<Longrightarrow> (\<And>x s. x \<in> set xs \<Longrightarrow> P s \<Longrightarrow> \<exists>s'. f x s = Ret s' \<and> P s') \<Longrightarrow> \<exists>s'. fold_rust f xs s = Ret s' \<and> P s'"
proof (induction xs arbitrary: s)
  case (Cons x xs)
  then obtain s' where s': "f x s = Ret s'" "P s'" by fastforce
  then obtain t where "fold_rust f xs s' = Ret t" "P t" using Cons by fastforce
  with s' show ?case by simp
qed simp

named_theorems glob_simps "unfolding rules of the glob matcher"
named_theorems cache_simps "one-step rules of the materialised views"
named_theorems wf_intros "preservation of the component invariants"
named_theorems frame_simps "fields an operation leaves unchanged"

section \<open>Integers\<close>

definition sat_add :: "'a::len word \<Rightarrow> 'a word \<Rightarrow> 'a word" where
  "sat_add a b = (if unat a + unat b < 2 ^ LENGTH('a) then a + b else - 1)"

lemma unat_sat_add: "unat (sat_add a b) = min (unat a + unat b) (2 ^ LENGTH('a) - 1)"
  for a b :: "'a::len word"
proof (cases "unat a + unat b < 2 ^ LENGTH('a)")
  case True
  then show ?thesis by (simp add: sat_add_def unat_add_lem [THEN iffD1])
next
  case False
  have "unat (- 1 :: 'a word) = 2 ^ LENGTH('a) - 1"
    by (simp add: unsigned_minus_1_eq_mask mask_eq_exp_minus_1)
  with False show ?thesis by (simp add: sat_add_def)
qed

lemma sat_add_ge: "a \<le> sat_add a b" for a b :: "'a::len word"
proof -
  have "unat a < 2 ^ LENGTH('a)" by simp
  then have "unat a \<le> 2 ^ LENGTH('a) - 1" by linarith
  then show ?thesis by (simp add: word_le_nat_alt unat_sat_add)
qed

lemma sat_add_mono: "a \<le> a' \<Longrightarrow> sat_add a b \<le> sat_add a' b" for a b :: "'a::len word"
  by (simp add: word_le_nat_alt unat_sat_add min_def)

section \<open>Byte order\<close>

definition nat_of_be :: "bytes \<Rightarrow> nat" where
  "nat_of_be bs = foldl (\<lambda>a b. a * 256 + unat b) 0 bs"

definition of_be :: "bytes \<Rightarrow> 'a::len word" where
  "of_be bs = word_of_nat (nat_of_be bs)"

definition be_bytes :: "nat \<Rightarrow> 'a::len word \<Rightarrow> bytes" where
  "be_bytes n w = map (\<lambda>i. word_of_nat (unat w div 256 ^ (n - 1 - i))) [0..<n]"

definition to_le_bytes :: "nat \<Rightarrow> 'a::len word \<Rightarrow> bytes" where
  "to_le_bytes n w = rev (be_bytes n w)"

definition from_le_bytes :: "bytes \<Rightarrow> 'a::len word" where
  "from_le_bytes bs = of_be (rev bs)"

lemma length_be_bytes [simp]: "length (be_bytes n w) = n"
  by (simp add: be_bytes_def)

lemma length_to_le_bytes [simp]: "length (to_le_bytes n w) = n"
  by (simp add: to_le_bytes_def)

lemma nat_of_be_Nil [simp]: "nat_of_be [] = 0"
  by (simp add: nat_of_be_def)

lemma nat_of_be_snoc [simp]: "nat_of_be (bs @ [b]) = nat_of_be bs * 256 + unat b"
  by (simp add: nat_of_be_def)

lemma unat_u8_less: "unat (b :: u8) < 256"
  using unsigned_less [of b] by simp

lemma nat_of_be_less: "nat_of_be bs < 256 ^ length bs"
proof (induction bs rule: rev_induct)
  case Nil
  then show ?case by simp
next
  case (snoc b bs)
  then have "nat_of_be bs + 1 \<le> 256 ^ length bs" by simp
  then have "(nat_of_be bs + 1) * 256 \<le> 256 ^ length bs * 256" by (rule mult_le_mono1)
  with unat_u8_less [of b] show ?case by simp
qed

lemma be_bytes_Suc:
  "be_bytes (Suc n) w
   = map (\<lambda>i. word_of_nat (unat w div 256 div 256 ^ (n - 1 - i))) [0..<n] @ [word_of_nat (unat w)]"
proof -
  have eq: "unat w div 256 div 256 ^ (n - Suc i) = unat w div 256 ^ (n - i)"
    if "i < n" for i
  proof -
    from that have "n - i = Suc (n - Suc i)" by simp
    then have "(256::nat) ^ (n - i) = 256 * 256 ^ (n - Suc i)" by simp
    then show ?thesis by (simp only: div_mult2_eq)
  qed
  have "map (\<lambda>i. word_of_nat (unat w div 256 div 256 ^ (n - Suc i)) :: u8) [0..<n]
      = map (\<lambda>i. word_of_nat (unat w div 256 ^ (n - i))) [0..<n]"
    by (rule map_cong [OF refl]) (simp add: eq)
  then show ?thesis by (simp add: be_bytes_def)
qed

lemma nat_of_be_digits:
  "nat_of_be (map (\<lambda>i. word_of_nat (m div 256 ^ (n - 1 - i))) [0..<n]) = m mod 256 ^ n"
proof (induction n arbitrary: m)
  case 0
  then show ?case by simp
next
  case (Suc n)
  have eq: "m div 256 ^ (n - i) = m div 256 div 256 ^ (n - Suc i)"
    if "i < n" for i
  proof -
    from that have "n - i = Suc (n - Suc i)" by simp
    then have "(256::nat) ^ (n - i) = 256 * 256 ^ (n - Suc i)" by simp
    then show ?thesis by (simp only: div_mult2_eq)
  qed
  have tl: "map (\<lambda>i. word_of_nat (m div 256 ^ (n - i)) :: u8) [0..<n]
      = map (\<lambda>i. word_of_nat (m div 256 div 256 ^ (n - 1 - i))) [0..<n]"
    by (rule map_cong [OF refl]) (simp add: eq)
  have "nat_of_be (map (\<lambda>i. word_of_nat (m div 256 ^ (Suc n - 1 - i))) [0..<Suc n])
      = (m div 256 mod 256 ^ n) * 256 + m mod 256"
    by (simp add: tl Suc.IH [simplified] unat_of_nat take_bit_eq_mod)
  also have "\<dots> = m mod (256 * 256 ^ n)"
    by (simp add: mod_mult2_eq)
  finally show ?case by simp
qed

lemma of_be_be_bytes:
  fixes w :: "'a::len word"
  assumes "LENGTH('a) = 8 * n"
  shows "of_be (be_bytes n w) = w"
proof -
  have "(256::nat) ^ n = 2 ^ LENGTH('a)"
    by (simp add: assms power_mult)
  moreover have "unat w < 2 ^ LENGTH('a)" by simp
  ultimately have "nat_of_be (be_bytes n w) = unat w"
    by (simp add: be_bytes_def nat_of_be_digits [simplified])
  then show ?thesis by (simp add: of_be_def)
qed

lemma nat_of_be_inj:
  "length xs = length ys \<Longrightarrow> nat_of_be xs = nat_of_be ys \<Longrightarrow> xs = ys"
proof (induction xs arbitrary: ys rule: rev_induct)
  case Nil
  then show ?case by simp
next
  case (snoc x xs)
  then obtain y ys' where ys: "ys = ys' @ [y]"
    by (cases ys rule: rev_exhaust) auto
  with snoc.prems have eq: "nat_of_be xs * 256 + unat x = nat_of_be ys' * 256 + unat y"
    by simp
  have "unat x = unat y"
    using arg_cong [OF eq, of "\<lambda>k. k mod 256"] unat_u8_less [of x] unat_u8_less [of y] by simp
  moreover from this eq have "nat_of_be xs = nat_of_be ys'" by simp
  ultimately show ?case using snoc ys by (simp add: word_unat_eq_iff)
qed

lemma be_bytes_of_be:
  assumes "LENGTH('a::len) = 8 * n" "length bs = n"
  shows "be_bytes n (of_be bs :: 'a word) = bs"
proof (rule nat_of_be_inj)
  have "(256::nat) ^ n = 2 ^ LENGTH('a)"
    by (simp add: assms power_mult)
  moreover have "nat_of_be bs < 256 ^ n"
    using nat_of_be_less [of bs] assms by simp
  ultimately show "nat_of_be (be_bytes n (of_be bs :: 'a word)) = nat_of_be bs"
    by (simp add: be_bytes_def nat_of_be_digits [simplified] of_be_def unat_of_nat take_bit_eq_mod)
qed (simp add: assms)

lemma be_bytes_inj:
  fixes v w :: "'a::len word"
  assumes "LENGTH('a) = 8 * n" "be_bytes n v = be_bytes n w"
  shows "v = w"
  using assms of_be_be_bytes by metis

lemma to_le_bytes_inj:
  fixes v w :: "'a::len word"
  assumes "LENGTH('a) = 8 * n" "to_le_bytes n v = to_le_bytes n w"
  shows "v = w"
  using assms be_bytes_inj by (metis rev_rev_ident to_le_bytes_def)

lemma from_le_to_le:
  fixes w :: "'a::len word"
  assumes "LENGTH('a) = 8 * n"
  shows "from_le_bytes (to_le_bytes n w) = w"
  using of_be_be_bytes [OF assms, of w] by (simp add: from_le_bytes_def to_le_bytes_def)

text \<open>\<open><[u8; n]>::try_from(slice)\<close>: only a slice of exactly \<open>n\<close> bytes converts.\<close>

definition try_array :: "nat \<Rightarrow> bytes \<Rightarrow> 'a::len word option" where
  "try_array n bs = (if length bs = n then Some (of_be bs) else None)"

lemma try_array_be_bytes:
  fixes w :: "'a::len word"
  assumes "LENGTH('a) = 8 * n"
  shows "try_array n (be_bytes n w) = Some w"
  by (simp add: try_array_def of_be_be_bytes [OF assms])

section \<open>Hexadecimal text\<close>

definition hex_char :: "nat \<Rightarrow> char" where
  "hex_char n = char_of (if n < 10 then 48 + n else 87 + n)"

definition hex_byte :: "u8 \<Rightarrow> string" where
  "hex_byte b = [hex_char (unat b div 16), hex_char (unat b mod 16)]"

definition bytes_to_hex :: "bytes \<Rightarrow> string" where
  "bytes_to_hex bs = concat (map hex_byte bs)"

text \<open>
  \<open>hex_nibble\<close> is written three times in the sources (\<open>core/crdt/src/node.rs\<close>,
  \<open>frontier.rs\<close>, \<open>token.rs\<close>), each time with these three ranges.
\<close>

definition hex_nibble :: "char \<Rightarrow> u8 option" where
  "hex_nibble c =
     (let b = of_char c :: nat in
      if 48 \<le> b \<and> b \<le> 57 then Some (of_nat (b - 48))
      else if 97 \<le> b \<and> b \<le> 102 then Some (of_nat (b - 97 + 10))
      else if 65 \<le> b \<and> b \<le> 70 then Some (of_nat (b - 65 + 10))
      else None)"

fun hex_pairs :: "string \<Rightarrow> bytes option" where
  "hex_pairs [] = Some []"
| "hex_pairs [_] = None"
| "hex_pairs (h # l # rest) =
     (case hex_nibble h of None \<Rightarrow> None
      | Some hi \<Rightarrow> (case hex_nibble l of None \<Rightarrow> None
        | Some lo \<Rightarrow> (case hex_pairs rest of None \<Rightarrow> None
          | Some bs \<Rightarrow> Some ((push_bit 4 hi OR lo) # bs))))"

definition hex_to_array :: "nat \<Rightarrow> string \<Rightarrow> bytes option" where
  "hex_to_array n s = (if length s \<noteq> n * 2 then None else hex_pairs s)"

lemma of_char_hex_char: "n < 16 \<Longrightarrow> of_char (hex_char n) = (if n < 10 then 48 + n else 87 + n)"
  by (simp add: hex_char_def)

lemma hex_nibble_hex_char: "n < 16 \<Longrightarrow> hex_nibble (hex_char n) = Some (word_of_nat n)"
  by (simp add: hex_nibble_def of_char_hex_char)

lemma nibbles_join:
  "push_bit 4 (word_of_nat (unat b div 16)) OR word_of_nat (unat b mod 16) = (b :: u8)"
proof -
  have "unat b div 16 < 256" using unat_u8_less [of b] by linarith
  then have hi: "word_of_nat (unat b div 16) = drop_bit 4 b"
    by (simp add: word_unat_eq_iff unat_drop_bit_eq drop_bit_eq_div unat_div unat_of_nat take_bit_eq_mod)
  have lo: "word_of_nat (unat b mod 16) = take_bit 4 b"
    by (simp add: word_unat_eq_iff take_bit_eq_mod unat_mod unat_of_nat)
  show ?thesis
    unfolding hi lo by (rule bit_word_eqI) (auto simp: bit_simps)
qed

lemma hex_byte_nibbles:
  "hex_nibble (hex_char (unat b div 16)) = Some (word_of_nat (unat b div 16))"
  "hex_nibble (hex_char (unat b mod 16)) = Some (word_of_nat (unat b mod 16))" for b :: u8
proof -
  have "unat b div 16 < 16" using unat_u8_less [of b] by linarith
  then show "hex_nibble (hex_char (unat b div 16)) = Some (word_of_nat (unat b div 16))"
    by (rule hex_nibble_hex_char)
qed (rule hex_nibble_hex_char, simp)

lemma hex_pairs_bytes_to_hex: "hex_pairs (bytes_to_hex bs) = Some bs"
  by (induction bs) (simp_all add: bytes_to_hex_def hex_byte_def hex_byte_nibbles nibbles_join)

lemma length_bytes_to_hex [simp]: "length (bytes_to_hex bs) = 2 * length bs"
  by (induction bs) (simp_all add: bytes_to_hex_def hex_byte_def)

lemma hex_to_array_bytes_to_hex: "length bs = n \<Longrightarrow> hex_to_array n (bytes_to_hex bs) = Some bs"
  by (simp add: hex_to_array_def hex_pairs_bytes_to_hex)

lemma length_hex_pairs: "hex_pairs s = Some bs \<Longrightarrow> length s = 2 * length bs"
  by (induction s arbitrary: bs rule: hex_pairs.induct) (auto split: option.splits)

lemma bytes_to_hex_inj: "bytes_to_hex xs = bytes_to_hex ys \<Longrightarrow> xs = ys"
  by (metis hex_pairs_bytes_to_hex option.inject)

definition hash_to_hex :: "hash \<Rightarrow> string" where
  "hash_to_hex h = bytes_to_hex (be_bytes 32 h)"

lemma hash_to_hex_inj: "hash_to_hex x = hash_to_hex y \<Longrightarrow> x = y"
  using be_bytes_inj [where 'a = 256, of 32] by (auto simp: hash_to_hex_def dest!: bytes_to_hex_inj)

section \<open>Printed numbers and case\<close>

text \<open>Digits of \<open>format!\<close>, decimal and lowercase hexadecimal.\<close>

fun digits_of :: "nat \<Rightarrow> nat \<Rightarrow> string" where
  "digits_of b n = (if b < 2 \<or> n < b then [hex_char n] else digits_of b (n div b) @ [hex_char (n mod b)])"

declare digits_of.simps [simp del]

text \<open>\<open>to_lowercase\<close> on the ASCII range.\<close>

definition to_lowercase :: "string \<Rightarrow> string" where
  "to_lowercase s = map (\<lambda>c. let b = of_char c :: nat in if 65 \<le> b \<and> b \<le> 90 then char_of (b + 32) else c) s"

section \<open>Lists, folds and maps\<close>

text \<open>\<open>iter().position(p)\<close>\<close>

fun position :: "('a \<Rightarrow> bool) \<Rightarrow> 'a list \<Rightarrow> nat option" where
  "position p [] = None"
| "position p (x # xs) = (if p x then Some 0 else map_option Suc (position p xs))"

lemma position_None_iff: "position p xs = None \<longleftrightarrow> (\<forall>x \<in> set xs. \<not> p x)"
  by (induction xs) auto

lemma position_SomeD:
  "position p xs = Some i \<Longrightarrow> i < length xs \<and> p (xs ! i) \<and> (\<forall>j < i. \<not> p (xs ! j))"
proof (induction xs arbitrary: i)
  case Nil
  then show ?case by simp
next
  case (Cons x xs)
  show ?case
  proof (cases "p x")
    case True
    with Cons.prems show ?thesis by simp
  next
    case False
    with Cons.prems obtain k where k: "position p xs = Some k" "i = Suc k"
      by auto
    show ?thesis
      using Cons.IH [OF k(1)] k(2) False by (auto simp: less_Suc_eq_0_disj)
  qed
qed

lemma position_nth:
  assumes "distinct xs" "i < length xs"
  shows "position (\<lambda>x. x = xs ! i) xs = Some i"
  using assms
proof (induction xs arbitrary: i)
  case Nil
  then show ?case by simp
next
  case (Cons x xs)
  show ?case
  proof (cases i)
    case 0
    then show ?thesis by simp
  next
    case (Suc k)
    with Cons.prems have "x \<noteq> xs ! k" by auto
    with Suc Cons show ?thesis by simp
  qed
qed

text \<open>Folding keyed updates into a map: each key sees the updates that name it, in order.\<close>

lemma fold_map_upd_at:
  "(fold (\<lambda>x m. m(key x := f x (m (key x)))) xs m) k = fold f [x \<leftarrow> xs. key x = k] (m k)"
  by (induction xs arbitrary: m) auto

lemma fold_inv: "P s \<Longrightarrow> (\<And>x s. x \<in> set xs \<Longrightarrow> P s \<Longrightarrow> P (f x s)) \<Longrightarrow> P (fold f xs s)"
  by (induction xs arbitrary: s) auto

lemma mset_concat_map: "mset (concat (map f xs)) = sum_mset (image_mset (\<lambda>x. mset (f x)) (mset xs))"
  by (induction xs) simp_all

lemma mset_concat_map_perm: "mset ns = mset ms \<Longrightarrow> mset (concat (map f ns)) = mset (concat (map f ms))"
  by (simp add: mset_concat_map)

lemma set_mapfilter: "y \<in> set (List.map_filter f xs) \<longleftrightarrow> (\<exists>x \<in> set xs. f x = Some y)"
  by (induction xs) (auto simp: List.map_filter_simps split: option.splits)

lemma set_alist_update:
  "distinct (map fst al) \<Longrightarrow> (i, m) \<in> set (AList.update k v al) \<longleftrightarrow> (if i = k then m = v else (i, m) \<in> set al)"
  using Some_eq_map_of_iff [of "AList.update k v al" m i] Some_eq_map_of_iff [of al m i]
  by (simp add: distinct_update update_conv') (auto split: if_splits)

lemma alist_lookup_children:
  assumes "distinct (map fst os)"
  shows "x \<in> set (case map_of os q of None \<Rightarrow> [] | Some cs \<Rightarrow> cs) \<longleftrightarrow> (\<exists>cs. (q, cs) \<in> set os \<and> x \<in> set cs)"
proof (cases "map_of os q")
  case None
  then have "(q, cs) \<notin> set os" for cs by (force simp: map_of_eq_None_iff)
  with None show ?thesis by simp
next
  case (Some cs)
  then have "(q, ds) \<in> set os \<longleftrightarrow> ds = cs" for ds
    using map_of_eq_Some_iff [OF assms, of q ds] by auto
  with Some show ?thesis by simp
qed

lemma fold_concat_map: "fold f (concat (map g xs)) s = fold (\<lambda>x. fold f (g x)) xs s"
  by (induction xs arbitrary: s) auto

section \<open>Last-writer-wins registers\<close>

text \<open>
  The contract the LWW cells of the program share (the map winners and the list item
  positions): a candidate replaces the state exactly when its priority is strictly greater.
  Within it, folding any sequence of candidates keeps the greatest one, and where distinct
  candidates have distinct priorities the result depends on the set of candidates only.
\<close>

locale lww_register =
  fixes cpri :: "'c \<Rightarrow> 'p::linorder"
    and spri :: "'s \<Rightarrow> 'p"
    and mk :: "'c \<Rightarrow> 's"
    and put :: "'c \<Rightarrow> 's \<Rightarrow> 's"
  assumes put_gt: "spri s < cpri c \<Longrightarrow> put c s = mk c"
    and put_le: "cpri c \<le> spri s \<Longrightarrow> put c s = s"
    and spri_mk: "spri (mk c) = cpri c"
begin

lemma put_cases: "put c s = (if spri s < cpri c then mk c else s)"
  by (simp add: put_gt put_le)

lemma put_commute: "cpri a \<noteq> cpri b \<or> a = b \<Longrightarrow> put a (put b s) = put b (put a s)"
  by (auto simp: put_cases spri_mk)

lemma put_idem: "put a (put a s) = put a s"
  by (auto simp: put_cases spri_mk)

lemma fold_put_cases:
  "(fold put cs s = s \<and> (\<forall>c \<in> set cs. cpri c \<le> spri s))
   \<or> (\<exists>c \<in> set cs. fold put cs s = mk c \<and> spri s < cpri c \<and> (\<forall>d \<in> set cs. cpri d \<le> cpri c))"
proof (induction cs rule: rev_induct)
  case Nil
  then show ?case by simp
next
  case (snoc c cs)
  show ?case
    using snoc
  proof (elim disjE bexE conjE)
    assume s: "fold put cs s = s" "\<forall>d \<in> set cs. cpri d \<le> spri s"
    show ?thesis
    proof (cases "spri s < cpri c")
      case True
      with s show ?thesis by (auto simp: put_gt dest: order_le_less_trans less_imp_le)
    next
      case False
      with s show ?thesis by (auto simp: put_le)
    qed
  next
    fix w
    assume w: "w \<in> set cs" "fold put cs s = mk w" "spri s < cpri w" "\<forall>d \<in> set cs. cpri d \<le> cpri w"
    show ?thesis
    proof (cases "cpri w < cpri c")
      case True
      with w show ?thesis
        by (auto simp: put_gt spri_mk dest: less_trans intro: less_imp_le order_le_less_trans)
    next
      case False
      with w show ?thesis by (auto simp: put_le spri_mk not_less)
    qed
  qed
qed

lemma spri_fold_put: "spri s \<le> spri (fold put cs s)" "c \<in> set cs \<Longrightarrow> cpri c \<le> spri (fold put cs s)"
  using fold_put_cases [of cs s] by (auto simp: spri_mk)

lemma fold_put_mk:
  assumes "c \<in> set cs" "spri s < cpri c" "\<And>d. d \<in> set cs \<Longrightarrow> d \<noteq> c \<Longrightarrow> cpri d < cpri c"
  shows "fold put cs s = mk c"
  using fold_put_cases [of cs s] assms by (metis leD)

lemma fold_put_set:
  assumes "inj_on cpri (set cs)" "set cs = set ds"
  shows "fold put cs s = fold put ds s"
  using fold_put_cases [of cs s]
proof (elim disjE bexE conjE)
  assume "fold put cs s = s" "\<forall>c \<in> set cs. cpri c \<le> spri s"
  moreover from this assms(2) have "fold put ds s = s"
    using fold_put_cases [of ds s] by (metis leD)
  ultimately show ?thesis by simp
next
  fix c
  assume c: "c \<in> set cs" "fold put cs s = mk c" "spri s < cpri c" "\<forall>d \<in> set cs. cpri d \<le> cpri c"
  have "fold put ds s = mk c"
  proof (rule fold_put_mk)
    show "c \<in> set ds" using c assms by simp
    show "spri s < cpri c" by (rule c(3))
    fix d assume "d \<in> set ds" "d \<noteq> c"
    with c assms show "cpri d < cpri c"
      by (metis inj_onD order_le_imp_less_or_eq)
  qed
  with c show ?thesis by simp
qed

lemma fold_put_le: "(\<And>c. c \<in> set cs \<Longrightarrow> cpri c \<le> spri s) \<Longrightarrow> fold put cs s = s"
  using fold_put_cases [of cs s] by (metis leD)

lemma fold_put_same:
  assumes "\<And>c. c \<in> set cs \<Longrightarrow> cpri c = p" "cs \<noteq> []"
  shows "fold put cs s = put (hd cs) s"
proof -
  obtain c ds where cs: "cs = c # ds" using assms(2) by (cases cs) auto
  have "cpri c \<le> spri (put c s)" using spri_fold_put(2) [of c "[c]" s] by simp
  with assms(1) cs have "fold put ds (put c s) = put c s"
    by (intro fold_put_le) auto
  with cs show ?thesis by simp
qed

text \<open>
  Candidates that come in groups of one priority each (the operations of one transaction):
  the first of a group is the only one that counts, and groups of different priority commute.
\<close>

lemma fold_put_groups:
  assumes "\<And>n c. n \<in> set ns \<Longrightarrow> c \<in> set (g n) \<Longrightarrow> cpri c = np n"
  shows "fold (\<lambda>n. fold put (g n)) ns s = fold put (map (\<lambda>n. hd (g n)) (filter (\<lambda>n. g n \<noteq> []) ns)) s"
  using assms
proof (induction ns arbitrary: s)
  case (Cons n ns)
  have "fold put (g n) s = put (hd (g n)) s" if "g n \<noteq> []"
    using Cons.prems that by (intro fold_put_same) auto
  with Cons show ?case by auto
qed simp

lemma fold_put_groups_set:
  assumes "\<And>n c. n \<in> set ns \<Longrightarrow> c \<in> set (g n) \<Longrightarrow> cpri c = np n"
    and "inj_on np (set ns)" "set ns = set ms"
  shows "fold (\<lambda>n. fold put (g n)) ns s = fold (\<lambda>n. fold put (g n)) ms s"
proof -
  let ?hs = "\<lambda>ns. map (\<lambda>n. hd (g n)) (filter (\<lambda>n. g n \<noteq> []) ns)"
  have pri: "cpri (hd (g n)) = np n" if "n \<in> set ns" "g n \<noteq> []" for n
    using assms(1) that by auto
  have "inj_on cpri (set (?hs ns))"
    using assms(2) pri by (auto simp: inj_on_def)
  moreover have "set (?hs ns) = set (?hs ms)" using assms(3) by auto
  ultimately have "fold put (?hs ns) s = fold put (?hs ms) s" by (rule fold_put_set)
  with assms(1,3) fold_put_groups [of ns g np s] fold_put_groups [of ms g np s]
  show ?thesis by simp
qed

lemma fold_put_groups_winner:
  assumes "\<And>n c. n \<in> set ns \<Longrightarrow> c \<in> set (g n) \<Longrightarrow> cpri c = np n"
    and "w \<in> set ns" "g w \<noteq> []" "spri s < np w"
    and "\<And>n. n \<in> set ns \<Longrightarrow> g n \<noteq> [] \<Longrightarrow> n \<noteq> w \<Longrightarrow> np n < np w"
  shows "fold (\<lambda>n. fold put (g n)) ns s = mk (hd (g w))"
proof -
  have pri: "cpri (hd (g n)) = np n" if "n \<in> set ns" "g n \<noteq> []" for n
    using assms(1) that by auto
  have "fold put (map (\<lambda>n. hd (g n)) (filter (\<lambda>n. g n \<noteq> []) ns)) s = mk (hd (g w))"
    using assms(2-5) pri by (intro fold_put_mk) (auto, metis)
  with assms(1) fold_put_groups [of ns g np s] show ?thesis by simp
qed

end

end
