(* ===== verification/Fenwick.thy ===== *)
theory Fenwick
  imports Prelude
begin

text \<open>
  The counted position index of the text projection (\<open>CountedPositionIndex\<close> in
  \<open>core/crdt/src/text.rs\<close>): a Fenwick tree over chunk weights. Entries are \<open>u32\<close> in the source and
  saturate; here they are natural numbers with the saturation written out. Tree indices are \<open>usize\<close>.
\<close>

unbundle bit_operations_syntax

section \<open>Definitions\<close>

definition U32_MAX :: nat where
  "U32_MAX = 2 ^ 32 - 1"

definition U64_MAX :: nat where
  "U64_MAX = 2 ^ 64 - 1"

record counted_position_index =
  cpi_weights :: "nat list"
  cpi_fenwick :: "nat list"

definition cpi_default :: counted_position_index where
  "cpi_default = \<lparr>cpi_weights = [], cpi_fenwick = []\<rparr>"

definition to_u32 :: "nat \<Rightarrow> nat" where
  "to_u32 v = min v U32_MAX"

text \<open>\<open>idx & idx.wrapping_neg()\<close> on a 64-bit \<open>usize\<close>.\<close>

definition low_bit :: "nat \<Rightarrow> nat" where
  "low_bit i = i AND (2 ^ 64 - i)"

text \<open>
  The loops of \<open>add_u32\<close> and \<open>sub_u32\<close>. Their index starts at 1 or more, where \<open>low_bit\<close> is positive
  (\<open>low_bit_pos\<close>); the test for it only makes the functions total.
\<close>

function add_u32 :: "nat \<Rightarrow> nat \<Rightarrow> nat list \<Rightarrow> nat list" where
  "add_u32 idx1 delta f =
     (if idx1 < length f \<and> 0 < low_bit idx1
      then add_u32 (idx1 + low_bit idx1) delta (f[idx1 := min (f ! idx1 + delta) U32_MAX])
      else f)"
  by pat_completeness auto
termination by (relation "measure (\<lambda>(i, d, f). length f - i)") auto

function sub_u32 :: "nat \<Rightarrow> nat \<Rightarrow> nat list \<Rightarrow> nat list" where
  "sub_u32 idx1 delta f =
     (if idx1 < length f \<and> 0 < low_bit idx1
      then sub_u32 (idx1 + low_bit idx1) delta (f[idx1 := f ! idx1 - delta])
      else f)"
  by pat_completeness auto
termination by (relation "measure (\<lambda>(i, d, f). length f - i)") auto

declare add_u32.simps [simp del] sub_u32.simps [simp del]

definition rebuild_fenwick :: "nat list \<Rightarrow> nat list" where
  "rebuild_fenwick ws = fold (\<lambda>i. add_u32 (i + 1) (ws ! i)) [0..<length ws] (replicate (length ws + 1) 0)"

definition rebuild_from_weights :: "nat list \<Rightarrow> counted_position_index" where
  "rebuild_from_weights weights =
     (let ws = map to_u32 weights in \<lparr>cpi_weights = ws, cpi_fenwick = rebuild_fenwick ws\<rparr>)"

lemma and_minus_one_less: "0 < i \<Longrightarrow> i AND (i - 1) < (i :: nat)"
  using AND_upper2 [of "int (i - 1)" "int i"] by (simp add: and_nat_def nat_less_iff)

function prefix_loop :: "nat list \<Rightarrow> nat \<Rightarrow> nat \<Rightarrow> nat" where
  "prefix_loop f idx1 acc =
     (if 0 < idx1 then prefix_loop f (idx1 AND (idx1 - 1)) (min (acc + f ! idx1) U64_MAX) else acc)"
  by pat_completeness auto
termination by (relation "measure (\<lambda>(f, i, a). i)") (use and_minus_one_less in auto)

declare prefix_loop.simps [simp del]

definition prefix_sum :: "counted_position_index \<Rightarrow> nat \<Rightarrow> nat" where
  "prefix_sum ix idx1 = prefix_loop (cpi_fenwick ix) (min idx1 (length (cpi_fenwick ix) - 1)) 0"

definition total_len :: "counted_position_index \<Rightarrow> nat" where
  "total_len ix = prefix_sum ix (length (cpi_weights ix))"

definition update_weight :: "nat \<Rightarrow> nat \<Rightarrow> counted_position_index \<Rightarrow> counted_position_index" where
  "update_weight idx new_weight0 ix =
     (if length (cpi_weights ix) \<le> idx then ix
      else
        let new_weight = to_u32 new_weight0; old_weight = cpi_weights ix ! idx in
        if old_weight = new_weight then ix
        else
          let ix1 = ix\<lparr>cpi_weights := (cpi_weights ix)[idx := new_weight]\<rparr> in
          if old_weight < new_weight
          then ix1\<lparr>cpi_fenwick := add_u32 (idx + 1) (new_weight - old_weight) (cpi_fenwick ix1)\<rparr>
          else ix1\<lparr>cpi_fenwick := sub_u32 (idx + 1) (old_weight - new_weight) (cpi_fenwick ix1)\<rparr>)"

function bit_above :: "nat \<Rightarrow> nat \<Rightarrow> nat" where
  "bit_above n b = (if b < n \<and> 0 < b then bit_above n (2 * b) else b)"
  by pat_completeness auto
termination by (relation "measure (\<lambda>(n, b). n - b)") auto

declare bit_above.simps [simp del]

fun descend :: "nat list \<Rightarrow> nat \<Rightarrow> nat \<Rightarrow> nat \<Rightarrow> nat \<Rightarrow> nat" where
  "descend f target b idx running =
     (if 0 < b then
        let nxt = idx + b; cand = min (running + f ! nxt) U64_MAX in
        if nxt < length f \<and> cand < target then descend f target (b div 2) nxt cand
        else descend f target (b div 2) idx running
      else idx)"

declare descend.simps [simp del]

definition lower_bound :: "counted_position_index \<Rightarrow> nat \<Rightarrow> nat option" where
  "lower_bound ix target =
     (if target = 0 \<or> cpi_weights ix = [] then None
      else if prefix_sum ix (length (cpi_weights ix)) < target then None
      else Some (descend (cpi_fenwick ix) target (bit_above (length (cpi_fenwick ix)) 1) 0 0))"

definition select_offset :: "counted_position_index \<Rightarrow> nat \<Rightarrow> (nat \<times> nat) option" where
  "select_offset ix offset =
     (if total_len ix \<le> offset then None
      else case lower_bound ix (offset + 1) of
          None \<Rightarrow> None
        | Some entry_idx \<Rightarrow> Some (entry_idx, offset - prefix_sum ix entry_idx))"

section \<open>The lowest set bit\<close>

function lsb :: "nat \<Rightarrow> nat" where
  "lsb i = (if i = 0 then 0 else if odd i then 1 else 2 * lsb (i div 2))"
  by pat_completeness auto
termination by (relation "measure id") auto

declare lsb.simps [simp del]

lemma lsb_0 [simp]: "lsb 0 = 0"
  by (subst lsb.simps) simp

lemma lsb_odd [simp]: "lsb (2 * i + 1) = 1" "lsb (Suc (2 * i)) = 1"
  by (subst lsb.simps, simp)+

lemma lsb_even [simp]: "lsb (2 * i) = 2 * lsb i"
  by (cases "i = 0", simp, subst lsb.simps, simp)

lemma nat_parity_cases:
  fixes i :: nat
  obtains "i = 0" | j where "i = 2 * j + 1" | j where "i = 2 * j" "0 < j"
proof (cases "even i")
  case True
  then obtain j where "i = 2 * j" by blast
  with that show ?thesis by (cases "j = 0") auto
next
  case False
  then obtain j where "i = 2 * j + 1" by (rule oddE)
  with that show ?thesis by auto
qed

lemma lsb_bounds: "lsb i \<le> i" "0 < i \<Longrightarrow> 0 < lsb i"
proof -
  have "lsb i \<le> i \<and> (0 < i \<longrightarrow> 0 < lsb i)"
  proof (induction i rule: less_induct)
    case (less i)
    show ?case using less by (cases i rule: nat_parity_cases) auto
  qed
  then show "lsb i \<le> i" "0 < i \<Longrightarrow> 0 < lsb i" by auto
qed

lemma and_odd_odd: "(2 * a + 1) AND (2 * b + 1) = 2 * (a AND b) + (1 :: nat)"
  and and_even_even: "(2 * a) AND (2 * b) = 2 * (a AND b)"
  and and_odd_even: "(2 * a + 1) AND (2 * b) = 2 * (a AND b)"
  and and_even_odd: "(2 * a) AND (2 * b + 1) = 2 * (a AND b)"
  for a b :: nat
  by (subst and_rec, simp)+

lemma and_pred: "0 < i \<Longrightarrow> i AND (i - 1) = i - lsb i"
proof (induction i rule: less_induct)
  case (less i)
  show ?case
  proof (cases i rule: nat_parity_cases)
    case (2 j)
    then show ?thesis using and_odd_even [of j j] by simp
  next
    case (3 j)
    then have "i - 1 = 2 * (j - 1) + 1" by simp
    then have "i AND (i - 1) = 2 * (j AND (j - 1))"
      using and_even_odd [of j "j - 1"] 3 by simp
    also have "\<dots> = i - lsb i" using less.IH [of j] 3 by (simp add: diff_mult_distrib2)
    finally show ?thesis .
  qed (use less in simp)
qed

lemma and_complement_aux: "j < 2 ^ n \<Longrightarrow> j AND (2 ^ n - 1 - j) = (0 :: nat)"
proof (induction n arbitrary: j)
  case (Suc n)
  show ?case
  proof (cases "even j")
    case True
    then obtain k where k: "j = 2 * k" by blast
    with Suc.prems have "k < 2 ^ n" by simp
    moreover have "2 ^ Suc n - 1 - j = 2 * (2 ^ n - 1 - k) + 1" using \<open>k < 2 ^ n\<close> k by simp
    ultimately show ?thesis using Suc.IH [of k] and_even_odd [of k] k by simp
  next
    case False
    then obtain k where k: "j = 2 * k + 1" by (auto elim: oddE)
    with Suc.prems have "k < 2 ^ n" by simp
    moreover have "2 ^ Suc n - 1 - j = 2 * (2 ^ n - 1 - k)" using \<open>k < 2 ^ n\<close> k by simp
    ultimately show ?thesis using Suc.IH [of k] and_odd_even [of k] k by simp
  qed
qed simp

lemma and_neg_lsb: "0 < i \<Longrightarrow> i < 2 ^ n \<Longrightarrow> i AND (2 ^ n - i) = lsb i"
proof (induction n arbitrary: i)
  case (Suc n)
  show ?case
  proof (cases i rule: nat_parity_cases)
    case 1
    with Suc show ?thesis by simp
  next
    case (2 j)
    with Suc.prems have j: "j < 2 ^ n" by simp
    have "2 ^ Suc n - i = 2 * (2 ^ n - 1 - j) + 1" using j 2 by simp
    then have "i AND (2 ^ Suc n - i) = 2 * (j AND (2 ^ n - 1 - j)) + 1"
      using and_odd_odd [of j "2 ^ n - 1 - j"] 2 by simp
    with and_complement_aux [OF j] 2 show ?thesis by simp
  next
    case (3 j)
    with Suc.prems have j: "j < 2 ^ n" "0 < j" by simp_all
    have "2 ^ Suc n - i = 2 * (2 ^ n - j)" using 3 by simp
    then have "i AND (2 ^ Suc n - i) = 2 * (j AND (2 ^ n - j))"
      using and_even_even [of j "2 ^ n - j"] 3 by simp
    with Suc.IH [OF j(2,1)] 3 show ?thesis by simp
  qed
qed simp

lemma low_bit_lsb: "0 < i \<Longrightarrow> i < 2 ^ 64 \<Longrightarrow> low_bit i = lsb i"
  unfolding low_bit_def by (rule and_neg_lsb)

lemma low_bit_pos: "0 < i \<Longrightarrow> i < 2 ^ 64 \<Longrightarrow> 0 < low_bit i"
  by (simp add: low_bit_lsb lsb_bounds)

section \<open>Which nodes cover an index\<close>

definition covers :: "nat \<Rightarrow> nat \<Rightarrow> bool" where
  "covers i p \<longleftrightarrow> i - lsb i < p \<and> p \<le> i"

lemma covers_odd: "covers (Suc (2 * k)) p \<longleftrightarrow> p = Suc (2 * k)"
  by (auto simp: covers_def)

lemma covers_even: "0 < k \<Longrightarrow> covers (2 * k) p \<longleftrightarrow> covers k ((p + 1) div 2)"
  unfolding covers_def using lsb_bounds [of k] by (simp, presburger)

lemma even_plus_lsb: "0 < p \<Longrightarrow> even (p + lsb p)"
  by (cases p rule: nat_parity_cases) auto

lemma covers_step: "0 < p \<Longrightarrow> 0 < i \<Longrightarrow> covers i p \<longleftrightarrow> i = p \<or> covers i (p + lsb p)"
proof (induction i arbitrary: p rule: less_induct)
  case (less i)
  show ?case
  proof (cases i rule: nat_parity_cases)
    case 1
    with less show ?thesis by simp
  next
    case (2 k)
    have "p + lsb p \<noteq> 2 * k + 1" using even_plus_lsb [OF less.prems(1)] by presburger
    with 2 show ?thesis by (auto simp: covers_odd)
  next
    case (3 k)
    show ?thesis
    proof (cases p rule: nat_parity_cases)
      case 1
      with less show ?thesis by simp
    next
      case (2 q)
      have "(p + 1) div 2 = q + 1" "(p + lsb p + 1) div 2 = q + 1" "i \<noteq> p"
        using 2 3 by (simp_all, presburger)
      with 3 show ?thesis by (simp add: covers_even)
    next
      case (3 q)
      have "(p + 1) div 2 = q" "(p + lsb p + 1) div 2 = q + lsb q"
        using 3 by (simp_all)
      with \<open>i = 2 * k\<close> \<open>0 < k\<close> less.IH [of k q] 3 show ?thesis by (simp add: covers_even)
    qed
  qed
qed

section \<open>The tree represents its weights\<close>

definition fen_repr :: "nat list \<Rightarrow> nat list \<Rightarrow> bool" where
  "fen_repr ws f \<longleftrightarrow> length f = Suc (length ws) \<and>
     (\<forall>i. 0 < i \<longrightarrow> i \<le> length ws \<longrightarrow> f ! i = (\<Sum>j = i - lsb i..<i. ws ! j))"

lemma sum_list_take: "k \<le> length ws \<Longrightarrow> sum_list (take k ws) = (\<Sum>j = 0..<k. ws ! j)" for ws :: "nat list"
  by (simp add: sum_list_sum_nth)

lemma sum_split: "a \<le> b \<Longrightarrow> (\<Sum>j = 0..<b. (g j :: nat)) = (\<Sum>j = 0..<a. g j) + (\<Sum>j = a..<b. g j)"
  for a b :: nat
  using sum.atLeastLessThan_concat [of 0 a b g] by simp

lemma sum_le_sum_list: "b \<le> length ws \<Longrightarrow> (\<Sum>j = a..<b. ws ! j) \<le> sum_list ws" for ws :: "nat list"
  by (auto simp: sum_list_sum_nth intro: sum_mono2)

lemma add_u32_nth:
  assumes "0 < p" "length f \<le> 2 ^ 64"
  shows "length (add_u32 p d f) = length f"
    "i < length f \<Longrightarrow> add_u32 p d f ! i = (if 0 < i \<and> covers i p then min (f ! i + d) U32_MAX else f ! i)"
proof -
  have "length (add_u32 p d f) = length f \<and>
    (\<forall>i < length f. add_u32 p d f ! i = (if 0 < i \<and> covers i p then min (f ! i + d) U32_MAX else f ! i))"
    using assms
  proof (induction p d f rule: add_u32.induct)
    case (1 p d f)
    show ?case
    proof (cases "p < length f")
      case False
      then show ?thesis by (subst (1 2) add_u32.simps) (auto simp: covers_def)
    next
      case True
      with "1.prems" have lb: "low_bit p = lsb p" "0 < lsb p"
        by (simp_all add: low_bit_lsb lsb_bounds)
      let ?f = "f[p := min (f ! p + d) U32_MAX]"
      have eq: "add_u32 p d f = add_u32 (p + lsb p) d ?f"
        using True lb by (subst add_u32.simps) simp
      have IH: "length (add_u32 (p + lsb p) d ?f) = length f"
        "\<And>i. i < length f \<Longrightarrow> add_u32 (p + lsb p) d ?f ! i =
           (if 0 < i \<and> covers i (p + lsb p) then min (?f ! i + d) U32_MAX else ?f ! i)"
        using 1 True lb by auto
      have np: "\<not> covers p (p + lsb p)" using lb by (simp add: covers_def)
      have "add_u32 p d f ! i = (if 0 < i \<and> covers i p then min (f ! i + d) U32_MAX else f ! i)"
        if "i < length f" for i
        using that IH(2) [OF that] np covers_step [OF "1.prems"(1), of i] "1.prems"(1) True
        by (cases "i = p") (auto simp: eq)
      with IH(1) eq show ?thesis by simp
    qed
  qed
  then show "length (add_u32 p d f) = length f"
    "i < length f \<Longrightarrow> add_u32 p d f ! i = (if 0 < i \<and> covers i p then min (f ! i + d) U32_MAX else f ! i)"
    by auto
qed

lemma sub_u32_nth:
  assumes "0 < p" "length f \<le> 2 ^ 64"
  shows "length (sub_u32 p d f) = length f"
    "i < length f \<Longrightarrow> sub_u32 p d f ! i = (if 0 < i \<and> covers i p then f ! i - d else f ! i)"
proof -
  have "length (sub_u32 p d f) = length f \<and>
    (\<forall>i < length f. sub_u32 p d f ! i = (if 0 < i \<and> covers i p then f ! i - d else f ! i))"
    using assms
  proof (induction p d f rule: sub_u32.induct)
    case (1 p d f)
    show ?case
    proof (cases "p < length f")
      case False
      then show ?thesis by (subst (1 2) sub_u32.simps) (auto simp: covers_def)
    next
      case True
      with "1.prems" have lb: "low_bit p = lsb p" "0 < lsb p"
        by (simp_all add: low_bit_lsb lsb_bounds)
      let ?f = "f[p := f ! p - d]"
      have eq: "sub_u32 p d f = sub_u32 (p + lsb p) d ?f"
        using True lb by (subst sub_u32.simps) simp
      have IH: "length (sub_u32 (p + lsb p) d ?f) = length f"
        "\<And>i. i < length f \<Longrightarrow> sub_u32 (p + lsb p) d ?f ! i =
           (if 0 < i \<and> covers i (p + lsb p) then ?f ! i - d else ?f ! i)"
        using 1 True lb by auto
      have np: "\<not> covers p (p + lsb p)" using lb by (simp add: covers_def)
      have "sub_u32 p d f ! i = (if 0 < i \<and> covers i p then f ! i - d else f ! i)"
        if "i < length f" for i
        using that IH(2) [OF that] np covers_step [OF "1.prems"(1), of i] "1.prems"(1) True
        by (cases "i = p") (auto simp: eq)
      with IH(1) eq show ?thesis by simp
    qed
  qed
  then show "length (sub_u32 p d f) = length f"
    "i < length f \<Longrightarrow> sub_u32 p d f ! i = (if 0 < i \<and> covers i p then f ! i - d else f ! i)"
    by auto
qed

lemma sum_list_update_range:
  "idx < length ws \<Longrightarrow> b \<le> length ws \<Longrightarrow>
   (\<Sum>j = a..<b. ws[idx := v] ! j) + (if a \<le> idx \<and> idx < b then ws ! idx else 0)
   = (\<Sum>j = a..<b. ws ! j) + (if a \<le> idx \<and> idx < b then v else 0)" for ws :: "nat list"
proof (induction b)
  case (Suc b)
  then show ?case by (cases "a \<le> b") (auto simp: nth_list_update)
qed simp

lemma add_u32_repr:
  assumes r: "fen_repr ws f" and idx: "idx < length ws" and len: "length ws < 2 ^ 63"
    and sat: "sum_list (ws[idx := ws ! idx + d]) \<le> U32_MAX"
  shows "fen_repr (ws[idx := ws ! idx + d]) (add_u32 (idx + 1) d f)"
  unfolding fen_repr_def
proof (intro conjI allI impI)
  have lf: "length f \<le> 2 ^ 64" using r len by (simp add: fen_repr_def)
  show "length (add_u32 (idx + 1) d f) = Suc (length (ws[idx := ws ! idx + d]))"
    using add_u32_nth(1) [OF _ lf] r by (simp add: fen_repr_def)
  fix i assume i: "0 < i" "i \<le> length (ws[idx := ws ! idx + d])"
  have cov: "covers i (idx + 1) \<longleftrightarrow> i - lsb i \<le> idx \<and> idx < i"
    by (auto simp: covers_def)
  have "(\<Sum>j = i - lsb i..<i. ws[idx := ws ! idx + d] ! j) \<le> U32_MAX"
    using sum_le_sum_list [of i "ws[idx := ws ! idx + d]"] i sat by (meson le_trans)
  moreover have "f ! i = (\<Sum>j = i - lsb i..<i. ws ! j)" using r i by (simp add: fen_repr_def)
  moreover have "add_u32 (idx + 1) d f ! i = (if covers i (idx + 1) then min (f ! i + d) U32_MAX else f ! i)"
    using add_u32_nth(2) [OF _ lf, of "idx + 1" i] i r by (simp add: fen_repr_def)
  ultimately show "add_u32 (idx + 1) d f ! i = (\<Sum>j = i - lsb i..<i. ws[idx := ws ! idx + d] ! j)"
    using sum_list_update_range [OF idx, where b = i and a = "i - lsb i" and v = "ws ! idx + d"] i cov by (auto split: if_splits)
qed

lemma sub_u32_repr:
  assumes r: "fen_repr ws f" and idx: "idx < length ws" and len: "length ws < 2 ^ 63"
    and d: "d \<le> ws ! idx"
  shows "fen_repr (ws[idx := ws ! idx - d]) (sub_u32 (idx + 1) d f)"
  unfolding fen_repr_def
proof (intro conjI allI impI)
  have lf: "length f \<le> 2 ^ 64" using r len by (simp add: fen_repr_def)
  show "length (sub_u32 (idx + 1) d f) = Suc (length (ws[idx := ws ! idx - d]))"
    using sub_u32_nth(1) [OF _ lf] r by (simp add: fen_repr_def)
  fix i assume i: "0 < i" "i \<le> length (ws[idx := ws ! idx - d])"
  have cov: "covers i (idx + 1) \<longleftrightarrow> i - lsb i \<le> idx \<and> idx < i"
    by (auto simp: covers_def)
  have "f ! i = (\<Sum>j = i - lsb i..<i. ws ! j)" using r i by (simp add: fen_repr_def)
  moreover have "sub_u32 (idx + 1) d f ! i = (if covers i (idx + 1) then f ! i - d else f ! i)"
    using sub_u32_nth(2) [OF _ lf, of "idx + 1" i] i r by (simp add: fen_repr_def)
  ultimately show "sub_u32 (idx + 1) d f ! i = (\<Sum>j = i - lsb i..<i. ws[idx := ws ! idx - d] ! j)"
    using sum_list_update_range [OF idx, where b = i and a = "i - lsb i" and v = "ws ! idx - d"] i cov d
    by (auto split: if_splits) linarith
qed

lemma rebuild_fenwick_repr:
  assumes len: "length ws < 2 ^ 63" and sat: "sum_list ws \<le> U32_MAX"
  shows "fen_repr ws (rebuild_fenwick ws)"
proof -
  let ?part = "\<lambda>k. take k ws @ replicate (length ws - k) 0"
  have "fen_repr (?part k) (fold (\<lambda>i. add_u32 (i + 1) (ws ! i)) [0..<k] (replicate (length ws + 1) 0))"
    if "k \<le> length ws" for k
    using that
  proof (induction k)
    case 0
    show ?case by (auto simp: fen_repr_def)
  next
    case (Suc k)
    let ?f = "fold (\<lambda>i. add_u32 (i + 1) (ws ! i)) [0..<k] (replicate (length ws + 1) 0)"
    have k: "k < length ws" using Suc.prems by simp
    have "?part k ! k = 0" using k by (simp add: nth_append)
    moreover have upd: "(?part k)[k := ws ! k] = ?part (Suc k)"
      using k by (intro nth_equalityI) (auto simp: nth_append nth_list_update less_Suc_eq)
    moreover have "sum_list (?part (Suc k)) \<le> U32_MAX"
      using sat sum_le_sum_list [of "Suc k" ws 0] k by (simp add: sum_list_take sum_list_replicate)
    ultimately have "fen_repr (?part (Suc k)) (add_u32 (k + 1) (ws ! k) ?f)"
      using add_u32_repr [of "?part k" ?f k "ws ! k"] Suc k len by simp
    then show ?case by simp
  qed
  from this [of "length ws"] show ?thesis by (simp add: rebuild_fenwick_def)
qed

section \<open>Queries\<close>

lemma prefix_loop_repr:
  assumes "fen_repr ws f" "i \<le> length ws" "acc + (\<Sum>j = 0..<i. ws ! j) \<le> U64_MAX"
  shows "prefix_loop f i acc = acc + (\<Sum>j = 0..<i. ws ! j)"
  using assms(2,3)
proof (induction i arbitrary: acc rule: less_induct)
  case (less i)
  show ?case
  proof (cases "i = 0")
    case True
    then show ?thesis by (subst prefix_loop.simps) simp
  next
    case False
    have lt: "i - lsb i < i" using False lsb_bounds(2) [of i] by simp
    have sp: "(\<Sum>j = 0..<i. ws ! j) = (\<Sum>j = 0..<i - lsb i. ws ! j) + (\<Sum>j = i - lsb i..<i. ws ! j)"
      by (rule sum_split) simp
    have fi: "f ! i = (\<Sum>j = i - lsb i..<i. ws ! j)"
      using assms(1) False less.prems by (simp add: fen_repr_def)
    have "prefix_loop f i acc = prefix_loop f (i - lsb i) (min (acc + f ! i) U64_MAX)"
      using False by (subst prefix_loop.simps) (simp add: and_pred [simplified])
    also have "\<dots> = acc + f ! i + (\<Sum>j = 0..<i - lsb i. ws ! j)"
      using less.IH [OF lt, of "acc + f ! i"] less.prems sp fi by simp
    finally show ?thesis using sp fi by simp
  qed
qed

lemma U32_le_U64: "U32_MAX \<le> U64_MAX"
  by (simp add: U32_MAX_def U64_MAX_def)

definition cpi_repr :: "counted_position_index \<Rightarrow> nat list \<Rightarrow> bool" where
  "cpi_repr ix ws \<longleftrightarrow> cpi_weights ix = ws \<and> sum_list ws \<le> U32_MAX \<and> length ws < 2 ^ 63
     \<and> (fen_repr ws (cpi_fenwick ix) \<or> ws = [] \<and> cpi_fenwick ix = [])"

lemma prefix_sum_repr:
  assumes "cpi_repr ix ws"
  shows "prefix_sum ix k = sum_list (take k ws)"
proof (cases "fen_repr ws (cpi_fenwick ix)")
  case True
  let ?k = "min k (length ws)"
  have "length (cpi_fenwick ix) - 1 = length ws" using True by (simp add: fen_repr_def)
  moreover have "(\<Sum>j = 0..<?k. ws ! j) \<le> U64_MAX"
    using sum_le_sum_list [of ?k ws 0] assms U32_le_U64 by (simp add: cpi_repr_def)
  ultimately have "prefix_sum ix k = (\<Sum>j = 0..<?k. ws ! j)"
    using prefix_loop_repr [OF True, of ?k 0] by (simp add: prefix_sum_def)
  also have "\<dots> = sum_list (take ?k ws)" by (rule sum_list_take [symmetric]) simp
  finally show ?thesis by (simp add: min_def)
next
  case False
  with assms have "ws = []" "cpi_fenwick ix = []" by (auto simp: cpi_repr_def)
  then show ?thesis by (simp add: prefix_sum_def prefix_loop.simps)
qed

lemma total_len_repr: "cpi_repr ix ws \<Longrightarrow> total_len ix = sum_list ws"
  using prefix_sum_repr [of ix ws] by (simp add: total_len_def cpi_repr_def)

lemma lsb_plus_pow: "2 ^ Suc k dvd i \<Longrightarrow> lsb (i + 2 ^ k) = 2 ^ k"
proof (induction k arbitrary: i)
  case 0
  then obtain j where "i = 2 * j" by auto
  then show ?case by simp
next
  case (Suc k)
  then obtain j where j: "i = 2 * (2 ^ Suc k * j)" by (auto simp: mult.assoc)
  have "i + 2 ^ Suc k = 2 * (2 ^ Suc k * j + 2 ^ k)" using j by simp
  then have "lsb (i + 2 ^ Suc k) = 2 * lsb (2 ^ Suc k * j + 2 ^ k)" by (simp only: lsb_even)
  then show ?case using Suc.IH [of "2 ^ Suc k * j"] by simp
qed

lemma bit_above_pow: "\<exists>k. bit_above n (2 ^ j) = 2 ^ k \<and> n \<le> 2 ^ k"
proof (induction "n - 2 ^ j" arbitrary: j rule: less_induct)
  case less
  show ?case
  proof (cases "2 ^ j < n")
    case True
    then have "bit_above n (2 ^ j) = bit_above n (2 ^ Suc j)" by (subst bit_above.simps) simp
    moreover have "n - 2 ^ Suc j < n - 2 ^ j" using True by (simp add: diff_less_mono2)
    ultimately show ?thesis using less [of "Suc j"] by auto
  next
    case False
    then show ?thesis by (subst bit_above.simps) (auto intro: exI [of _ j])
  qed
qed

lemma fen_node:
  assumes "fen_repr ws f" "sum_list ws \<le> U64_MAX" "2 ^ Suc m dvd i" "i + 2 ^ m \<le> length ws"
  shows "(\<Sum>j = 0..<i. ws ! j) + f ! (i + 2 ^ m) = (\<Sum>j = 0..<i + 2 ^ m. ws ! j)"
    "(\<Sum>j = 0..<i + 2 ^ m. ws ! j) \<le> U64_MAX"
proof -
  have "f ! (i + 2 ^ m) = (\<Sum>j = i..<i + 2 ^ m. ws ! j)"
    using assms lsb_plus_pow [OF assms(3)] by (simp add: fen_repr_def)
  with sum_split [of i "i + 2 ^ m" "(!) ws"] sum_le_sum_list [OF assms(4), of 0] assms(2)
  show "(\<Sum>j = 0..<i. ws ! j) + f ! (i + 2 ^ m) = (\<Sum>j = 0..<i + 2 ^ m. ws ! j)"
    "(\<Sum>j = 0..<i + 2 ^ m. ws ! j) \<le> U64_MAX" by simp_all
qed

lemma descend_repr:
  fixes ws :: "nat list"
  defines "S \<equiv> \<lambda>i. \<Sum>j = 0..<i. ws ! j"
  assumes r: "fen_repr ws f" and u: "sum_list ws \<le> U64_MAX" and lf: "length f = Suc (length ws)"
  shows "2 ^ Suc k dvd idx \<Longrightarrow> idx \<le> length ws \<Longrightarrow> S idx < target
     \<Longrightarrow> length ws < idx + 2 ^ Suc k \<or> target \<le> S (idx + 2 ^ Suc k)
     \<Longrightarrow> (let i = descend f target (2 ^ k) idx (S idx) in
          i \<le> length ws \<and> S i < target \<and> (length ws < i + 1 \<or> target \<le> S (i + 1)))"
proof (induction k arbitrary: idx)
  case (0 idx)
  let ?nxt = "idx + 1"
  have nx: "S idx + f ! ?nxt = S ?nxt" "S ?nxt \<le> U64_MAX" if "?nxt \<le> length ws"
    using fen_node [OF r u, of 0 idx] that 0(1) by (simp_all add: S_def)
  show ?case
  proof (cases "?nxt \<le> length ws \<and> S ?nxt < target")
    case True
    with nx 0 lf show ?thesis by (simp add: descend.simps [of _ _ "Suc 0"] descend.simps [of _ _ 0] Let_def)
  next
    case False
    with nx 0 lf show ?thesis
      by (auto simp: descend.simps [of _ _ "Suc 0"] descend.simps [of _ _ 0] Let_def)
  qed
next
  case (Suc k idx)
  let ?nxt = "idx + 2 ^ Suc k"
  have dv: "2 ^ Suc k dvd idx" "2 ^ Suc k dvd ?nxt"
    using Suc.prems(1) by (auto intro: dvd_trans [OF le_imp_power_dvd])
  have nx: "S idx + f ! ?nxt = S ?nxt" "S ?nxt \<le> U64_MAX" if "?nxt \<le> length ws"
    using fen_node [OF r u Suc.prems(1)] that by (simp_all only: S_def)
  have half: "2 ^ Suc k div 2 = (2 ^ k :: nat)" by simp
  show ?case
  proof (cases "?nxt \<le> length ws \<and> S ?nxt < target")
    case True
    then have "descend f target (2 ^ Suc k) idx (S idx) = descend f target (2 ^ k) ?nxt (S ?nxt)"
      using nx lf by (subst descend.simps) (simp add: Let_def)
    moreover have "length ws < ?nxt + 2 ^ Suc k \<or> target \<le> S (?nxt + 2 ^ Suc k)"
      using Suc.prems(4) by (simp add: algebra_simps)
    ultimately show ?thesis using Suc.IH [OF dv(2)] True by simp
  next
    case False
    then have "descend f target (2 ^ Suc k) idx (S idx) = descend f target (2 ^ k) idx (S idx)"
      using nx lf by (subst descend.simps) (auto simp: Let_def)
    moreover have "length ws < ?nxt \<or> target \<le> S ?nxt" using False by auto
    ultimately show ?thesis using Suc.IH [OF dv(1)] Suc.prems(2,3) by simp
  qed
qed

lemma lower_bound_repr:
  assumes "cpi_repr ix ws" "0 < target" "target \<le> sum_list ws"
  shows "\<exists>e. lower_bound ix target = Some e \<and> e < length ws
    \<and> sum_list (take e ws) < target \<and> target \<le> sum_list (take (Suc e) ws)"
proof -
  let ?S = "\<lambda>i. \<Sum>j = 0..<i. ws ! j" and ?f = "cpi_fenwick ix"
  have ne: "ws \<noteq> []" using assms(2,3) by auto
  have r: "fen_repr ws ?f" and u: "sum_list ws \<le> U64_MAX"
    using assms(1) ne U32_le_U64 by (auto simp: cpi_repr_def)
  have lf: "length ?f = Suc (length ws)" using r by (simp add: fen_repr_def)
  obtain k where k: "bit_above (length ?f) 1 = 2 ^ k" "length ?f \<le> 2 ^ k"
    using bit_above_pow [of "length ?f" 0] by auto
  define e where "e = descend ?f target (2 ^ k) 0 0"
  have "length ws < 0 + 2 ^ Suc k" using k(2) lf by simp
  then have e: "e \<le> length ws" "?S e < target" "length ws < e + 1 \<or> target \<le> ?S (e + 1)"
    using descend_repr [OF r u lf, of k 0 target] assms(2) by (auto simp: e_def Let_def)
  have "e < length ws"
  proof (rule ccontr)
    assume "\<not> e < length ws"
    with e have "?S (length ws) < target" by simp
    with assms(3) show False by (simp add: sum_list_sum_nth)
  qed
  moreover have "lower_bound ix target = Some e"
    using assms ne k prefix_sum_repr [OF assms(1), of "length ws"]
    by (simp add: lower_bound_def e_def cpi_repr_def)
  ultimately show ?thesis using e by (auto simp: sum_list_take)
qed

lemma select_offset_repr:
  assumes "cpi_repr ix ws" "offset < sum_list ws"
  shows "\<exists>e r. select_offset ix offset = Some (e, r) \<and> e < length ws \<and> r < ws ! e
     \<and> offset = sum_list (take e ws) + r"
proof -
  obtain e where e: "lower_bound ix (offset + 1) = Some e" "e < length ws"
    "sum_list (take e ws) < offset + 1" "offset + 1 \<le> sum_list (take (Suc e) ws)"
    using lower_bound_repr [OF assms(1), of "offset + 1"] assms(2) by auto
  have "sum_list (take (Suc e) ws) = sum_list (take e ws) + ws ! e"
    using e(2) by (simp add: take_Suc_conv_app_nth)
  with e assms show ?thesis
    by (auto simp: select_offset_def total_len_repr [OF assms(1)] prefix_sum_repr [OF assms(1)])
qed

lemma select_offset_none: "cpi_repr ix ws \<Longrightarrow> sum_list ws \<le> offset \<Longrightarrow> select_offset ix offset = None"
  by (simp add: select_offset_def total_len_repr)

lemma to_u32_id: "v \<le> U32_MAX \<Longrightarrow> to_u32 v = v"
  by (simp add: to_u32_def)

lemma elem_le_sum_list_nat: "w \<in> set ws \<Longrightarrow> w \<le> sum_list ws" for w :: nat
  by (simp add: member_le_sum_list)

lemma rebuild_from_weights_repr:
  assumes "sum_list ws \<le> U32_MAX" "length ws < 2 ^ 63"
  shows "cpi_repr (rebuild_from_weights ws) ws"
proof -
  have "map to_u32 ws = ws"
    using assms(1) elem_le_sum_list_nat by (intro map_idI to_u32_id) (meson le_trans)
  then show ?thesis
    using assms by (simp add: rebuild_from_weights_def cpi_repr_def Let_def rebuild_fenwick_repr)
qed

lemma update_weight_repr:
  assumes r: "cpi_repr ix ws" and sat: "sum_list (ws[idx := w]) \<le> U32_MAX"
  shows "cpi_repr (update_weight idx w ix) (ws[idx := w])"
proof (cases "idx < length ws")
  case False
  then have "ws[idx := w] = ws" by (simp add: list_update_beyond)
  with False r show ?thesis by (simp add: update_weight_def cpi_repr_def)
next
  case True
  then have fr: "fen_repr ws (cpi_fenwick ix)" and w: "cpi_weights ix = ws" and len: "length ws < 2 ^ 63"
    using r by (auto simp: cpi_repr_def)
  have "w \<in> set (ws[idx := w])" using True by (simp add: set_update_memI)
  then have tw: "to_u32 w = w" using sat elem_le_sum_list_nat by (metis le_trans to_u32_id)
  consider "ws ! idx = w" | "ws ! idx < w" | "w < ws ! idx" by linarith
  then show ?thesis
  proof cases
    case 1
    then have "ws[idx := w] = ws" using list_update_id [of ws idx] by simp
    with 1 r w tw True show ?thesis by (simp add: update_weight_def Let_def)
  next
    case 2
    then have "ws ! idx + (w - ws ! idx) = w" by simp
    with 2 r w tw True sat add_u32_repr [OF fr True len, of "w - ws ! idx"]
    show ?thesis by (simp add: update_weight_def cpi_repr_def Let_def)
  next
    case 3
    then have "ws ! idx - (ws ! idx - w) = w" by simp
    with 3 r w tw True sat sub_u32_repr [OF fr True len, of "ws ! idx - w"]
    show ?thesis by (simp add: update_weight_def cpi_repr_def Let_def)
  qed
qed

section \<open>The contract the projection relies on\<close>

locale position_index =
  fixes bound :: nat
    and repr :: "'i \<Rightarrow> nat list \<Rightarrow> bool"
    and psum :: "'i \<Rightarrow> nat \<Rightarrow> nat"
    and sel :: "'i \<Rightarrow> nat \<Rightarrow> (nat \<times> nat) option"
    and upd :: "nat \<Rightarrow> nat \<Rightarrow> 'i \<Rightarrow> 'i"
    and build :: "nat list \<Rightarrow> 'i"
  assumes psum_repr: "repr ix ws \<Longrightarrow> psum ix k = sum_list (take k ws)"
    and sel_some: "repr ix ws \<Longrightarrow> i < sum_list ws \<Longrightarrow>
       \<exists>e r. sel ix i = Some (e, r) \<and> e < length ws \<and> r < ws ! e \<and> i = sum_list (take e ws) + r"
    and sel_none: "repr ix ws \<Longrightarrow> sum_list ws \<le> i \<Longrightarrow> sel ix i = None"
    and upd_repr: "repr ix ws \<Longrightarrow> sum_list (ws[i := w]) \<le> bound \<Longrightarrow> repr (upd i w ix) (ws[i := w])"
    and build_repr: "sum_list ws \<le> bound \<Longrightarrow> length ws < 2 ^ 63 \<Longrightarrow> repr (build ws) ws"
begin

text \<open>An index over chunks finds the items of the concatenation that satisfy a predicate.\<close>

lemma sum_list_filter_lengths:
  "sum_list (map (\<lambda>xs. length (filter P xs)) xss) = length (filter P (concat xss))"
  by (induction xss) simp_all

lemma psum_chunks:
  assumes "repr ix (map (\<lambda>xs. length (filter P xs)) xss)"
  shows "psum ix k = length (filter P (concat (take k xss)))"
  by (simp add: psum_repr [OF assms] take_map sum_list_filter_lengths)

lemma filter_concat_nth:
  assumes "e < length xss" "r < length (filter P (xss ! e))"
  shows "filter P (concat xss) ! (length (filter P (concat (take e xss))) + r) = filter P (xss ! e) ! r"
proof -
  have "concat xss = concat (take e xss) @ (xss ! e) @ concat (drop (Suc e) xss)"
    using assms(1) by (metis append_take_drop_id concat.simps(2) concat_append Cons_nth_drop_Suc)
  then have "filter P (concat xss) =
      filter P (concat (take e xss)) @ filter P (xss ! e) @ filter P (concat (drop (Suc e) xss))" by simp
  then show ?thesis using assms(2) by (simp add: nth_append)
qed

lemma sel_chunks:
  assumes "repr ix (map (\<lambda>xs. length (filter P xs)) xss)" "i < length (filter P (concat xss))"
  obtains e r where "sel ix i = Some (e, r)" "e < length xss" "r < length (filter P (xss ! e))"
    "i = length (filter P (concat (take e xss))) + r"
    "filter P (concat xss) ! i = filter P (xss ! e) ! r"
proof -
  have "i < sum_list (map (\<lambda>xs. length (filter P xs)) xss)"
    using assms(2) by (simp add: sum_list_filter_lengths)
  from sel_some [OF assms(1) this] obtain e r where er: "sel ix i = Some (e, r)" "e < length xss"
    "r < length (filter P (xss ! e))" "i = length (filter P (concat (take e xss))) + r"
    by (auto simp: take_map sum_list_filter_lengths)
  with filter_concat_nth [OF er(2,3)] that show ?thesis by metis
qed

lemma psum_chunk_sums:
  assumes "repr ix (map (\<lambda>xs. sum_list (map g (filter P xs))) xss)"
  shows "psum ix k = sum_list (map g (filter P (concat (take k xss))))"
proof -
  have "sum_list (map (\<lambda>xs. sum_list (map g (filter P xs))) yss) = sum_list (map g (filter P (concat yss)))" for yss
    by (induction yss) simp_all
  then show ?thesis by (simp add: psum_repr [OF assms] take_map)
qed

lemma sel_chunks_none:
  assumes "repr ix (map (\<lambda>xs. length (filter P xs)) xss)" "length (filter P (concat xss)) \<le> i"
  shows "sel ix i = None"
  using sel_none [OF assms(1)] assms(2) unfolding sum_list_filter_lengths by blast

end

interpretation fenwick_index: position_index
    U32_MAX cpi_repr prefix_sum select_offset update_weight rebuild_from_weights
  by unfold_locales
    (simp_all add: prefix_sum_repr select_offset_repr select_offset_none update_weight_repr
      rebuild_from_weights_repr)

lemma cpi_repr_default: "cpi_repr cpi_default []"
  by (simp add: cpi_repr_def cpi_default_def)

section \<open>Properties\<close>

text \<open>C29: an index built from weights and then updated any number of times answers prefix sums and
  searches as the plain list of weights does, as long as the weights never sum to more than \<open>u32::MAX\<close>.\<close>

theorem fenwick_index_correct:
  fixes ws :: "nat list" and us :: "(nat \<times> nat) list"
  defines "list_after \<equiv> \<lambda>us. fold (\<lambda>(i, w) ws. ws[i := w]) us ws"
    and "index_after \<equiv> fold (\<lambda>(i, w). update_weight i w) us (rebuild_from_weights ws)"
  assumes "length ws < 2 ^ 63" "\<And>k. k \<le> length us \<Longrightarrow> sum_list (list_after (take k us)) \<le> U32_MAX"
  shows "prefix_sum index_after k = sum_list (take k (list_after us))
    \<and> (case select_offset index_after i of
         None \<Rightarrow> sum_list (list_after us) \<le> i
       | Some (e, r) \<Rightarrow> e < length ws \<and> r < list_after us ! e \<and> i = sum_list (take e (list_after us)) + r)"
proof -
  have len: "length (list_after us) = length ws" for us
    unfolding list_after_def by (induction us arbitrary: ws) (auto split: prod.split)
  have "cpi_repr (fold (\<lambda>(i, w). update_weight i w) vs (rebuild_from_weights ws)) (list_after vs)"
    if "\<exists>k \<le> length us. vs = take k us" for vs
    using that
  proof (induction vs rule: rev_induct)
    case Nil
    then show ?case using rebuild_from_weights_repr [OF _ assms(3)] assms(4) [of 0] by (simp add: list_after_def)
  next
    case (snoc u vs)
    then obtain k where k: "k \<le> length us" "vs @ [u] = take k us" by blast
    then have "length (vs @ [u]) = k" by simp
    then have "k = Suc (length vs)" by simp
    with k have "vs = take (length vs) us" by (metis append_eq_conv_conj butlast_snoc butlast_take diff_Suc_1)
    moreover have "length vs \<le> length us" using k \<open>k = Suc (length vs)\<close> by simp
    ultimately have "cpi_repr (fold (\<lambda>(i, w). update_weight i w) vs (rebuild_from_weights ws)) (list_after vs)"
      using snoc.IH by blast
    moreover have "sum_list (list_after (vs @ [u])) \<le> U32_MAX" using assms(4) [OF k(1)] k(2) by simp
    ultimately show ?case
      using update_weight_repr by (cases u) (simp add: list_after_def)
  qed
  then have r: "cpi_repr index_after (list_after us)" unfolding index_after_def by force
  have "case select_offset index_after i of
         None \<Rightarrow> sum_list (list_after us) \<le> i
       | Some (e, r) \<Rightarrow> e < length ws \<and> r < list_after us ! e \<and> i = sum_list (take e (list_after us)) + r"
  proof (cases "i < sum_list (list_after us)")
    case True
    then show ?thesis using select_offset_repr [OF r True] len by auto
  next
    case False
    then show ?thesis using select_offset_none [OF r, of i] by simp
  qed
  with prefix_sum_repr [OF r] show ?thesis by blast
qed

theorem fenwick_index_correct_witness:
  "prefix_sum (update_weight 1 5 (rebuild_from_weights [2, 0, 3])) 2 = 7"
proof -
  have "sum_list (fold (\<lambda>(i, w) ws. ws[i := w]) (take k [(1, 5)]) [2, 0, 3 :: nat]) \<le> U32_MAX" if "k \<le> 1" for k
    using that by (cases k) (simp_all add: U32_MAX_def)
  then show ?thesis using fenwick_index_correct [of "[2, 0, 3]" "[(1, 5)]" 2 0] by simp
qed

end
