(* ===== verification/Op_Node.thy ===== *)
theory Op_Node
  imports Prelude
begin

text \<open>
  The data model of the engine (\<open>core/crdt/src/op.rs\<close>, \<open>node.rs\<close>, \<open>error.rs\<close>, \<open>hash.rs\<close> and the
  anchor type of \<open>text_range.rs\<close>): operations, transactions, signed nodes, their identity,
  signature check and wire form. Code outside the repository (Blake3, postcard, Ed25519,
  the iteration order of a \<open>HashSet\<close>) is the record \<open>env\<close>, an argument of every definition
  that calls it; what a theorem needs of it is a named predicate on \<open>env\<close>.
\<close>

section \<open>Identities and operations\<close>

datatype op_id = OpId (oid_lamport: u64) (oid_author: pubkey)

text \<open>\<open>Ord\<close> and \<open>PartialOrd\<close> compare identifiers as these pairs.\<close>

definition op_id_key :: "op_id \<Rightarrow> u64 \<times> pubkey" where
  "op_id_key a = (oid_lamport a, oid_author a)"

instantiation op_id :: linorder
begin

definition less_eq_op_id :: "op_id \<Rightarrow> op_id \<Rightarrow> bool" where
  "less_eq_op_id a b \<longleftrightarrow> op_id_key a \<le> op_id_key b"

definition less_op_id :: "op_id \<Rightarrow> op_id \<Rightarrow> bool" where
  "less_op_id a b \<longleftrightarrow> op_id_key a < op_id_key b"

instance
  by standard (auto simp: less_eq_op_id_def less_op_id_def op_id_key_def op_id.expand)

end

type_synonym item_id = "128 word"
type_synonym frac_idx = string
type_synonym scalar = nat
type_synonym node_id = hash

datatype text_range_anchor = Start | End | After op_id | Offset nat

datatype map_op =
    MapSet string bytes
  | MapDelete string
  | MapSetBlob string hash

datatype list_op =
    ListInsert string item_id frac_idx
  | ListDelete string item_id
  | ListMove string item_id frac_idx

datatype text_op =
    TextInsert string "op_id option" scalar
  | TextDelete string op_id
  | TextInsertRange string text_range_anchor "scalar list"
  | TextDeleteRange string text_range_anchor nat

datatype op = OpMap map_op | OpList list_op | OpText text_op

fun map_op_key :: "map_op \<Rightarrow> string" where
  "map_op_key (MapSet key v) = key"
| "map_op_key (MapDelete key) = key"
| "map_op_key (MapSetBlob key h) = key"

fun list_op_key :: "list_op \<Rightarrow> string" where
  "list_op_key (ListInsert list_key i p) = list_key"
| "list_op_key (ListDelete list_key i) = list_key"
| "list_op_key (ListMove list_key i p) = list_key"

fun text_op_key :: "text_op \<Rightarrow> string" where
  "text_op_key (TextInsert key a c) = key"
| "text_op_key (TextDelete key t) = key"
| "text_op_key (TextInsertRange key a t) = key"
| "text_op_key (TextDeleteRange key a n) = key"

fun op_key :: "op \<Rightarrow> string option" where
  "op_key (OpMap m) = Some (map_op_key m)"
| "op_key (OpText t) = Some (text_op_key t)"
| "op_key (OpList l) = Some (list_op_key l)"

record transaction =
  tx_author :: pubkey
  tx_lamport :: u64
  tx_wall_ms :: u64
  tx_ops :: "op list"
  tx_parents :: "hash list"

record sync_node =
  n_id :: node_id
  n_tx :: transaction
  n_sig :: sig64

abbreviation n_prio :: "sync_node \<Rightarrow> prio" where
  "n_prio n \<equiv> (tx_lamport (n_tx n), tx_author (n_tx n))"

section \<open>Errors\<close>

datatype sync_error =
    HashMismatch hash hash
  | MissingParent hash
  | DuplicateNode hash
  | Serialization string
  | BlobNotFound hash
  | InvalidSignature hash
  | PolicyViolation pubkey string
  | EncryptionFailed
  | DecryptionFailed
  | LamportCeiling hash u64 u64
  | WallClockSkew hash u64 u64

type_synonym 'a res = "sync_error + 'a"

section \<open>Item identifiers as text\<close>

definition item_id_to_hex :: "item_id \<Rightarrow> string" where
  "item_id_to_hex i = bytes_to_hex (be_bytes 16 i)"

text \<open>
  \<open>u8::from_str_radix(s, 16)\<close> on a two-byte slice: a leading \<open>+\<close> is skipped, the rest
  must be hexadecimal digits. Slicing a string off a character boundary panics.
\<close>

definition from_str_radix16 :: "char \<Rightarrow> char \<Rightarrow> u8 option" where
  "from_str_radix16 a b =
     (if a = CHR ''+'' then hex_nibble b
      else case hex_nibble a of None \<Rightarrow> None
        | Some hi \<Rightarrow> (case hex_nibble b of None \<Rightarrow> None | Some lo \<Rightarrow> Some (hi * 16 + lo)))"

definition is_continuation :: "char \<Rightarrow> bool" where
  "is_continuation c \<longleftrightarrow> 128 \<le> (of_char c :: nat) \<and> (of_char c :: nat) < 192"

fun item_id_bytes :: "string \<Rightarrow> bytes option rust" where
  "item_id_bytes [] = Ret (Some [])"
| "item_id_bytes [a] = Ret None"
| "item_id_bytes (a # b # rest) =
     (if is_continuation a \<or> (rest \<noteq> [] \<and> is_continuation (hd rest)) then Panic
      else case from_str_radix16 a b of
          None \<Rightarrow> Ret None
        | Some v \<Rightarrow> (case item_id_bytes rest of
              Panic \<Rightarrow> Panic
            | Ret None \<Rightarrow> Ret None
            | Ret (Some bs) \<Rightarrow> Ret (Some (v # bs))))"

definition item_id_from_hex :: "string \<Rightarrow> item_id option rust" where
  "item_id_from_hex s =
     (if length s \<noteq> 32 then Ret None
      else case item_id_bytes s of
          Panic \<Rightarrow> Panic
        | Ret None \<Rightarrow> Ret None
        | Ret (Some bs) \<Rightarrow> Ret (Some (of_be bs)))"

section \<open>Code outside the repository\<close>

text \<open>
  \<open>postcard_tx\<close> and \<open>postcard_nodes\<close> are postcard's encoders, \<open>unpostcard_nodes\<close> its decoder;
  \<open>blake3\<close> the hash function; \<open>vk_ok\<close> whether \<open>VerifyingKey::from_bytes\<close> accepts a key,
  \<open>ed_verify\<close>, \<open>ed_sign\<close>, \<open>ed_public\<close> and \<open>ed_verify_batch\<close> the Ed25519 library; \<open>set_iter\<close>
  and \<open>key_iter\<close> the order in which a \<open>HashSet\<close> of node ids or of keys iterates.
\<close>

record wire_tx =
  wt_author :: pubkey
  wt_lamport :: u64
  wt_wall_ms :: u64
  wt_ops :: "op list"
  wt_parents :: "hash list"

record wire_node =
  w_id :: hash
  w_tx :: wire_tx
  w_sig :: "hash \<times> hash"

record env =
  postcard_tx :: "transaction \<Rightarrow> bytes"
  postcard_nodes :: "wire_node list \<Rightarrow> bytes"
  unpostcard_nodes :: "bytes \<Rightarrow> string + wire_node list"
  blake3 :: "bytes \<Rightarrow> hash"
  vk_ok :: "pubkey \<Rightarrow> bool"
  ed_verify :: "pubkey \<Rightarrow> bytes \<Rightarrow> sig64 \<Rightarrow> bool"
  ed_sign :: "seed \<Rightarrow> bytes \<Rightarrow> sig64"
  ed_public :: "seed \<Rightarrow> pubkey"
  ed_verify_batch :: "(bytes \<times> sig64 \<times> pubkey) list \<Rightarrow> bool"
  set_iter :: "hash set \<Rightarrow> hash list"
  key_iter :: "string set \<Rightarrow> string list"

text \<open>What the development uses of that code, each a documented property of it.\<close>

definition sign_correct :: "env \<Rightarrow> bool" where
  "sign_correct e \<longleftrightarrow> (\<forall>sk msg. vk_ok e (ed_public e sk)
     \<and> ed_verify e (ed_public e sk) msg (ed_sign e sk msg) \<and> ed_sign e sk msg \<noteq> 0)"

definition batch_sound :: "env \<Rightarrow> bool" where
  "batch_sound e \<longleftrightarrow> (\<forall>xs. ed_verify_batch e xs \<longrightarrow>
     (\<forall>(msg, sg, vk) \<in> set xs. ed_verify e vk msg sg))"

definition iter_enumerates :: "env \<Rightarrow> bool" where
  "iter_enumerates e \<longleftrightarrow> (\<forall>S. finite S \<longrightarrow> set (set_iter e S) = S \<and> distinct (set_iter e S))
     \<and> (\<forall>S. finite S \<longrightarrow> set (key_iter e S) = S \<and> distinct (key_iter e S))"

definition postcard_nodes_roundtrip :: "env \<Rightarrow> bool" where
  "postcard_nodes_roundtrip e \<longleftrightarrow> (\<forall>ws. unpostcard_nodes e (postcard_nodes e ws) = Inr ws)"

text \<open>
  A concrete instance for examples: a transaction is encoded as the low bytes of its lamport clock
  and author, the hash is the number the bytes write, every key signs with 1, and sets
  iterate in ascending order.
\<close>

definition sample_env :: env where
  "sample_env = \<lparr>
     postcard_tx = (\<lambda>tx. [ucast (tx_lamport tx), ucast (tx_author tx)]),
     postcard_nodes = (\<lambda>_. []), unpostcard_nodes = (\<lambda>_. Inr []),
     blake3 = of_be, vk_ok = (\<lambda>_. True), ed_verify = (\<lambda>vk msg s. s = 1), ed_sign = (\<lambda>sk msg. 1),
     ed_public = id, ed_verify_batch = list_all (\<lambda>(msg, s, vk). s = 1),
     set_iter = sorted_list_of_set, key_iter = sorted_list_of_set\<rparr>"

lemma sample_env_ok: "sign_correct sample_env" "batch_sound sample_env" "iter_enumerates sample_env"
  by (auto simp: sign_correct_def batch_sound_def iter_enumerates_def sample_env_def list_all_iff)

section \<open>Transactions and nodes\<close>

definition tx_hash :: "env \<Rightarrow> transaction \<Rightarrow> hash" where
  "tx_hash e tx = blake3 e (postcard_tx e tx)"

definition sig_is_zero :: "sig64 \<Rightarrow> bool" where
  "sig_is_zero s \<longleftrightarrow> s = 0"

definition sync_node_new :: "env \<Rightarrow> transaction \<Rightarrow> sync_node" where
  "sync_node_new e tx = \<lparr>n_id = tx_hash e tx, n_tx = tx, n_sig = 0\<rparr>"

definition sync_node_new_signed :: "env \<Rightarrow> transaction \<Rightarrow> seed \<Rightarrow> sync_node" where
  "sync_node_new_signed e tx sk =
     (let i = tx_hash e tx in \<lparr>n_id = i, n_tx = tx, n_sig = ed_sign e sk (be_bytes 32 i)\<rparr>)"

definition verify_signature :: "env \<Rightarrow> sync_node \<Rightarrow> unit res" where
  "verify_signature e n =
     (if sig_is_zero (n_sig n) then Inr ()
      else if \<not> vk_ok e (tx_author (n_tx n)) then Inl (InvalidSignature (n_id n))
      else if ed_verify e (tx_author (n_tx n)) (be_bytes 32 (n_id n)) (n_sig n) then Inr ()
      else Inl (InvalidSignature (n_id n)))"

lemma verify_signature_cases:
  "verify_signature e n = Inr () \<or> verify_signature e n = Inl (InvalidSignature (n_id n))"
  by (simp add: verify_signature_def)

lemma verify_signed_node:
  "sign_correct e \<Longrightarrow> tx_author tx = ed_public e sk
   \<Longrightarrow> verify_signature e (sync_node_new_signed e tx sk) = Inr ()"
  by (simp add: verify_signature_def sync_node_new_signed_def sign_correct_def Let_def)

section \<open>Signature text and wire form\<close>

definition sig_serialize :: "sig64 \<Rightarrow> string" where
  "sig_serialize s = bytes_to_hex (be_bytes 64 s)"

definition sig_deserialize :: "string \<Rightarrow> string + sig64" where
  "sig_deserialize h =
     (if length h \<noteq> 128 then Inl ''signature must be 128 hex chars''
      else case hex_pairs h of None \<Rightarrow> Inl ''bad hex'' | Some bs \<Rightarrow> Inr (of_be bs))"

definition wire_from_node :: "sync_node \<Rightarrow> wire_node" where
  "wire_from_node n =
     (let sg = be_bytes 64 (n_sig n) in
      \<lparr>w_id = n_id n,
       w_tx = \<lparr>wt_author = tx_author (n_tx n), wt_lamport = tx_lamport (n_tx n),
               wt_wall_ms = tx_wall_ms (n_tx n), wt_ops = tx_ops (n_tx n),
               wt_parents = tx_parents (n_tx n)\<rparr>,
       w_sig = (of_be (take 32 sg), of_be (drop 32 sg))\<rparr>)"

definition node_from_wire :: "wire_node \<Rightarrow> sync_node" where
  "node_from_wire w =
     \<lparr>n_id = w_id w,
      n_tx = \<lparr>tx_author = wt_author (w_tx w), tx_lamport = wt_lamport (w_tx w),
              tx_wall_ms = wt_wall_ms (w_tx w), tx_ops = wt_ops (w_tx w),
              tx_parents = wt_parents (w_tx w)\<rparr>,
      n_sig = of_be (be_bytes 32 (fst (w_sig w)) @ be_bytes 32 (snd (w_sig w)))\<rparr>"

definition pack_nodes :: "env \<Rightarrow> sync_node list \<Rightarrow> bytes" where
  "pack_nodes e ns = postcard_nodes e (map wire_from_node ns)"

definition unpack_nodes :: "env \<Rightarrow> bytes \<Rightarrow> sync_node list res" where
  "unpack_nodes e bs =
     (case unpostcard_nodes e bs of
        Inl msg \<Rightarrow> Inl (Serialization msg)
      | Inr ws \<Rightarrow> Inr (map node_from_wire ws))"

lemma sig_roundtrip: "sig_deserialize (sig_serialize s) = Inr s"
  by (simp add: sig_deserialize_def sig_serialize_def hex_pairs_bytes_to_hex of_be_be_bytes)

lemma node_from_wire_from_node: "node_from_wire (wire_from_node n) = n"
proof -
  let ?s = "be_bytes 64 (n_sig n)"
  have "be_bytes 32 (of_be (take 32 ?s) :: hash) = take 32 ?s"
    and "be_bytes 32 (of_be (drop 32 ?s) :: hash) = drop 32 ?s"
    by (rule be_bytes_of_be; simp)+
  then have "of_be (be_bytes 32 (of_be (take 32 ?s) :: hash) @ be_bytes 32 (of_be (drop 32 ?s) :: hash))
      = n_sig n"
    by (simp add: of_be_be_bytes)
  then show ?thesis by (simp add: node_from_wire_def wire_from_node_def Let_def)
qed

lemma unpack_pack_nodes: "postcard_nodes_roundtrip e \<Longrightarrow> unpack_nodes e (pack_nodes e ns) = Inr ns"
  by (simp add: unpack_nodes_def pack_nodes_def postcard_nodes_roundtrip_def
      node_from_wire_from_node comp_def)

section \<open>Item identifier round trip\<close>

lemma hex_char_ascii: "n < 16 \<Longrightarrow> \<not> is_continuation (hex_char n)"
  "n < 16 \<Longrightarrow> hex_char n \<noteq> CHR ''+''"
proof -
  assume n: "n < 16"
  then show "\<not> is_continuation (hex_char n)"
    by (simp add: is_continuation_def of_char_hex_char)
  show "hex_char n \<noteq> CHR ''+''"
  proof
    assume "hex_char n = CHR ''+''"
    then have "of_char (hex_char n) = (of_char CHR ''+'' :: nat)" by simp
    with n show False by (simp add: of_char_hex_char split: if_splits)
  qed
qed

lemma from_str_radix16_hex_byte:
  "from_str_radix16 (hex_char (unat b div 16)) (hex_char (unat b mod 16)) = Some b"
proof -
  have lt: "unat b div 16 < 16" using unat_u8_less [of b] by linarith
  have "word_of_nat (unat b div 16) * 16 + word_of_nat (unat b mod 16)
      = (word_of_nat (unat b div 16 * 16 + unat b mod 16) :: u8)"
    by (simp only: of_nat_add of_nat_mult of_nat_numeral)
  also have "\<dots> = b" by (simp only: div_mult_mod_eq) simp
  finally show ?thesis
    using lt by (simp add: from_str_radix16_def hex_char_ascii hex_byte_nibbles)
qed

lemma item_id_bytes_hex: "item_id_bytes (bytes_to_hex bs) = Ret (Some bs)"
proof (induction bs)
  case Nil
  then show ?case by (simp add: bytes_to_hex_def)
next
  case (Cons b bs)
  have lt: "unat b div 16 < 16" using unat_u8_less [of b] by linarith
  have hd: "\<not> is_continuation (hd (bytes_to_hex bs))" if "bytes_to_hex bs \<noteq> []"
  proof (cases bs)
    case (Cons c cs)
    have "unat c div 16 < 16" using unat_u8_less [of c] by linarith
    with Cons show ?thesis by (simp add: bytes_to_hex_def hex_byte_def hex_char_ascii)
  qed (use that in \<open>simp add: bytes_to_hex_def\<close>)
  have "bytes_to_hex (b # bs) = hex_char (unat b div 16) # hex_char (unat b mod 16) # bytes_to_hex bs"
    by (simp add: bytes_to_hex_def hex_byte_def)
  moreover have "bytes_to_hex bs = [] \<or> \<not> is_continuation (hd (bytes_to_hex bs))"
    using hd by blast
  ultimately show ?case
    using lt Cons.IH by (simp add: hex_char_ascii from_str_radix16_hex_byte)
qed

lemma item_id_roundtrip: "item_id_from_hex (item_id_to_hex i) = Ret (Some i)"
  by (simp add: item_id_from_hex_def item_id_to_hex_def item_id_bytes_hex of_be_be_bytes)

section \<open>Properties\<close>

text \<open>An item identifier written as hexadecimal text, and a signature written as text, read back
  as themselves, and a node survives the split of its signature in the wire form.\<close>

theorem identifier_text_roundtrip:
  "item_id_from_hex (item_id_to_hex i) = Ret (Some i) \<and> sig_deserialize (sig_serialize s) = Inr s
   \<and> node_from_wire (wire_from_node n) = n"
  by (simp add: item_id_roundtrip sig_roundtrip node_from_wire_from_node)

text \<open>C33: \<open>ItemId::from_hex\<close> accepts text that is not hexadecimal (a plus sign in front of a
  digit) and panics on a 32-byte text in which a pair starts inside a character, instead of
  returning nothing for either.\<close>

theorem item_id_from_hex_lax:
  "item_id_from_hex (concat (replicate 16 ''+f'')) = Ret (Some (of_be (replicate 16 15)))
   \<and> item_id_from_hex (CHR ''a'' # char_of (195 :: nat) # char_of (169 :: nat) # replicate 29 CHR ''a'') = Panic"
proof
  have plus: "item_id_bytes (concat (replicate n ''+f'')) = Ret (Some (replicate n 15))" for n
  proof (induction n)
    case (Suc n)
    have "concat (replicate n ''+f'') = [] \<or> hd (concat (replicate n ''+f'')) = CHR ''+''" by (cases n) simp_all
    with Suc show ?case by (auto simp: is_continuation_def from_str_radix16_def hex_nibble_def)
  qed simp
  show "item_id_from_hex (concat (replicate 16 ''+f'')) = Ret (Some (of_be (replicate 16 15)))"
    using plus [of 16] by (simp add: item_id_from_hex_def length_concat sum_list_replicate)
  show "item_id_from_hex (CHR ''a'' # char_of (195 :: nat) # char_of (169 :: nat) # replicate 29 CHR ''a'') = Panic"
    by (simp add: item_id_from_hex_def is_continuation_def)
qed

end
