(* ===== verification/Text_Projection.thy ===== *)
theory Text_Projection
  imports Fenwick Op_Node "HOL-Library.AList"
begin

text \<open>
  The incremental text materialisation (\<open>TextProjection\<close> of \<open>core/crdt/src/text.rs\<close>): the flat
  sequence of all characters, tombstones included, cut into chunks with two Fenwick indexes, an
  identifier table, buffers for operations that arrive early, and the visible string kept
  eagerly. Slot numbers and actor indices (\<open>u32\<close> in the source) and \<open>usize\<close> counts are natural
  numbers: they number elements held in memory. Two fields that only hold elapsed
  nanoseconds are left out.
\<close>

section \<open>Identifiers\<close>

datatype compact_id = CompactId (actor_idx: nat) (c_lamport: u64)

record actor_table =
  at_authors :: "pubkey list"
  at_author_to_idx :: "pubkey \<rightharpoonup> nat"

definition at_default :: actor_table where
  "at_default = \<lparr>at_authors = [], at_author_to_idx = Map.empty\<rparr>"

definition get_or_insert :: "pubkey \<Rightarrow> actor_table \<Rightarrow> nat \<times> actor_table" where
  "get_or_insert author t =
     (case at_author_to_idx t author of
        Some idx \<Rightarrow> (idx, t)
      | None \<Rightarrow>
          let idx = length (at_authors t) in
          (idx, t\<lparr>at_authors := at_authors t @ [author], at_author_to_idx := (at_author_to_idx t)(author \<mapsto> idx)\<rparr>))"

definition author_for_idx :: "actor_table \<Rightarrow> nat \<Rightarrow> pubkey option" where
  "author_for_idx t idx = (if idx < length (at_authors t) then Some (at_authors t ! idx) else None)"

definition from_op_id :: "op_id \<Rightarrow> actor_table \<Rightarrow> compact_id \<times> actor_table" where
  "from_op_id i t = (let (idx, t') = get_or_insert (oid_author i) t in (CompactId idx (oid_lamport i), t'))"

definition from_op_id_existing :: "op_id \<Rightarrow> actor_table \<Rightarrow> compact_id option" where
  "from_op_id_existing i t = map_option (\<lambda>idx. CompactId idx (oid_lamport i)) (at_author_to_idx t (oid_author i))"

definition to_op_id :: "actor_table \<Rightarrow> compact_id \<Rightarrow> op_id option" where
  "to_op_id t c = map_option (\<lambda>author. OpId (c_lamport c) author) (author_for_idx t (actor_idx c))"

section \<open>Strings\<close>

text \<open>A \<open>String\<close> as its scalar values; offsets into it count UTF-8 bytes.\<close>

definition len_utf8 :: "scalar \<Rightarrow> nat" where
  "len_utf8 c = (if c < 128 then 1 else if c < 2048 then 2 else if c < 65536 then 3 else 4)"

definition str_len :: "scalar list \<Rightarrow> nat" where
  "str_len s = sum_list (map len_utf8 s)"

fun str_insert :: "nat \<Rightarrow> scalar \<Rightarrow> scalar list \<Rightarrow> scalar list rust" where
  "str_insert off ch [] = (if off = 0 then Ret [ch] else Panic)"
| "str_insert off ch (c # s) =
     (if off = 0 then Ret (ch # c # s)
      else if off < len_utf8 c then Panic
      else map_rust ((#) c) (str_insert (off - len_utf8 c) ch s))"

fun str_split :: "nat \<Rightarrow> scalar list \<Rightarrow> (scalar list \<times> scalar list) rust" where
  "str_split off [] = (if off = 0 then Ret ([], []) else Panic)"
| "str_split off (c # s) =
     (if off = 0 then Ret ([], c # s)
      else if off < len_utf8 c then Panic
      else map_rust (\<lambda>(a, b). (c # a, b)) (str_split (off - len_utf8 c) s))"

definition str_remove :: "nat \<Rightarrow> nat \<Rightarrow> scalar list \<Rightarrow> scalar list rust" where
  "str_remove from to s =
     rbind (str_split from s) (\<lambda>(a, b). map_rust (\<lambda>(_, d). a @ d) (str_split (to - from) b))"

definition str_slice :: "nat \<Rightarrow> nat \<Rightarrow> scalar list \<Rightarrow> scalar list rust" where
  "str_slice from to s =
     (if to < from then Panic
      else rbind (str_split from s) (\<lambda>(_, b). map_rust fst (str_split (to - from) b)))"

section \<open>State\<close>

record text_item =
  i_id :: compact_id
  i_ch :: scalar
  i_deleted :: bool

definition CHUNK_SPLIT :: nat where
  "CHUNK_SPLIT = 128"

record chunk =
  ch_items :: "text_item list"
  ch_visible_chars :: nat
  ch_visible_bytes :: nat
  ch_order_pos :: nat

definition chunk_default :: chunk where
  "chunk_default = \<lparr>ch_items = [], ch_visible_chars = 0, ch_visible_bytes = 0, ch_order_pos = 0\<rparr>"

definition visible_of :: "text_item list \<Rightarrow> text_item list" where
  "visible_of its = filter (\<lambda>it. \<not> i_deleted it) its"

definition bytes_of :: "text_item list \<Rightarrow> nat" where
  "bytes_of its = sum_list (map (\<lambda>it. len_utf8 (i_ch it)) its)"

definition recount :: "chunk \<Rightarrow> chunk" where
  "recount c = c\<lparr>ch_visible_chars := length (visible_of (ch_items c)),
                 ch_visible_bytes := bytes_of (visible_of (ch_items c))\<rparr>"

datatype loc = Loc (order_pos: nat) (item_idx: nat)

datatype text_projection_mode = Disabled | Enabled | ParityCheck

datatype projection_update_op =
    UpInsert op_id "op_id option" scalar
  | UpDelete op_id

record text_projection =
  tp_actors :: actor_table
  tp_chunks :: "chunk list"
  tp_free_slots :: "nat list"
  tp_order :: "nat list"
  tp_char_index :: counted_position_index
  tp_byte_index :: counted_position_index
  tp_id_to_chunk :: "compact_id \<rightharpoonup> nat"
  tp_pending_deletes :: "compact_id set"
  tp_orphans :: "(compact_id \<times> (compact_id \<times> scalar) list) list"
  tp_orphan_ids :: "compact_id set"
  tp_visible_string :: "scalar list"
  tp_visible_chars_total :: nat
  tp_total_items :: nat
  tp_tombstone_count :: nat
  tp_last_dirty_range :: "(nat \<times> nat) option"
  tp_dirty_ranges :: "(nat \<times> nat) list"
  tp_dirty_range_merge_count :: u64
  tp_full_rebuild_count :: u64
  tp_insert_ops_applied :: u64
  tp_delete_ops_applied :: u64
  tp_range_insert_ops_applied :: u64
  tp_range_delete_ops_applied :: u64
  tp_resolve_seq_calls :: u64
  tp_resolve_string_calls :: u64
  tp_resolve_range_calls :: u64
  tp_invalidation_count :: u64

definition tp_default :: text_projection where
  "tp_default = \<lparr>tp_actors = at_default, tp_chunks = [], tp_free_slots = [], tp_order = [],
     tp_char_index = cpi_default, tp_byte_index = cpi_default, tp_id_to_chunk = Map.empty,
     tp_pending_deletes = {}, tp_orphans = [], tp_orphan_ids = {}, tp_visible_string = [],
     tp_visible_chars_total = 0, tp_total_items = 0, tp_tombstone_count = 0,
     tp_last_dirty_range = None, tp_dirty_ranges = [], tp_dirty_range_merge_count = 0,
     tp_full_rebuild_count = 0, tp_insert_ops_applied = 0, tp_delete_ops_applied = 0,
     tp_range_insert_ops_applied = 0, tp_range_delete_ops_applied = 0, tp_resolve_seq_calls = 0,
     tp_resolve_string_calls = 0, tp_resolve_range_calls = 0, tp_invalidation_count = 0\<rparr>"

section \<open>Identifiers in a projection\<close>

definition compact_id_for :: "op_id \<Rightarrow> text_projection \<Rightarrow> compact_id \<times> text_projection" where
  "compact_id_for i p = (let (c, t) = from_op_id i (tp_actors p) in (c, p\<lparr>tp_actors := t\<rparr>))"

definition compact_id_existing :: "text_projection \<Rightarrow> op_id \<Rightarrow> compact_id option" where
  "compact_id_existing p i = from_op_id_existing i (tp_actors p)"

definition compact_key :: "text_projection \<Rightarrow> compact_id \<Rightarrow> u64 \<times> pubkey" where
  "compact_key p c = (c_lamport c, case author_for_idx (tp_actors p) (actor_idx c) of None \<Rightarrow> 0 | Some a \<Rightarrow> a)"

definition compact_id_greater :: "text_projection \<Rightarrow> compact_id \<Rightarrow> compact_id \<Rightarrow> bool" where
  "compact_id_greater p left right \<longleftrightarrow> compact_key p right < compact_key p left"

section \<open>Dirty ranges\<close>

fun merge_dirty :: "(nat \<times> nat) list \<Rightarrow> nat \<Rightarrow> nat \<Rightarrow> u64 \<Rightarrow> (nat \<times> nat) list \<times> u64" where
  "merge_dirty [] new_start new_end merges = ([(new_start, new_end)], merges)"
| "merge_dirty ((s, e) # rest) new_start new_end merges =
     (if e + 1 < new_start
      then (let (r, m) = merge_dirty rest new_start new_end merges in ((s, e) # r, m))
      else if new_end + 1 < s then ((new_start, new_end) # (s, e) # rest, merges)
      else merge_dirty rest (min new_start s) (max new_end e) (sat_add merges 1))"

definition record_dirty_range :: "nat \<Rightarrow> nat \<Rightarrow> text_projection \<Rightarrow> text_projection" where
  "record_dirty_range start0 end0 p0 =
     (let new_start = min start0 end0; new_end = max start0 end0;
          p = p0\<lparr>tp_last_dirty_range := Some (new_start, new_end)\<rparr>;
          ranges = tp_dirty_ranges p
      in
      if ranges = [] then p\<lparr>tp_dirty_ranges := [(new_start, new_end)]\<rparr>
      else
        let (tail_start, tail_end) = last ranges in
        if new_start \<le> tail_end + 1
        then p\<lparr>tp_dirty_ranges := butlast ranges @
                 [(if new_start < tail_start then new_start else tail_start,
                   if tail_end < new_end then new_end else tail_end)],
               tp_dirty_range_merge_count := sat_add (tp_dirty_range_merge_count p) 1\<rparr>
        else if tail_end \<le> new_start then p\<lparr>tp_dirty_ranges := ranges @ [(new_start, new_end)]\<rparr>
        else
          let (r, m) = merge_dirty ranges new_start new_end (tp_dirty_range_merge_count p) in
          p\<lparr>tp_dirty_ranges := r, tp_dirty_range_merge_count := m\<rparr>)"

section \<open>Chunk navigation\<close>

definition tp_chunk :: "text_projection \<Rightarrow> nat \<Rightarrow> chunk" where
  "tp_chunk p slot = tp_chunks p ! slot"

definition chunk_modify :: "nat \<Rightarrow> (chunk \<Rightarrow> chunk) \<Rightarrow> text_projection \<Rightarrow> text_projection" where
  "chunk_modify slot f p = p\<lparr>tp_chunks := (tp_chunks p)[slot := f (tp_chunks p ! slot)]\<rparr>"

definition alloc_chunk :: "text_projection \<Rightarrow> nat \<times> text_projection" where
  "alloc_chunk p =
     (if tp_free_slots p \<noteq> []
      then (let slot = last (tp_free_slots p) in
            (slot, p\<lparr>tp_free_slots := butlast (tp_free_slots p),
                     tp_chunks := (tp_chunks p)[slot := chunk_default]\<rparr>))
      else (length (tp_chunks p), p\<lparr>tp_chunks := tp_chunks p @ [chunk_default]\<rparr>))"

definition loc_of_id :: "text_projection \<Rightarrow> compact_id \<Rightarrow> loc option" where
  "loc_of_id p cid =
     (case tp_id_to_chunk p cid of
        None \<Rightarrow> None
      | Some slot \<Rightarrow>
          (case position (\<lambda>it. i_id it = cid) (ch_items (tp_chunk p slot)) of
             None \<Rightarrow> None
           | Some idx \<Rightarrow> Some (Loc (ch_order_pos (tp_chunk p slot)) idx)))"

function norm_item_loc :: "text_projection \<Rightarrow> loc \<Rightarrow> loc option" where
  "norm_item_loc p (Loc o_pos idx) =
     (if o_pos < length (tp_order p)
      then if idx < length (ch_items (tp_chunk p (tp_order p ! o_pos))) then Some (Loc o_pos idx)
           else norm_item_loc p (Loc (o_pos + 1) 0)
      else None)"
  by pat_completeness auto
termination by (relation "measure (\<lambda>(p, l). length (tp_order p) - order_pos l)") auto

declare norm_item_loc.simps [simp del]

definition item_at :: "text_projection \<Rightarrow> loc \<Rightarrow> text_item" where
  "item_at p l = ch_items (tp_chunk p (tp_order p ! order_pos l)) ! item_idx l"

definition end_loc :: "text_projection \<Rightarrow> loc" where
  "end_loc p = Loc (length (tp_order p) - 1)
     (if tp_order p = [] then 0 else length (ch_items (tp_chunk p (last (tp_order p)))))"

definition visible_prefix_at :: "text_projection \<Rightarrow> loc \<Rightarrow> nat" where
  "visible_prefix_at p l =
     (let base = prefix_sum (tp_char_index p) (order_pos l) in
      if order_pos l < length (tp_order p)
      then base + length (visible_of (take (item_idx l) (ch_items (tp_chunk p (tp_order p ! order_pos l)))))
      else base)"

definition byte_prefix_at :: "text_projection \<Rightarrow> loc \<Rightarrow> nat" where
  "byte_prefix_at p l =
     (let base = prefix_sum (tp_byte_index p) (order_pos l) in
      if order_pos l < length (tp_order p)
      then base + bytes_of (visible_of (take (item_idx l) (ch_items (tp_chunk p (tp_order p ! order_pos l)))))
      else base)"

fun nth_visible :: "text_item list \<Rightarrow> nat \<Rightarrow> nat option" where
  "nth_visible [] k = None"
| "nth_visible (it # its) k =
     (if i_deleted it then map_option Suc (nth_visible its k)
      else if k = 0 then Some 0
      else map_option Suc (nth_visible its (k - 1)))"

definition loc_of_visible_offset :: "text_projection \<Rightarrow> nat \<Rightarrow> loc option" where
  "loc_of_visible_offset p offset =
     (case select_offset (tp_char_index p) offset of
        None \<Rightarrow> None
      | Some (o_pos, in_chunk_visible) \<Rightarrow>
          if o_pos < length (tp_order p)
          then map_option (Loc o_pos)
                 (nth_visible (ch_items (tp_chunk p (tp_order p ! o_pos))) in_chunk_visible)
          else None)"

definition id_at_visible_offset :: "text_projection \<Rightarrow> nat \<Rightarrow> op_id option" where
  "id_at_visible_offset p offset =
     (case loc_of_visible_offset p offset of
        None \<Rightarrow> None
      | Some l \<Rightarrow> to_op_id (tp_actors p) (i_id (item_at p l)))"

definition visible_char_len :: "text_projection \<Rightarrow> nat" where
  "visible_char_len p = tp_visible_chars_total p"

definition visible_offset_of_id :: "text_projection \<Rightarrow> compact_id \<Rightarrow> nat option" where
  "visible_offset_of_id p cid =
     (case loc_of_id p cid of
        None \<Rightarrow> None
      | Some l \<Rightarrow> if i_deleted (item_at p l) then None else Some (visible_prefix_at p l))"

definition byte_offset_of_visible :: "text_projection \<Rightarrow> nat \<Rightarrow> nat" where
  "byte_offset_of_visible p offset =
     (case loc_of_visible_offset p offset of
        Some l \<Rightarrow> byte_prefix_at p l
      | None \<Rightarrow> str_len (tp_visible_string p))"

section \<open>Mutation\<close>

definition rebuild_indexes :: "text_projection \<Rightarrow> text_projection" where
  "rebuild_indexes p =
     p\<lparr>tp_char_index := rebuild_from_weights (map (\<lambda>slot. ch_visible_chars (tp_chunk p slot)) (tp_order p)),
       tp_byte_index := rebuild_from_weights (map (\<lambda>slot. ch_visible_bytes (tp_chunk p slot)) (tp_order p))\<rparr>"

definition insert_nth :: "nat \<Rightarrow> 'a \<Rightarrow> 'a list \<Rightarrow> 'a list" where
  "insert_nth i x xs = take i xs @ x # drop i xs"

definition set_order_pos :: "nat \<Rightarrow> text_projection \<Rightarrow> text_projection" where
  "set_order_pos i q = chunk_modify (tp_order q ! i) (\<lambda>c. c\<lparr>ch_order_pos := i\<rparr>) q"

definition split_chunk :: "nat \<Rightarrow> text_projection \<Rightarrow> text_projection" where
  "split_chunk o_pos p =
     (let slot = tp_order p ! o_pos;
          items = ch_items (tp_chunk p slot);
          mid = length items div 2;
          moved = drop mid items;
          p1 = chunk_modify slot (\<lambda>c. c\<lparr>ch_items := take mid items\<rparr>) p;
          (new_slot, p2) = alloc_chunk p1;
          p3 = p2\<lparr>tp_id_to_chunk := fold (\<lambda>it m. m(i_id it \<mapsto> new_slot)) moved (tp_id_to_chunk p2)\<rparr>;
          p4 = chunk_modify new_slot (\<lambda>c. c\<lparr>ch_items := moved\<rparr>) p3;
          p5 = chunk_modify new_slot recount (chunk_modify slot recount p4);
          p6 = p5\<lparr>tp_order := insert_nth (o_pos + 1) new_slot (tp_order p5)\<rparr>;
          p7 = fold set_order_pos [o_pos + 1..<length (tp_order p6)] p6
      in rebuild_indexes p7)"

definition ensure_chunk :: "text_projection \<Rightarrow> text_projection" where
  "ensure_chunk p =
     (if tp_order p = [] then
        let (slot, p1) = alloc_chunk p;
            p2 = chunk_modify slot (\<lambda>c. c\<lparr>ch_order_pos := 0\<rparr>) p1;
            p3 = p2\<lparr>tp_order := tp_order p2 @ [slot]\<rparr>
        in rebuild_indexes p3
      else p)"

definition integrate_start :: "text_projection \<Rightarrow> compact_id option \<Rightarrow> loc" where
  "integrate_start p parent =
     (case parent of
        None \<Rightarrow> Loc 0 0
      | Some q \<Rightarrow>
          let ploc = (case loc_of_id p q of Some l \<Rightarrow> l | None \<Rightarrow> end_loc p) in
          Loc (order_pos ploc) (item_idx ploc + 1))"

lemma norm_item_loc_Some:
  "norm_item_loc p l = Some n \<Longrightarrow> order_pos n < length (tp_order p)
     \<and> item_idx n < length (ch_items (tp_chunk p (tp_order p ! order_pos n)))
     \<and> (n = l \<or> order_pos l < order_pos n)"
proof (induction p l rule: norm_item_loc.induct)
  case (1 p o_pos idx)
  show ?case
  proof (cases "o_pos < length (tp_order p) \<and> \<not> idx < length (ch_items (tp_chunk p (tp_order p ! o_pos)))")
    case True
    then have "norm_item_loc p (Loc (o_pos + 1) 0) = Some n"
      using "1.prems" by (simp add: norm_item_loc.simps [of p o_pos idx])
    with "1.IH" True show ?thesis by auto
  next
    case False
    with "1.prems" show ?thesis by (auto simp: norm_item_loc.simps [of p o_pos idx] split: if_splits)
  qed
qed

function rga_scan :: "text_projection \<Rightarrow> compact_id \<Rightarrow> loc \<Rightarrow> loc" where
  "rga_scan p cid l =
     (case norm_item_loc p l of
        None \<Rightarrow> end_loc p
      | Some norm \<Rightarrow>
          if compact_id_greater p (i_id (item_at p norm)) cid
          then rga_scan p cid (Loc (order_pos norm) (item_idx norm + 1))
          else norm)"
  by pat_completeness auto
termination
  by (relation "measures [\<lambda>(p, c, l). length (tp_order p) - order_pos l,
      \<lambda>(p, c, l). length (ch_items (tp_chunk p (tp_order p ! order_pos l))) - item_idx l]")
    (use norm_item_loc_Some in fastforce)+

declare rga_scan.simps [simp del]

definition find_place :: "text_projection \<Rightarrow> compact_id \<Rightarrow> compact_id option \<Rightarrow> loc" where
  "find_place p cid parent =
     (let l = rga_scan p cid (integrate_start p parent);
          slot = tp_order p ! order_pos l
      in Loc (order_pos l) (min (item_idx l) (length (ch_items (tp_chunk p slot)))))"

definition place_item :: "loc \<Rightarrow> text_item \<Rightarrow> text_projection \<Rightarrow> text_projection" where
  "place_item l it p =
     (let slot = tp_order p ! order_pos l;
          p1 = chunk_modify slot (\<lambda>c. c\<lparr>ch_items := insert_nth (item_idx l) it (ch_items c)\<rparr>) p
      in p1\<lparr>tp_id_to_chunk := (tp_id_to_chunk p1)(i_id it \<mapsto> slot), tp_total_items := tp_total_items p1 + 1\<rparr>)"

definition show_char :: "nat \<Rightarrow> nat \<Rightarrow> nat \<Rightarrow> scalar \<Rightarrow> text_projection \<Rightarrow> text_projection rust" where
  "show_char o_pos vis_idx byte_off ch p =
     (let slot = tp_order p ! o_pos;
          p1 = chunk_modify slot (\<lambda>c. c\<lparr>ch_visible_chars := ch_visible_chars c + 1,
                                       ch_visible_bytes := ch_visible_bytes c + len_utf8 ch\<rparr>) p;
          p2 = p1\<lparr>tp_char_index := update_weight o_pos (ch_visible_chars (tp_chunk p1 slot)) (tp_char_index p1),
                  tp_byte_index := update_weight o_pos (ch_visible_bytes (tp_chunk p1 slot)) (tp_byte_index p1),
                  tp_visible_chars_total := tp_visible_chars_total p1 + 1\<rparr>
      in map_rust (\<lambda>s. record_dirty_range vis_idx (vis_idx + 1) (p2\<lparr>tp_visible_string := s\<rparr>))
           (if byte_off = str_len (tp_visible_string p2) then Ret (tp_visible_string p2 @ [ch])
            else str_insert byte_off ch (tp_visible_string p2)))"

definition split_if_full :: "nat \<Rightarrow> text_projection \<Rightarrow> text_projection" where
  "split_if_full o_pos p =
     (if CHUNK_SPLIT < length (ch_items (tp_chunk p (tp_order p ! o_pos))) then split_chunk o_pos p else p)"

definition integrate :: "compact_id \<Rightarrow> compact_id option \<Rightarrow> scalar \<Rightarrow> text_projection \<Rightarrow> text_projection rust" where
  "integrate cid parent ch p0 =
     (let p = ensure_chunk p0;
          l = find_place p cid parent;
          deleted = (cid \<in> tp_pending_deletes p);
          p1 = p\<lparr>tp_pending_deletes := tp_pending_deletes p - {cid}\<rparr>;
          (vis_idx, byte_off) = (if deleted then (0, 0) else (visible_prefix_at p1 l, byte_prefix_at p1 l));
          p2 = place_item l \<lparr>i_id = cid, i_ch = ch, i_deleted = deleted\<rparr> p1
      in map_rust (split_if_full (order_pos l))
           (if deleted then Ret (p2\<lparr>tp_tombstone_count := tp_tombstone_count p2 + 1\<rparr>)
            else show_char (order_pos l) vis_idx byte_off ch p2))"

definition delete_known :: "compact_id \<Rightarrow> text_projection \<Rightarrow> text_projection rust" where
  "delete_known cid p =
     (case loc_of_id p cid of
        None \<Rightarrow> Ret (p\<lparr>tp_pending_deletes := insert cid (tp_pending_deletes p)\<rparr>)
      | Some l \<Rightarrow>
          if i_deleted (item_at p l) then Ret p
          else
            let p1 = p\<lparr>tp_delete_ops_applied := sat_add (tp_delete_ops_applied p) 1,
                       tp_tombstone_count := tp_tombstone_count p + 1\<rparr>;
                vis_idx = visible_prefix_at p1 l;
                byte_off = byte_prefix_at p1 l;
                slot = tp_order p1 ! order_pos l;
                ch_len = len_utf8 (i_ch (item_at p1 l));
                p2 = chunk_modify slot (\<lambda>c. c\<lparr>
                       ch_items := (ch_items c)[item_idx l := (ch_items c ! item_idx l)\<lparr>i_deleted := True\<rparr>],
                       ch_visible_chars := ch_visible_chars c - 1,
                       ch_visible_bytes := ch_visible_bytes c - ch_len\<rparr>) p1;
                p3 = p2\<lparr>tp_char_index := update_weight (order_pos l) (ch_visible_chars (tp_chunk p2 slot)) (tp_char_index p2),
                        tp_byte_index := update_weight (order_pos l) (ch_visible_bytes (tp_chunk p2 slot)) (tp_byte_index p2),
                        tp_visible_chars_total := tp_visible_chars_total p2 - 1\<rparr>
            in map_rust (\<lambda>s. record_dirty_range vis_idx vis_idx (p3\<lparr>tp_visible_string := s\<rparr>))
                 (str_remove byte_off (byte_off + ch_len) (tp_visible_string p3)))"

section \<open>Fields that only their own operation writes\<close>

lemma chunk_modify_frame [frame_simps]:
  "tp_orphans (chunk_modify slot f p) = tp_orphans p" "tp_orphan_ids (chunk_modify slot f p) = tp_orphan_ids p"
  "tp_actors (chunk_modify slot f p) = tp_actors p" "tp_order (chunk_modify slot f p) = tp_order p"
  "tp_free_slots (chunk_modify slot f p) = tp_free_slots p"
  "tp_pending_deletes (chunk_modify slot f p) = tp_pending_deletes p"
  "tp_id_to_chunk (chunk_modify slot f p) = tp_id_to_chunk p"
  "tp_visible_string (chunk_modify slot f p) = tp_visible_string p"
  "tp_visible_chars_total (chunk_modify slot f p) = tp_visible_chars_total p"
  "tp_total_items (chunk_modify slot f p) = tp_total_items p"
  "tp_tombstone_count (chunk_modify slot f p) = tp_tombstone_count p"
  "tp_char_index (chunk_modify slot f p) = tp_char_index p" "tp_byte_index (chunk_modify slot f p) = tp_byte_index p"
  "length (tp_chunks (chunk_modify slot f p)) = length (tp_chunks p)"
  by (simp_all add: chunk_modify_def)

lemma record_dirty_range_frame [frame_simps]:
  "tp_orphans (record_dirty_range a b p) = tp_orphans p" "tp_orphan_ids (record_dirty_range a b p) = tp_orphan_ids p"
  "tp_actors (record_dirty_range a b p) = tp_actors p" "tp_order (record_dirty_range a b p) = tp_order p"
  "tp_free_slots (record_dirty_range a b p) = tp_free_slots p"
  "tp_pending_deletes (record_dirty_range a b p) = tp_pending_deletes p"
  "tp_id_to_chunk (record_dirty_range a b p) = tp_id_to_chunk p"
  "tp_visible_string (record_dirty_range a b p) = tp_visible_string p"
  "tp_visible_chars_total (record_dirty_range a b p) = tp_visible_chars_total p"
  "tp_total_items (record_dirty_range a b p) = tp_total_items p"
  "tp_tombstone_count (record_dirty_range a b p) = tp_tombstone_count p"
  "tp_char_index (record_dirty_range a b p) = tp_char_index p" "tp_byte_index (record_dirty_range a b p) = tp_byte_index p"
  "tp_chunks (record_dirty_range a b p) = tp_chunks p"
  by (simp_all add: record_dirty_range_def Let_def split: prod.split)

lemma alloc_chunk_frame [frame_simps]:
  "tp_orphans (snd (alloc_chunk p)) = tp_orphans p" "tp_orphan_ids (snd (alloc_chunk p)) = tp_orphan_ids p"
  "tp_actors (snd (alloc_chunk p)) = tp_actors p" "tp_order (snd (alloc_chunk p)) = tp_order p"
  "tp_pending_deletes (snd (alloc_chunk p)) = tp_pending_deletes p"
  "tp_id_to_chunk (snd (alloc_chunk p)) = tp_id_to_chunk p"
  "tp_visible_string (snd (alloc_chunk p)) = tp_visible_string p"
  "tp_visible_chars_total (snd (alloc_chunk p)) = tp_visible_chars_total p"
  "tp_total_items (snd (alloc_chunk p)) = tp_total_items p"
  "tp_tombstone_count (snd (alloc_chunk p)) = tp_tombstone_count p"
  by (simp_all add: alloc_chunk_def Let_def)

lemma rebuild_indexes_frame [frame_simps]:
  "tp_orphans (rebuild_indexes p) = tp_orphans p" "tp_orphan_ids (rebuild_indexes p) = tp_orphan_ids p"
  "tp_actors (rebuild_indexes p) = tp_actors p" "tp_order (rebuild_indexes p) = tp_order p"
  "tp_free_slots (rebuild_indexes p) = tp_free_slots p"
  "tp_pending_deletes (rebuild_indexes p) = tp_pending_deletes p"
  "tp_id_to_chunk (rebuild_indexes p) = tp_id_to_chunk p"
  "tp_visible_string (rebuild_indexes p) = tp_visible_string p"
  "tp_visible_chars_total (rebuild_indexes p) = tp_visible_chars_total p"
  "tp_total_items (rebuild_indexes p) = tp_total_items p"
  "tp_tombstone_count (rebuild_indexes p) = tp_tombstone_count p"
  "tp_chunks (rebuild_indexes p) = tp_chunks p"
  by (simp_all add: rebuild_indexes_def)

lemma set_order_pos_frame [frame_simps]:
  "tp_orphans (fold set_order_pos ks p) = tp_orphans p" "tp_orphan_ids (fold set_order_pos ks p) = tp_orphan_ids p"
  "tp_actors (fold set_order_pos ks p) = tp_actors p" "tp_order (fold set_order_pos ks p) = tp_order p"
  "tp_free_slots (fold set_order_pos ks p) = tp_free_slots p"
  "tp_pending_deletes (fold set_order_pos ks p) = tp_pending_deletes p"
  "tp_id_to_chunk (fold set_order_pos ks p) = tp_id_to_chunk p"
  "tp_visible_string (fold set_order_pos ks p) = tp_visible_string p"
  "tp_visible_chars_total (fold set_order_pos ks p) = tp_visible_chars_total p"
  "tp_total_items (fold set_order_pos ks p) = tp_total_items p"
  "tp_tombstone_count (fold set_order_pos ks p) = tp_tombstone_count p"
  "length (tp_chunks (fold set_order_pos ks p)) = length (tp_chunks p)"
  by (induction ks arbitrary: p) (simp_all add: set_order_pos_def frame_simps)

lemma split_chunk_frame [frame_simps]:
  "tp_orphans (split_chunk k p) = tp_orphans p" "tp_orphan_ids (split_chunk k p) = tp_orphan_ids p"
  "tp_actors (split_chunk k p) = tp_actors p" "tp_pending_deletes (split_chunk k p) = tp_pending_deletes p"
  "tp_visible_string (split_chunk k p) = tp_visible_string p"
  "tp_visible_chars_total (split_chunk k p) = tp_visible_chars_total p"
  "tp_total_items (split_chunk k p) = tp_total_items p"
  "tp_tombstone_count (split_chunk k p) = tp_tombstone_count p"
  by (simp_all add: split_chunk_def Let_def frame_simps split_beta)

lemma ensure_chunk_frame [frame_simps]:
  "tp_orphans (ensure_chunk p) = tp_orphans p" "tp_orphan_ids (ensure_chunk p) = tp_orphan_ids p"
  "tp_actors (ensure_chunk p) = tp_actors p" "tp_pending_deletes (ensure_chunk p) = tp_pending_deletes p"
  "tp_visible_string (ensure_chunk p) = tp_visible_string p"
  "tp_visible_chars_total (ensure_chunk p) = tp_visible_chars_total p"
  "tp_total_items (ensure_chunk p) = tp_total_items p"
  "tp_tombstone_count (ensure_chunk p) = tp_tombstone_count p"
  "tp_id_to_chunk (ensure_chunk p) = tp_id_to_chunk p"
  by (simp_all add: ensure_chunk_def Let_def frame_simps split_beta)

lemma split_if_full_frame [frame_simps]:
  "tp_orphans (split_if_full k p) = tp_orphans p" "tp_orphan_ids (split_if_full k p) = tp_orphan_ids p"
  "tp_actors (split_if_full k p) = tp_actors p" "tp_pending_deletes (split_if_full k p) = tp_pending_deletes p"
  "tp_visible_string (split_if_full k p) = tp_visible_string p"
  "tp_visible_chars_total (split_if_full k p) = tp_visible_chars_total p"
  "tp_total_items (split_if_full k p) = tp_total_items p"
  "tp_tombstone_count (split_if_full k p) = tp_tombstone_count p"
  by (simp_all add: split_if_full_def frame_simps)

lemma place_item_frame [frame_simps]:
  "tp_orphans (place_item l it p) = tp_orphans p" "tp_orphan_ids (place_item l it p) = tp_orphan_ids p"
  "tp_actors (place_item l it p) = tp_actors p" "tp_order (place_item l it p) = tp_order p"
  "tp_free_slots (place_item l it p) = tp_free_slots p"
  "tp_pending_deletes (place_item l it p) = tp_pending_deletes p"
  "tp_visible_string (place_item l it p) = tp_visible_string p"
  "tp_visible_chars_total (place_item l it p) = tp_visible_chars_total p"
  "tp_tombstone_count (place_item l it p) = tp_tombstone_count p"
  "tp_char_index (place_item l it p) = tp_char_index p" "tp_byte_index (place_item l it p) = tp_byte_index p"
  by (simp_all add: place_item_def Let_def frame_simps)

lemma show_char_frame:
  "show_char k v b ch p = Ret p' \<Longrightarrow> tp_orphans p' = tp_orphans p \<and> tp_orphan_ids p' = tp_orphan_ids p
     \<and> tp_actors p' = tp_actors p \<and> tp_pending_deletes p' = tp_pending_deletes p"
  by (auto simp: show_char_def Let_def frame_simps)

lemma integrate_frames:
  assumes "integrate cid parent ch p = Ret p'"
  shows "tp_orphans p' = tp_orphans p \<and> tp_orphan_ids p' = tp_orphan_ids p
     \<and> tp_actors p' = tp_actors p \<and> tp_pending_deletes p' = tp_pending_deletes p - {cid}"
proof (cases "cid \<in> tp_pending_deletes p")
  case True
  with assms show ?thesis by (auto simp: integrate_def Let_def frame_simps)
next
  case False
  with assms show ?thesis
    by (auto simp: integrate_def Let_def frame_simps dest!: show_char_frame)
qed

lemma integrate_frame:
  "integrate cid parent ch p = Ret p' \<Longrightarrow> tp_orphans p' = tp_orphans p"
  by (simp add: integrate_frames)

section \<open>Early arrivals\<close>

definition adopt :: "compact_id \<Rightarrow> compact_id \<times> scalar \<Rightarrow> text_projection \<Rightarrow> text_projection rust" where
  "adopt parent child p =
     integrate (fst child) (Some parent) (snd child)
       (p\<lparr>tp_orphan_ids := tp_orphan_ids p - {fst child}\<rparr>)"

lemma adopt_frame: "adopt q c p = Ret p' \<Longrightarrow> tp_orphans p' = tp_orphans p"
  by (auto simp: adopt_def dest: integrate_frame)

lemma fold_adopt_frame: "fold_rust (adopt q) cs p = Ret p' \<Longrightarrow> tp_orphans p' = tp_orphans p"
proof (induction cs arbitrary: p)
  case (Cons c cs)
  then obtain p1 where "adopt q c p = Ret p1" "fold_rust (adopt q) cs p1 = Ret p'" by auto
  with Cons.IH [of p1] adopt_frame [of q c p p1] show ?case by simp
qed simp

definition orphan_weight :: "(compact_id \<times> (compact_id \<times> scalar) list) list \<Rightarrow> nat" where
  "orphan_weight os = sum_list (map (\<lambda>(_, cs). Suc (length cs)) os)"

lemma orphan_weight_delete:
  "map_of os k = Some cs \<Longrightarrow> orphan_weight (AList.delete k os) + Suc (length cs) \<le> orphan_weight os"
proof (induction os)
  case (Cons e os)
  have "orphan_weight (AList.delete k os) \<le> orphan_weight os"
    by (induction os) (auto simp: orphan_weight_def)
  with Cons show ?case by (cases e) (auto simp: orphan_weight_def split: if_splits)
qed simp

text \<open>The top of the stack is the head of the list.\<close>

function drain_loop :: "compact_id list \<Rightarrow> text_projection \<Rightarrow> text_projection rust" where
  "drain_loop [] p = Ret p"
| "drain_loop (q # stack) p =
     (case map_of (tp_orphans p) q of
        None \<Rightarrow> drain_loop stack p
      | Some children \<Rightarrow>
          (case fold_rust (adopt q) children (p\<lparr>tp_orphans := AList.delete q (tp_orphans p)\<rparr>) of
             Panic \<Rightarrow> Panic
           | Ret p' \<Rightarrow> drain_loop (rev (map fst children) @ stack) p'))"
  by pat_completeness auto
termination
proof (relation "measure (\<lambda>(st, p). orphan_weight (tp_orphans p) + length st)", goal_cases)
  case (3 q stack p children p')
  from fold_adopt_frame [OF 3(2)] orphan_weight_delete [OF 3(1)] show ?case by simp
qed auto

definition drain_orphans_of :: "compact_id \<Rightarrow> text_projection \<Rightarrow> text_projection rust" where
  "drain_orphans_of parent p = (if tp_orphans p = [] then Ret p else drain_loop [parent] p)"

section \<open>Applying operations\<close>

definition apply_insert :: "op_id \<Rightarrow> op_id option \<Rightarrow> scalar \<Rightarrow> text_projection \<Rightarrow> text_projection rust" where
  "apply_insert i after_id ch p0 =
     (let (cid, p) = compact_id_for i p0 in
      if tp_id_to_chunk p cid \<noteq> None \<or> cid \<in> tp_orphan_ids p then Ret p
      else
        let p1 = p\<lparr>tp_insert_ops_applied := sat_add (tp_insert_ops_applied p) 1\<rparr>;
            (after_cid, p2) = (case after_id of
                None \<Rightarrow> (None, p1)
              | Some q \<Rightarrow> (let (c, p') = compact_id_for q p1 in (Some c, p')))
        in
        case after_cid of
          Some q \<Rightarrow>
            if tp_id_to_chunk p2 q = None
            then Ret (p2\<lparr>tp_orphans := AList.update q
                          ((case map_of (tp_orphans p2) q of None \<Rightarrow> [] | Some cs \<Rightarrow> cs) @ [(cid, ch)]) (tp_orphans p2),
                         tp_orphan_ids := insert cid (tp_orphan_ids p2)\<rparr>)
            else rbind (integrate cid after_cid ch p2) (drain_orphans_of cid)
        | None \<Rightarrow> rbind (integrate cid after_cid ch p2) (drain_orphans_of cid))"

definition apply_delete :: "op_id \<Rightarrow> text_projection \<Rightarrow> text_projection rust" where
  "apply_delete target p =
     (case compact_id_existing p target of
        None \<Rightarrow>
          (let (cid, p1) = compact_id_for target p in
           Ret (p1\<lparr>tp_pending_deletes := insert cid (tp_pending_deletes p1)\<rparr>))
      | Some cid \<Rightarrow>
          if tp_id_to_chunk p cid = None
          then Ret (p\<lparr>tp_pending_deletes := insert cid (tp_pending_deletes p)\<rparr>)
          else delete_known cid p)"

definition resolve_anchor_index :: "text_projection \<Rightarrow> text_range_anchor \<Rightarrow> nat" where
  "resolve_anchor_index p anchor =
     (case anchor of
        Start \<Rightarrow> 0
      | End \<Rightarrow> tp_visible_chars_total p
      | Offset i \<Rightarrow> min i (tp_visible_chars_total p)
      | After i \<Rightarrow>
          (case from_op_id_existing i (tp_actors p) of
             None \<Rightarrow> tp_visible_chars_total p
           | Some cid \<Rightarrow>
               (case visible_offset_of_id p cid of
                  Some offset \<Rightarrow> offset + 1
                | None \<Rightarrow> tp_visible_chars_total p)))"

definition resolve_anchor_after_visible :: "text_projection \<Rightarrow> text_range_anchor \<Rightarrow> op_id option" where
  "resolve_anchor_after_visible p anchor =
     (let idx = resolve_anchor_index p anchor in
      if idx = 0 then None else id_at_visible_offset p (idx - 1))"

fun range_insert_loop ::
  "u64 \<Rightarrow> pubkey \<Rightarrow> nat \<Rightarrow> op_id option \<Rightarrow> scalar list \<Rightarrow> text_projection \<Rightarrow> text_projection rust" where
  "range_insert_loop base_lamport author offset insert_after [] p = Ret p"
| "range_insert_loop base_lamport author offset insert_after (ch # chs) p =
     (let i = OpId (sat_add base_lamport (word_of_nat offset)) author in
      rbind (apply_insert i insert_after ch p)
        (range_insert_loop base_lamport author (offset + 1) (Some i) chs))"

definition apply_range_insert ::
  "u64 \<Rightarrow> pubkey \<Rightarrow> text_range_anchor \<Rightarrow> scalar list \<Rightarrow> text_projection \<Rightarrow> text_projection rust" where
  "apply_range_insert base_lamport author anchor chs p0 =
     (if chs = [] then Ret p0
      else
        let p = p0\<lparr>tp_range_insert_ops_applied := sat_add (tp_range_insert_ops_applied p0) 1\<rparr> in
        range_insert_loop base_lamport author 0 (resolve_anchor_after_visible p anchor) chs p)"

fun range_delete_loop :: "nat \<Rightarrow> nat \<Rightarrow> text_projection \<Rightarrow> text_projection rust" where
  "range_delete_loop 0 start p = Ret p"
| "range_delete_loop (Suc k) start p =
     (case loc_of_visible_offset p start of
        None \<Rightarrow> Ret p
      | Some l \<Rightarrow> rbind (delete_known (i_id (item_at p l)) p) (range_delete_loop k start))"

definition apply_range_delete :: "text_range_anchor \<Rightarrow> nat \<Rightarrow> text_projection \<Rightarrow> text_projection rust" where
  "apply_range_delete anchor len_chars p0 =
     (if len_chars = 0 then Ret p0
      else
        let p = p0\<lparr>tp_range_delete_ops_applied := sat_add (tp_range_delete_ops_applied p0) 1\<rparr>;
            start = resolve_anchor_index p anchor;
            count = min len_chars (tp_visible_chars_total p - start)
        in range_delete_loop count start p)"

definition apply_text_op :: "transaction \<Rightarrow> string \<Rightarrow> op \<Rightarrow> text_projection \<Rightarrow> text_projection rust" where
  "apply_text_op tx key op p =
     (case op of
        OpText (TextInsert k after_id ch) \<Rightarrow>
          if k = key then apply_insert (OpId (tx_lamport tx) (tx_author tx)) after_id ch p else Ret p
      | OpText (TextDelete k target) \<Rightarrow> if k = key then apply_delete target p else Ret p
      | OpText (TextInsertRange k anchor chs) \<Rightarrow>
          if k = key then apply_range_insert (tx_lamport tx) (tx_author tx) anchor chs p else Ret p
      | OpText (TextDeleteRange k anchor n) \<Rightarrow> if k = key then apply_range_delete anchor n p else Ret p
      | _ \<Rightarrow> Ret p)"

definition apply_node :: "sync_node \<Rightarrow> string \<Rightarrow> text_projection \<Rightarrow> text_projection rust" where
  "apply_node n key p = fold_rust (apply_text_op (n_tx n) key) (tx_ops (n_tx n)) p"

definition from_nodes :: "sync_node list \<Rightarrow> string \<Rightarrow> text_projection rust" where
  "from_nodes nodes key =
     fold_rust (\<lambda>n. apply_node n key) nodes (tp_default\<lparr>tp_full_rebuild_count := 1\<rparr>)"

fun apply_update :: "projection_update_op \<Rightarrow> text_projection \<Rightarrow> text_projection rust" where
  "apply_update (UpInsert i after_id ch) p = apply_insert i after_id ch p"
| "apply_update (UpDelete target) p = apply_delete target p"

definition apply_updates_coalesced :: "projection_update_op list \<Rightarrow> text_projection \<Rightarrow> text_projection rust" where
  "apply_updates_coalesced updates p = fold_rust apply_update updates p"

section \<open>Reads\<close>

definition build_visible_seq_pairs :: "text_projection \<Rightarrow> (op_id \<times> scalar) list" where
  "build_visible_seq_pairs p =
     concat (map (\<lambda>slot. List.map_filter
       (\<lambda>it. if i_deleted it then None
             else map_option (\<lambda>i. (i, i_ch it)) (to_op_id (tp_actors p) (i_id it)))
       (ch_items (tp_chunk p slot))) (tp_order p))"

definition resolve_seq :: "text_projection \<Rightarrow> (op_id \<times> scalar) list \<times> text_projection" where
  "resolve_seq p = (build_visible_seq_pairs p,
     p\<lparr>tp_resolve_seq_calls := sat_add (tp_resolve_seq_calls p) 1\<rparr>)"

definition resolve_string :: "text_projection \<Rightarrow> scalar list \<times> text_projection" where
  "resolve_string p = (tp_visible_string p,
     p\<lparr>tp_resolve_string_calls := sat_add (tp_resolve_string_calls p) 1\<rparr>)"

definition resolve_string_range :: "nat \<Rightarrow> nat \<Rightarrow> text_projection \<Rightarrow> scalar list rust \<times> text_projection" where
  "resolve_string_range start len p =
     (if len = 0 \<or> tp_visible_chars_total p \<le> start then Ret []
      else str_slice (byte_offset_of_visible p start) (byte_offset_of_visible p (start + len)) (tp_visible_string p),
      p\<lparr>tp_resolve_range_calls := sat_add (tp_resolve_range_calls p) 1\<rparr>)"

definition anchor_for_offset :: "text_projection \<Rightarrow> nat \<Rightarrow> text_range_anchor" where
  "anchor_for_offset p offset =
     (if offset = 0 then Start
      else if tp_visible_chars_total p \<le> offset then End
      else case id_at_visible_offset p (offset - 1) of Some i \<Rightarrow> After i | None \<Rightarrow> Start)"

definition offset_for_anchor :: "text_projection \<Rightarrow> text_range_anchor \<Rightarrow> nat" where
  "offset_for_anchor p anchor = resolve_anchor_index p anchor"

section \<open>Replay\<close>

definition node_sort_key :: "sync_node \<Rightarrow> u64 \<times> pubkey \<times> node_id" where
  "node_sort_key n = (tx_lamport (n_tx n), tx_author (n_tx n), n_id n)"

definition resolve_text_seq :: "sync_node list \<Rightarrow> string \<Rightarrow> (op_id \<times> scalar) list rust" where
  "resolve_text_seq nodes key =
     map_rust (\<lambda>p. fst (resolve_seq p))
       (fold_rust (\<lambda>n. apply_node n key) (sort_key node_sort_key nodes) tp_default)"

definition resolve_text :: "sync_node list \<Rightarrow> string \<Rightarrow> scalar list rust" where
  "resolve_text nodes key = map_rust (map snd) (resolve_text_seq nodes key)"

definition resolve_text_seq_upto_lamport ::
  "sync_node list \<Rightarrow> string \<Rightarrow> u64 \<Rightarrow> (op_id \<times> scalar) list rust" where
  "resolve_text_seq_upto_lamport nodes key max_lamport =
     resolve_text_seq (filter (\<lambda>n. tx_lamport (n_tx n) \<le> max_lamport) nodes) key"

definition resolve_text_upto_lamport :: "sync_node list \<Rightarrow> string \<Rightarrow> u64 \<Rightarrow> scalar list rust" where
  "resolve_text_upto_lamport nodes key max_lamport =
     map_rust (map snd) (resolve_text_seq_upto_lamport nodes key max_lamport)"

section \<open>Diagnostics\<close>

fun lamport_spans :: "u64 option \<Rightarrow> u64 list \<Rightarrow> nat" where
  "lamport_spans prev [] = 0"
| "lamport_spans prev (l # ls) =
     (if prev \<noteq> Some (l - 1) \<and> prev \<noteq> Some l then 1 else 0) + lamport_spans (Some l) ls"

definition tombstone_span_stats :: "text_projection \<Rightarrow> nat \<times> nat" where
  "tombstone_span_stats p =
     (if tp_tombstone_count p = 0 then (0, 0)
      else
        let dead = filter i_deleted (concat (map (\<lambda>slot. ch_items (tp_chunk p slot)) (tp_order p)));
            actors = remdups (map (\<lambda>it. actor_idx (i_id it)) dead);
            lamports = (\<lambda>a. sort (map (\<lambda>it. c_lamport (i_id it)) (filter (\<lambda>it. actor_idx (i_id it) = a) dead)))
        in (sum_list (map (\<lambda>a. lamport_spans None (lamports a)) actors), length actors))"

text \<open>
  The statistics a host reads, without the capacity of the string buffer and the two accumulated
  durations, which the allocator and the clock decide.
\<close>

record text_projection_debug_stats =
  ds_metadata_entries :: nat
  ds_visible_len :: nat
  ds_tombstone_count :: nat
  ds_tombstone_span_count :: nat
  ds_tombstone_author_bucket_count :: nat
  ds_pending_deletes_count :: nat
  ds_child_bucket_count :: nat
  ds_index_weights_len :: nat
  ds_index_fenwick_len :: nat
  ds_full_rebuild_count :: u64
  ds_sibling_fanout_max :: nat
  ds_sibling_fanout_avg_milli :: u64
  ds_insert_ops_applied :: u64
  ds_delete_ops_applied :: u64
  ds_range_insert_ops_applied :: u64
  ds_range_delete_ops_applied :: u64
  ds_resolve_seq_calls :: u64
  ds_resolve_string_calls :: u64
  ds_resolve_range_calls :: u64
  ds_invalidation_count :: u64
  ds_dirty_range_count :: nat
  ds_dirty_span_chars :: nat
  ds_dirty_range_merge_count :: u64

definition debug_stats :: "text_projection \<Rightarrow> text_projection_debug_stats" where
  "debug_stats p =
     (let (span_count, author_buckets) = tombstone_span_stats p in
      \<lparr>ds_metadata_entries = tp_total_items p + card (tp_orphan_ids p),
       ds_visible_len = tp_visible_chars_total p,
       ds_tombstone_count = tp_tombstone_count p,
       ds_tombstone_span_count = span_count,
       ds_tombstone_author_bucket_count = author_buckets,
       ds_pending_deletes_count = card (tp_pending_deletes p),
       ds_child_bucket_count = length (tp_orphans p),
       ds_index_weights_len = length (cpi_weights (tp_char_index p)),
       ds_index_fenwick_len = length (cpi_fenwick (tp_char_index p)),
       ds_full_rebuild_count = tp_full_rebuild_count p,
       ds_sibling_fanout_max = 0,
       ds_sibling_fanout_avg_milli = 0,
       ds_insert_ops_applied = tp_insert_ops_applied p,
       ds_delete_ops_applied = tp_delete_ops_applied p,
       ds_range_insert_ops_applied = tp_range_insert_ops_applied p,
       ds_range_delete_ops_applied = tp_range_delete_ops_applied p,
       ds_resolve_seq_calls = tp_resolve_seq_calls p,
       ds_resolve_string_calls = tp_resolve_string_calls p,
       ds_resolve_range_calls = tp_resolve_range_calls p,
       ds_invalidation_count = tp_invalidation_count p,
       ds_dirty_range_count = length (tp_dirty_ranges p),
       ds_dirty_span_chars = sum_list (map (\<lambda>(s, e). e - s) (tp_dirty_ranges p)),
       ds_dirty_range_merge_count = tp_dirty_range_merge_count p\<rparr>)"

end
