(* ===== verification/Rga.thy ===== *)
theory Rga
  imports Text_Projection
begin

text \<open>
  The sequence the text projection stands for: a flat list of characters with tombstones,
  into which an insert is placed after its reference, past every element of larger identifier,
  together with the deletes and inserts that arrived early. The section on
  convergence shows that the list depends only on the set of operations applied.
\<close>

section \<open>The sequence\<close>

type_synonym rga_item = "op_id \<times> scalar \<times> bool"
type_synonym rga_insert_op = "op_id \<times> op_id option \<times> scalar"

record rga_state =
  rs_seq :: "rga_item list"
  rs_pending :: "op_id set"
  rs_orphans :: "(op_id \<times> (op_id \<times> scalar) list) list"

definition rga_init :: rga_state where
  "rga_init = \<lparr>rs_seq = [], rs_pending = {}, rs_orphans = []\<rparr>"

fun rga_place :: "rga_item \<Rightarrow> rga_item list \<Rightarrow> rga_item list" where
  "rga_place x [] = [x]"
| "rga_place x (y # ys) = (if fst x < fst y then y # rga_place x ys else x # y # ys)"

fun rga_insert_after :: "op_id \<Rightarrow> rga_item \<Rightarrow> rga_item list \<Rightarrow> rga_item list" where
  "rga_insert_after q x [] = [x]"
| "rga_insert_after q x (y # ys) =
     (if fst y = q then y # rga_place x ys else y # rga_insert_after q x ys)"

definition rga_insert :: "op_id option \<Rightarrow> rga_item \<Rightarrow> rga_item list \<Rightarrow> rga_item list" where
  "rga_insert parent x s = (case parent of None \<Rightarrow> rga_place x s | Some q \<Rightarrow> rga_insert_after q x s)"

abbreviation seq_ids :: "rga_item list \<Rightarrow> op_id set" where
  "seq_ids s \<equiv> fst ` set s"

definition rga_integrate :: "op_id \<Rightarrow> op_id option \<Rightarrow> scalar \<Rightarrow> rga_state \<Rightarrow> rga_state" where
  "rga_integrate i parent ch st =
     st\<lparr>rs_seq := rga_insert parent (i, ch, i \<in> rs_pending st) (rs_seq st),
        rs_pending := rs_pending st - {i}\<rparr>"

definition rga_adopt :: "op_id \<Rightarrow> op_id \<times> scalar \<Rightarrow> rga_state \<Rightarrow> rga_state" where
  "rga_adopt q child st = rga_integrate (fst child) (Some q) (snd child) st"

definition rga_orphan_weight :: "(op_id \<times> (op_id \<times> scalar) list) list \<Rightarrow> nat" where
  "rga_orphan_weight os = sum_list (map (\<lambda>(_, cs). Suc (length cs)) os)"

lemma rga_orphan_weight_delete:
  "map_of os k = Some cs \<Longrightarrow> rga_orphan_weight (AList.delete k os) + Suc (length cs) \<le> rga_orphan_weight os"
proof (induction os)
  case (Cons e os)
  have "rga_orphan_weight (AList.delete k os) \<le> rga_orphan_weight os"
    by (induction os) (auto simp: rga_orphan_weight_def)
  with Cons show ?case by (cases e) (auto simp: rga_orphan_weight_def split: if_splits)
qed simp

lemma fold_rga_adopt_orphans: "rs_orphans (fold (rga_adopt q) cs st) = rs_orphans st"
  by (induction cs arbitrary: st) (simp_all add: rga_adopt_def rga_integrate_def)

function rga_drain :: "op_id list \<Rightarrow> rga_state \<Rightarrow> rga_state" where
  "rga_drain [] st = st"
| "rga_drain (q # stack) st =
     (case map_of (rs_orphans st) q of
        None \<Rightarrow> rga_drain stack st
      | Some cs \<Rightarrow> rga_drain (rev (map fst cs) @ stack)
          (fold (rga_adopt q) cs (st\<lparr>rs_orphans := AList.delete q (rs_orphans st)\<rparr>)))"
  by pat_completeness auto
termination
proof (relation "measure (\<lambda>(stack, st). rga_orphan_weight (rs_orphans st) + length stack)", goal_cases)
  case (3 q stack st cs)
  from rga_orphan_weight_delete [OF 3] show ?case by (simp add: fold_rga_adopt_orphans)
qed auto

definition orphan_ids_of :: "(op_id \<times> (op_id \<times> scalar) list) list \<Rightarrow> op_id set" where
  "orphan_ids_of os = (\<Union>(q, cs) \<in> set os. fst ` set cs)"

definition rga_apply_insert :: "op_id \<Rightarrow> op_id option \<Rightarrow> scalar \<Rightarrow> rga_state \<Rightarrow> rga_state" where
  "rga_apply_insert i after_id ch st =
     (if i \<in> seq_ids (rs_seq st) \<or> i \<in> orphan_ids_of (rs_orphans st) then st
      else case after_id of
          None \<Rightarrow> rga_drain [i] (rga_integrate i None ch st)
        | Some q \<Rightarrow>
            if q \<notin> seq_ids (rs_seq st)
            then st\<lparr>rs_orphans := AList.update q
                     ((case map_of (rs_orphans st) q of None \<Rightarrow> [] | Some cs \<Rightarrow> cs) @ [(i, ch)]) (rs_orphans st)\<rparr>
            else rga_drain [i] (rga_integrate i (Some q) ch st))"

definition rga_mark :: "op_id \<Rightarrow> rga_item list \<Rightarrow> rga_item list" where
  "rga_mark i s = map (\<lambda>(j, c, d). (j, c, d \<or> j = i)) s"

definition rga_apply_delete :: "op_id \<Rightarrow> rga_state \<Rightarrow> rga_state" where
  "rga_apply_delete i st =
     (if i \<in> seq_ids (rs_seq st) then st\<lparr>rs_seq := rga_mark i (rs_seq st)\<rparr>
      else st\<lparr>rs_pending := insert i (rs_pending st)\<rparr>)"

fun rga_apply :: "projection_update_op \<Rightarrow> rga_state \<Rightarrow> rga_state" where
  "rga_apply (UpInsert i after_id ch) st = rga_apply_insert i after_id ch st"
| "rga_apply (UpDelete i) st = rga_apply_delete i st"

definition rga_visible :: "rga_item list \<Rightarrow> (op_id \<times> scalar) list" where
  "rga_visible s = map (\<lambda>(i, c, d). (i, c)) (filter (\<lambda>(i, c, d). \<not> d) s)"

section \<open>Placement\<close>

lemma rga_place_ids [simp]: "seq_ids (rga_place x s) = insert (fst x) (seq_ids s)"
  by (induction s) auto

lemma rga_insert_after_ids [simp]: "seq_ids (rga_insert_after q x s) = insert (fst x) (seq_ids s)"
  by (induction s) auto

lemma rga_insert_ids [simp]: "seq_ids (rga_insert parent x s) = insert (fst x) (seq_ids s)"
  by (simp add: rga_insert_def split: option.split)

lemma rga_place_commute: "fst a \<noteq> fst b \<Longrightarrow> rga_place a (rga_place b s) = rga_place b (rga_place a s)"
  by (induction s) auto

lemma rga_place_after_commute:
  "fst a \<noteq> fst b \<Longrightarrow> q \<noteq> fst a \<Longrightarrow> q \<in> seq_ids s \<Longrightarrow>
   rga_place a (rga_insert_after q b s) = rga_insert_after q b (rga_place a s)"
proof (induction s)
  case (Cons y s)
  then show ?case by (cases "fst y = q"; cases "fst a < fst y") (auto simp: rga_place_commute)
qed simp

lemma rga_after_commute:
  "fst a \<noteq> fst b \<Longrightarrow> q \<noteq> fst b \<Longrightarrow> r \<noteq> fst a \<Longrightarrow> q \<in> seq_ids s \<Longrightarrow> r \<in> seq_ids s \<Longrightarrow>
   rga_insert_after q a (rga_insert_after r b s) = rga_insert_after r b (rga_insert_after q a s)"
proof (induction s)
  case (Cons y s)
  then show ?case
    by (cases "fst y = q"; cases "fst y = r")
      (auto simp: rga_place_commute rga_place_after_commute)
qed simp

definition ref_in :: "op_id option \<Rightarrow> op_id set \<Rightarrow> bool" where
  "ref_in parent S \<longleftrightarrow> (case parent of None \<Rightarrow> True | Some q \<Rightarrow> q \<in> S)"

lemma rga_insert_commute:
  assumes "fst a \<noteq> fst b" "ref_in p (seq_ids s)" "ref_in r (seq_ids s)" "p \<noteq> Some (fst b)" "r \<noteq> Some (fst a)"
  shows "rga_insert p a (rga_insert r b s) = rga_insert r b (rga_insert p a s)"
proof (cases p)
  case None
  with assms rga_place_after_commute [of a b _ s] show ?thesis
    by (cases r) (simp_all add: rga_insert_def ref_in_def rga_place_commute)
next
  case (Some q)
  with assms rga_place_after_commute [of b a q s] show ?thesis
    by (cases r) (simp_all add: rga_insert_def ref_in_def rga_after_commute)
qed

lemma rga_insert_map:
  assumes "\<And>x. fst (f x) = fst x"
  shows "map f (rga_insert p x s) = rga_insert p (f x) (map f s)"
proof -
  have place: "map f (rga_place x s) = rga_place (f x) (map f s)" for s
    by (induction s) (auto simp: assms)
  have "map f (rga_insert_after q x s) = rga_insert_after q (f x) (map f s)" for q
    by (induction s) (auto simp: assms place)
  with place show ?thesis by (simp add: rga_insert_def split: option.split)
qed

section \<open>Convergence\<close>

text \<open>A list of inserts in which each reference precedes its use.\<close>

fun causal :: "op_id set \<Rightarrow> rga_insert_op list \<Rightarrow> bool" where
  "causal S [] \<longleftrightarrow> True"
| "causal S ((i, p, c) # L) \<longleftrightarrow> i \<notin> S \<and> ref_in p S \<and> causal (insert i S) L"

definition flagged :: "op_id set \<Rightarrow> rga_insert_op \<Rightarrow> rga_item list \<Rightarrow> rga_item list" where
  "flagged D x = rga_insert (fst (snd x)) (fst x, snd (snd x), fst x \<in> D)"

definition canon :: "op_id set \<Rightarrow> rga_insert_op list \<Rightarrow> rga_item list" where
  "canon D L = fold (flagged D) L []"

lemma causal_append: "causal S (A @ B) \<longleftrightarrow> causal S A \<and> causal (S \<union> fst ` set A) B"
  by (induction A arbitrary: S) auto

lemma causal_mono_ref: "ref_in p S \<Longrightarrow> S \<subseteq> T \<Longrightarrow> ref_in p T"
  by (auto simp: ref_in_def split: option.splits)

lemma causal_move:
  assumes "causal S (A @ (i, p, c) # B)" "ref_in p S" "seq_ids s = S"
  shows "causal S ((i, p, c) # A @ B) \<and>
    fold (flagged D) (A @ (i, p, c) # B) s = fold (flagged D) ((i, p, c) # A @ B) s"
  using assms
proof (induction A arbitrary: S s)
  case (Cons y A)
  obtain j q d where y: "y = (j, q, d)" by (cases y)
  have c: "j \<notin> S" "ref_in q S" "causal (insert j S) (A @ (i, p, c) # B)"
    using Cons.prems(1) y by auto
  have "ref_in p (insert j S)" using Cons.prems(2) by (rule causal_mono_ref) auto
  moreover have "seq_ids (flagged D y s) = insert j S" using Cons.prems(3) y by (simp add: flagged_def)
  ultimately have IH: "causal (insert j S) ((i, p, c) # A @ B)"
    "fold (flagged D) (A @ (i, p, c) # B) (flagged D y s) = fold (flagged D) ((i, p, c) # A @ B) (flagged D y s)"
    using Cons.IH [OF c(3)] by blast+
  have ij: "i \<noteq> j" "i \<notin> S" using IH(1) by auto
  have "flagged D (i, p, c) (flagged D y s) = flagged D y (flagged D (i, p, c) s)"
    unfolding flagged_def y fst_conv snd_conv
    by (rule rga_insert_commute) (use c Cons.prems ij in \<open>auto simp: ref_in_def\<close>)
  moreover have "causal S ((i, p, c) # (y # A) @ B)"
    using c ij Cons.prems(2) IH(1) y by (auto simp: insert_commute ref_in_def split: option.splits)
  ultimately show ?case using IH(2) by simp
qed simp

lemma causal_distinct: "causal S L \<Longrightarrow> distinct L \<and> fst ` set L \<inter> S = {}"
proof (induction L arbitrary: S)
  case (Cons x L)
  obtain i p c where x: "x = (i, p, c)" by (cases x)
  then have "distinct L \<and> fst ` set L \<inter> insert i S = {}" using Cons.IH [of "insert i S"] Cons.prems by simp
  with Cons.prems x show ?case by force
qed simp

lemma canon_unique_from:
  "causal S L \<Longrightarrow> causal S M \<Longrightarrow> set L = set M \<Longrightarrow> seq_ids s = S \<Longrightarrow>
   fold (flagged D) L s = fold (flagged D) M s"
proof (induction M arbitrary: L S s)
  case (Cons x M)
  obtain i p c where x: "x = (i, p, c)" by (cases x)
  have "x \<in> set L" using Cons.prems(3) by simp
  then obtain A B where L: "L = A @ (i, p, c) # B" using x by (meson split_list)
  have "ref_in p S" using Cons.prems(2) x by simp
  with causal_move [of S A i p c B s D] Cons.prems(1,4) L
  have mv: "causal S ((i, p, c) # A @ B)" "fold (flagged D) L s = fold (flagged D) ((i, p, c) # A @ B) s"
    by auto
  have dl: "x \<notin> set (A @ B)" using causal_distinct [OF Cons.prems(1)] L x by auto
  have dm: "x \<notin> set M" using causal_distinct [OF Cons.prems(2)] by simp
  have "insert x (set (A @ B)) = insert x (set M)" using Cons.prems(3) L x by simp
  then have "set (A @ B) = set M" using insert_ident [OF dl dm] by simp
  moreover have "causal (insert i S) (A @ B)" "causal (insert i S) M" using mv(1) Cons.prems(2) x by auto
  moreover have "seq_ids (flagged D x s) = insert i S" using Cons.prems(4) x by (simp add: flagged_def)
  ultimately have "fold (flagged D) (A @ B) (flagged D x s) = fold (flagged D) M (flagged D x s)"
    using Cons.IH by blast
  with mv(2) x show ?case by simp
qed simp

lemma canon_unique: "causal {} L \<Longrightarrow> causal {} M \<Longrightarrow> set L = set M \<Longrightarrow> canon D L = canon D M"
  unfolding canon_def by (rule canon_unique_from) auto

lemma canon_snoc: "canon D (L @ [x]) = flagged D x (canon D L)"
  by (simp add: canon_def)

lemma canon_ids: "seq_ids (canon D L) = fst ` set L"
  by (induction L rule: rev_induct) (simp_all add: canon_snoc flagged_def, simp add: canon_def)

lemma canon_reflag:
  "map (\<lambda>(i, c, d). (i, c, i \<in> E)) (canon D L) = canon E L"
proof (induction L rule: rev_induct)
  case (snoc x L)
  then show ?case
    by (simp add: canon_snoc flagged_def rga_insert_map split_beta)
qed (simp add: canon_def)

lemma canon_flag:
  assumes "(i, c, d) \<in> set (canon D L)"
  shows "d \<longleftrightarrow> i \<in> D"
proof -
  have "(i, c, d) \<in> set (map (\<lambda>(i, c, d). (i, c, i \<in> D)) (canon D L))"
    using assms by (simp only: canon_reflag)
  then show ?thesis by auto
qed

lemma rga_mark_canon: "rga_mark i (canon D L) = canon (insert i D) L"
proof -
  have "rga_mark i (canon D L) = map (\<lambda>(j, c, d). (j, c, j \<in> insert i D)) (canon D L)"
    unfolding rga_mark_def by (rule map_cong) (auto dest: canon_flag)
  then show ?thesis by (simp only: canon_reflag)
qed

lemma canon_cong_outside:
  assumes "i \<notin> fst ` set L"
  shows "canon (insert i D) L = canon D L"
proof -
  have "map (\<lambda>(j, c, d). (j, c, j \<in> insert i D)) (canon D L) = map (\<lambda>(j, c, d). (j, c, j \<in> D)) (canon D L)"
    using assms canon_ids [of D L] by (intro map_cong) (force)+
  then show ?thesis by (simp only: canon_reflag)
qed

subsection \<open>What a state has absorbed\<close>

definition orphan_ops :: "(op_id \<times> (op_id \<times> scalar) list) list \<Rightarrow> rga_insert_op set" where
  "orphan_ops os = {(c, Some q, ch) | c q ch. \<exists>cs. (q, cs) \<in> set os \<and> (c, ch) \<in> set cs}"

definition unique_ids :: "rga_insert_op set \<Rightarrow> bool" where
  "unique_ids I \<longleftrightarrow> inj_on fst I"

definition orphans_ok :: "(op_id \<times> (op_id \<times> scalar) list) list \<Rightarrow> bool" where
  "orphans_ok os \<longleftrightarrow> distinct (map fst os) \<and> (\<forall>(q, cs) \<in> set os. distinct (map fst cs))"

text \<open>
  \<open>I\<close> are the inserts and \<open>D\<close> the deletes a state has seen, \<open>L\<close> the inserts it has integrated,
  \<open>stack\<close> the identifiers whose waiting children are still to be adopted.
\<close>

definition rga_rel ::
  "rga_insert_op set \<Rightarrow> op_id set \<Rightarrow> rga_insert_op list \<Rightarrow> op_id list \<Rightarrow> rga_state \<Rightarrow> bool" where
  "rga_rel I D L stack st \<longleftrightarrow> causal {} L \<and> set L \<subseteq> I \<and> rs_seq st = canon D L
     \<and> rs_pending st = D - fst ` set L \<and> orphan_ops (rs_orphans st) = I - set L
     \<and> orphans_ok (rs_orphans st) \<and> fst ` set (rs_orphans st) \<inter> fst ` set L \<subseteq> set stack
     \<and> set stack \<subseteq> fst ` set L"

lemma orphan_ids_of_ops: "orphan_ids_of os = fst ` orphan_ops os"
  by (force simp: orphan_ids_of_def orphan_ops_def)

lemma unique_not_integrated:
  assumes "unique_ids I" "set L \<subseteq> I" "x \<in> I - set L"
  shows "fst x \<notin> fst ` set L"
  using assms by (auto simp: unique_ids_def inj_on_def)

lemma orphan_ops_delete:
  assumes "orphans_ok os" "map_of os q = Some cs"
  shows "orphan_ops (AList.delete q os) = orphan_ops os - (\<lambda>(c, ch). (c, Some q, ch)) ` set cs"
    "orphans_ok (AList.delete q os)" "fst ` set (AList.delete q os) = fst ` set os - {q}"
proof -
  have d: "distinct (map fst os)" using assms(1) by (simp add: orphans_ok_def)
  have mem: "(k, v) \<in> set (AList.delete q os) \<longleftrightarrow> (k, v) \<in> set os \<and> k \<noteq> q" for k v
    by (induction os) auto
  have "(q, v) \<in> set os \<longleftrightarrow> v = cs" for v
    using d assms(2) by (metis map_of_eq_Some_iff option.inject)
  then show "orphan_ops (AList.delete q os) = orphan_ops os - (\<lambda>(c, ch). (c, Some q, ch)) ` set cs"
    by (fastforce simp: orphan_ops_def mem image_iff)
  show "orphans_ok (AList.delete q os)"
    using assms(1) by (auto simp: orphans_ok_def mem distinct_delete)
  show "fst ` set (AList.delete q os) = fst ` set os - {q}"
    by (auto simp: image_iff mem)
qed

lemma fold_rga_adopt:
  assumes "causal {} L" "rs_seq st = canon D L" "rs_pending st = D - fst ` set L" "q \<in> fst ` set L"
    "distinct (map fst cs)" "fst ` set cs \<inter> fst ` set L = {}"
  defines "M \<equiv> map (\<lambda>(c, ch). (c, Some q, ch)) cs"
  shows "causal {} (L @ M) \<and> rs_seq (fold (rga_adopt q) cs st) = canon D (L @ M)
     \<and> rs_pending (fold (rga_adopt q) cs st) = D - fst ` set (L @ M)"
  using assms(1-6) unfolding M_def
proof (induction cs arbitrary: L st)
  case (Cons x cs)
  obtain c ch where x: "x = (c, ch)" by (cases x)
  let ?L = "L @ [(c, Some q, ch)]" and ?st = "rga_adopt q x st"
  have c: "c \<notin> fst ` set L" "c \<notin> fst ` set cs" using Cons.prems(5,6) x by auto
  have "causal {} ?L" using Cons.prems(1,4) c by (simp add: causal_append ref_in_def)
  moreover have "rs_seq ?st = canon D ?L"
    using Cons.prems(2,3) c x by (simp add: canon_snoc flagged_def rga_adopt_def rga_integrate_def)
  moreover have "rs_pending ?st = D - fst ` set ?L"
    using Cons.prems(3) x by (auto simp: rga_adopt_def rga_integrate_def)
  moreover have "q \<in> fst ` set ?L" "distinct (map fst cs)" "fst ` set cs \<inter> fst ` set ?L = {}"
    using Cons.prems(4,5,6) c by auto
  ultimately show ?case using Cons.IH [of ?L ?st] x by simp
qed simp

lemma rga_drain_rel:
  assumes "unique_ids I"
  shows "rga_rel I D L stack st \<Longrightarrow> \<exists>M. rga_rel I D M [] (rga_drain stack st)"
proof (induction stack st arbitrary: L rule: rga_drain.induct)
  case (1 st)
  then show ?case by auto
next
  case (2 q stack st)
  show ?case
  proof (cases "map_of (rs_orphans st) q")
    case None
    then have "q \<notin> fst ` set (rs_orphans st)" by (simp add: map_of_eq_None_iff)
    moreover have "fst ` set (rs_orphans st) \<inter> fst ` set L \<subseteq> insert q (set stack)"
      "set stack \<subseteq> fst ` set L" using "2.prems" by (simp_all add: rga_rel_def)
    ultimately have "fst ` set (rs_orphans st) \<inter> fst ` set L \<subseteq> set stack" by blast
    with "2.prems" have "rga_rel I D L stack st" by (simp add: rga_rel_def)
    with 2 None show ?thesis by simp
  next
    case (Some cs)
    note rel = "2.prems" [unfolded rga_rel_def]
    let ?os = "AList.delete q (rs_orphans st)" and ?M = "map (\<lambda>(c, ch). (c, Some q, ch)) cs"
    let ?st = "fold (rga_adopt q) cs (st\<lparr>rs_orphans := ?os\<rparr>)"
    have ok: "orphans_ok (rs_orphans st)" and qin: "(q, cs) \<in> set (rs_orphans st)"
      using rel Some by (auto dest: map_of_SomeD)
    note del = orphan_ops_delete [OF ok Some]
    have sub: "set ?M \<subseteq> I - set L"
    proof -
      have "set ?M \<subseteq> orphan_ops (rs_orphans st)" using qin by (force simp: orphan_ops_def)
      with rel show ?thesis by simp
    qed
    have "c \<notin> fst ` set L" if "(c, ch) \<in> set cs" for c ch
    proof -
      have "(c, Some q, ch) \<in> set ?M" using that by force
      then have "(c, Some q, ch) \<in> I - set L" using sub by blast
      with rel show ?thesis using unique_not_integrated [OF assms, of L "(c, Some q, ch)"] by simp
    qed
    then have new: "fst ` set cs \<inter> fst ` set L = {}" by force
    have "distinct (map fst cs)" using ok qin by (auto simp: orphans_ok_def)
    with rel new have fa: "causal {} (L @ ?M)" "rs_seq ?st = canon D (L @ ?M)"
      "rs_pending ?st = D - fst ` set (L @ ?M)"
      using fold_rga_adopt [of L "st\<lparr>rs_orphans := ?os\<rparr>" D q cs] by auto
    have "orphan_ops ?os = (I - set L) - set ?M" using del(1) rel by simp
    then have ops: "orphan_ops ?os = I - set (L @ ?M)" unfolding set_append by blast
    have ids: "fst ` set (L @ ?M) = fst ` set L \<union> fst ` set cs" by (simp add: image_Un image_image split_beta)
    have "fst ` set (rs_orphans st) \<inter> fst ` set L \<subseteq> insert q (set stack)" "insert q (set stack) \<subseteq> fst ` set L"
      using rel by simp_all
    then have keys: "fst ` set ?os \<inter> fst ` set (L @ ?M) \<subseteq> set (rev (map fst cs) @ stack)"
      and stk: "set (rev (map fst cs) @ stack) \<subseteq> fst ` set (L @ ?M)"
      unfolding ids del(3) by auto
    have I: "set (L @ ?M) \<subseteq> I" using sub rel unfolding set_append by blast
    have "rga_rel I D (L @ ?M) (rev (map fst cs) @ stack) ?st"
      unfolding rga_rel_def fold_rga_adopt_orphans using fa I ops keys stk del(2) by simp
    then show ?thesis using "2.IH"(2) [OF Some] Some by simp
  qed
qed

definition op_insert :: "projection_update_op \<Rightarrow> rga_insert_op set" where
  "op_insert u = (case u of UpInsert i p c \<Rightarrow> {(i, p, c)} | UpDelete i \<Rightarrow> {})"

definition op_delete :: "projection_update_op \<Rightarrow> op_id set" where
  "op_delete u = (case u of UpInsert i p c \<Rightarrow> {} | UpDelete i \<Rightarrow> {i})"

lemma rga_rel_integrate:
  assumes "unique_ids (insert (i, p, c) I)" "rga_rel I D L [] st" "(i, p, c) \<notin> I"
    and i: "i \<notin> fst ` set L" and "ref_in p (fst ` set L)"
  shows "\<exists>M. rga_rel (insert (i, p, c) I) D M [] (rga_drain [i] (rga_integrate i p c st))"
proof -
  note rel = assms(2) [unfolded rga_rel_def]
  let ?I = "insert (i, p, c) I" and ?L = "L @ [(i, p, c)]" and ?st = "rga_integrate i p c st"
  have "rga_rel ?I D ?L [i] ?st"
    unfolding rga_rel_def
  proof (intro conjI)
    show "causal {} ?L" using rel assms(5) i by (simp add: causal_append)
    show "rs_seq ?st = canon D ?L"
      using rel i by (simp add: canon_snoc flagged_def rga_integrate_def)
    show "rs_pending ?st = D - fst ` set ?L" using rel by (auto simp: rga_integrate_def)
    show "orphan_ops (rs_orphans ?st) = ?I - set ?L"
      using rel assms(3) by (auto simp: rga_integrate_def)
  qed (use rel in \<open>auto simp: rga_integrate_def\<close>)
  from rga_drain_rel [OF assms(1) this] show ?thesis by blast
qed

lemma orphans_push:
  fixes q :: op_id and c :: scalar
  assumes ok: "orphans_ok os" and i: "i \<notin> orphan_ids_of os"
  defines "os' \<equiv> AList.update q ((case map_of os q of None \<Rightarrow> [] | Some cs \<Rightarrow> cs) @ [(i, c)]) os"
  shows "orphans_ok os'" "orphan_ops os' = insert (i, Some q, c) (orphan_ops os)"
proof -
  let ?old = "case map_of os q of None \<Rightarrow> [] | Some cs \<Rightarrow> cs"
  have d: "distinct (map fst os)" using ok by (simp add: orphans_ok_def)
  have mem: "(k, v) \<in> set os' \<longleftrightarrow> (if k = q then v = ?old @ [(i, c)] else (k, v) \<in> set os)" for k v
    unfolding os'_def by (rule set_alist_update [OF d])
  have old: "x \<in> set ?old \<longleftrightarrow> (\<exists>cs. (q, cs) \<in> set os \<and> x \<in> set cs)" for x
    by (rule alist_lookup_children [OF d])
  have kids: "(\<exists>cs. (k, cs) \<in> set os' \<and> x \<in> set cs) \<longleftrightarrow>
      (\<exists>cs. (k, cs) \<in> set os \<and> x \<in> set cs) \<or> k = q \<and> x = (i, c)" for k x
    using old by (cases "k = q") (simp_all add: mem, blast)
  show "orphan_ops os' = insert (i, Some q, c) (orphan_ops os)"
    unfolding orphan_ops_def kids by blast
  have "distinct (map fst ?old)"
    using ok by (auto simp: orphans_ok_def dest!: map_of_SomeD split: option.splits)
  moreover have "i \<notin> fst ` set ?old"
  proof
    assume "i \<in> fst ` set ?old"
    then obtain h where "(i, h) \<in> set ?old" by force
    then obtain cs where "(q, cs) \<in> set os" "(i, h) \<in> set cs" using old by blast
    with i show False by (force simp: orphan_ids_of_def)
  qed
  moreover have "distinct (map fst os')" using d by (simp add: os'_def distinct_update)
  ultimately show "orphans_ok os'"
    using ok by (auto simp: orphans_ok_def mem split: if_splits)
qed

lemma rga_rel_seen:
  assumes "rga_rel I D L [] st" "(i, p, c) \<in> I"
  shows "rga_apply_insert i p c st = st"
proof -
  have "(i, p, c) \<in> set L \<or> (i, p, c) \<in> orphan_ops (rs_orphans st)"
    using assms by (auto simp: rga_rel_def)
  then have "i \<in> fst ` set L \<or> i \<in> fst ` orphan_ops (rs_orphans st)"
    by (metis fst_conv imageI)
  moreover have "seq_ids (rs_seq st) = fst ` set L" using assms by (simp add: rga_rel_def canon_ids)
  ultimately show ?thesis by (auto simp: orphan_ids_of_ops rga_apply_insert_def)
qed

lemma rga_rel_insert:
  assumes "unique_ids (insert (i, p, c) I)" "rga_rel I D L [] st"
  shows "\<exists>M. rga_rel (insert (i, p, c) I) D M [] (rga_apply_insert i p c st)"
proof (cases "(i, p, c) \<in> I")
  case True
  then have "insert (i, p, c) I = I" by auto
  with rga_rel_seen [OF assms(2) True] assms(2) show ?thesis by auto
next
  case False
  note rel = assms(2) [unfolded rga_rel_def]
  have iL: "i \<notin> fst ` set L"
    using unique_not_integrated [OF assms(1), of L "(i, p, c)"] False rel by auto
  have iO: "i \<notin> orphan_ids_of (rs_orphans st)"
    using assms(1) False rel by (force simp: orphan_ids_of_ops unique_ids_def inj_on_def)
  have ids: "seq_ids (rs_seq st) = fst ` set L" using rel by (simp add: canon_ids)
  show ?thesis
  proof (cases "ref_in p (fst ` set L)")
    case True
    then have "rga_apply_insert i p c st = rga_drain [i] (rga_integrate i p c st)"
      using ids iL iO by (auto simp: rga_apply_insert_def ref_in_def split: option.splits)
    with rga_rel_integrate [OF assms False iL True] show ?thesis by simp
  next
    case noref: False
    then obtain q where q: "p = Some q" "q \<notin> fst ` set L" by (auto simp: ref_in_def split: option.splits)
    let ?os = "AList.update q ((case map_of (rs_orphans st) q of None \<Rightarrow> [] | Some cs \<Rightarrow> cs) @ [(i, c)]) (rs_orphans st)"
    have "orphans_ok (rs_orphans st)" using rel by simp
    note push = orphans_push [OF this iO, of q c]
    have "rga_apply_insert i p c st = st\<lparr>rs_orphans := ?os\<rparr>"
      using ids iL iO q by (simp add: rga_apply_insert_def)
    moreover have "rga_rel (insert (i, p, c) I) D L [] (st\<lparr>rs_orphans := ?os\<rparr>)"
      unfolding rga_rel_def using rel push q False by (auto simp: dom_update)
    ultimately show ?thesis by auto
  qed
qed

lemma rga_rel_delete:
  assumes "rga_rel I D L [] st"
  shows "rga_rel I (insert i D) L [] (rga_apply_delete i st)"
proof (cases "i \<in> fst ` set L")
  case True
  with assms show ?thesis
    by (auto simp: rga_rel_def rga_apply_delete_def canon_ids rga_mark_canon)
next
  case False
  with assms show ?thesis
    by (auto simp: rga_rel_def rga_apply_delete_def canon_ids canon_cong_outside)
qed

definition inserts_of :: "projection_update_op list \<Rightarrow> rga_insert_op set" where
  "inserts_of us = (\<Union>u \<in> set us. op_insert u)"

definition deletes_of :: "projection_update_op list \<Rightarrow> op_id set" where
  "deletes_of us = (\<Union>u \<in> set us. op_delete u)"

lemma unique_ids_subset: "unique_ids I \<Longrightarrow> J \<subseteq> I \<Longrightarrow> unique_ids J"
  by (auto simp: unique_ids_def intro: inj_on_subset)

lemma rga_run_rel:
  "unique_ids (inserts_of us) \<Longrightarrow> \<exists>L. rga_rel (inserts_of us) (deletes_of us) L [] (fold rga_apply us rga_init)"
proof (induction us rule: rev_induct)
  case Nil
  have "rga_rel {} {} [] [] rga_init"
    by (simp add: rga_rel_def rga_init_def canon_def orphan_ops_def orphans_ok_def)
  then show ?case by (auto simp: inserts_of_def deletes_of_def)
next
  case (snoc u us)
  have "unique_ids (inserts_of us)"
    using snoc.prems by (rule unique_ids_subset) (auto simp: inserts_of_def)
  with snoc.IH obtain L where L: "rga_rel (inserts_of us) (deletes_of us) L [] (fold rga_apply us rga_init)" by blast
  show ?case
  proof (cases u)
    case (UpInsert i p c)
    then have eq: "inserts_of (us @ [u]) = insert (i, p, c) (inserts_of us)" "deletes_of (us @ [u]) = deletes_of us"
      by (auto simp: inserts_of_def deletes_of_def op_insert_def op_delete_def)
    from rga_rel_insert [OF snoc.prems [unfolded eq] L] UpInsert show ?thesis unfolding eq by simp
  next
    case (UpDelete i)
    then have eq: "inserts_of (us @ [u]) = inserts_of us" "deletes_of (us @ [u]) = insert i (deletes_of us)"
      by (auto simp: inserts_of_def deletes_of_def op_insert_def op_delete_def)
    from rga_rel_delete [OF L, of i] UpDelete show ?thesis unfolding eq by auto
  qed
qed

text \<open>The inserts whose whole chain of references is present.\<close>

inductive_set reachable :: "rga_insert_op set \<Rightarrow> rga_insert_op set" for I where
  reach_root: "(i, None, c) \<in> I \<Longrightarrow> (i, None, c) \<in> reachable I"
| reach_child: "(i, Some q, c) \<in> I \<Longrightarrow> (q, r, d) \<in> reachable I \<Longrightarrow> (i, Some q, c) \<in> reachable I"

lemma rga_rel_reachable:
  assumes "rga_rel I D L [] st"
  shows "set L = reachable I"
proof
  have rel: "causal {} L" "set L \<subseteq> I" "orphan_ops (rs_orphans st) = I - set L"
    "fst ` set (rs_orphans st) \<inter> fst ` set L = {}"
    using assms by (simp_all add: rga_rel_def)
  have "set L \<subseteq> reachable I" if "causal {} L" "set L \<subseteq> I"
    using that
  proof (induction L rule: rev_induct)
    case (snoc x L)
    obtain i p c where x: "x = (i, p, c)" by (cases x)
    have "ref_in p (fst ` set L)" "(i, p, c) \<in> I" "set L \<subseteq> reachable I"
      using snoc x by (auto simp: causal_append)
    then have "(i, p, c) \<in> reachable I"
      by (cases p) (auto simp: ref_in_def intro: reachable.intros dest!: subsetD)
    with snoc x show ?case by (auto simp: causal_append)
  qed simp
  with rel show "set L \<subseteq> reachable I" by blast
  have "(i, p, c) \<in> reachable I \<Longrightarrow> (i, p, c) \<in> set L" for i p c
  proof (induction rule: reachable.induct)
    case (reach_root i c)
    have "(i, None, c) \<notin> orphan_ops (rs_orphans st)" by (simp add: orphan_ops_def)
    with reach_root rel(3) show ?case by blast
  next
    case (reach_child i q c r d)
    then have "q \<in> fst ` set L" by force
    with rel(4) have "q \<notin> fst ` set (rs_orphans st)" by blast
    then have "(i, Some q, c) \<notin> orphan_ops (rs_orphans st)" by (force simp: orphan_ops_def)
    with reach_child(1) rel(3) show ?case by blast
  qed
  then show "reachable I \<subseteq> set L" by auto
qed

lemma rga_converges:
  assumes "unique_ids (inserts_of us)" "set us = set vs"
  shows "rs_seq (fold rga_apply us rga_init) = rs_seq (fold rga_apply vs rga_init)"
proof -
  have eq: "inserts_of vs = inserts_of us" "deletes_of vs = deletes_of us"
    using assms(2) by (simp_all add: inserts_of_def deletes_of_def)
  obtain L where L: "rga_rel (inserts_of us) (deletes_of us) L [] (fold rga_apply us rga_init)"
    using rga_run_rel [OF assms(1)] by blast
  obtain M where M: "rga_rel (inserts_of us) (deletes_of us) M [] (fold rga_apply vs rga_init)"
    using rga_run_rel [of vs] assms(1) eq by auto
  have "set L = set M" using rga_rel_reachable [OF L] rga_rel_reachable [OF M] by simp
  with L M canon_unique [of L M] show ?thesis by (simp add: rga_rel_def)
qed

end
