(* ===== verification/Text_Refine.thy ===== *)
theory Text_Refine
  imports Rga
begin

text \<open>
  The chunked projection stands for a flat sequence: the invariant of
  the projection, its abstraction \<open>tp_abs\<close> to the state of \<open>Rga\<close>, and how locations and scans of
  chunks relate to the flat sequence. With at most \<open>MAX_ITEMS\<close> characters the \<open>u32\<close> weights of the indexes never
  saturate, and no operation panics.
\<close>

section \<open>Lists of lists\<close>

lemma concat_split:
  "k < length css \<Longrightarrow> concat css = concat (take k css) @ css ! k @ concat (drop (Suc k) css)"
  by (metis append_take_drop_id concat.simps(2) concat_append Cons_nth_drop_Suc)

lemma take_concat:
  assumes "k < length css" "j \<le> length (css ! k)"
  shows "take (length (concat (take k css)) + j) (concat css) = concat (take k css) @ take j (css ! k)"
  by (subst concat_split [OF assms(1)]) (use assms(2) in simp)

lemma drop_concat:
  assumes "k < length css" "j \<le> length (css ! k)"
  shows "drop (length (concat (take k css)) + j) (concat css) = drop j (css ! k) @ concat (drop (Suc k) css)"
  by (subst concat_split [OF assms(1)]) (use assms(2) in simp)

lemma concat_list_update:
  "k < length css \<Longrightarrow> concat (css[k := xs]) = concat (take k css) @ xs @ concat (drop (Suc k) css)"
  by (subst concat_split [of k]) simp_all

lemma concat_insert_nth:
  assumes "k < length css" "j \<le> length (css ! k)"
  shows "concat (css[k := insert_nth j x (css ! k)]) = insert_nth (length (concat (take k css)) + j) x (concat css)"
  unfolding insert_nth_def take_concat [OF assms] drop_concat [OF assms] concat_list_update [OF assms(1)] by simp

lemma concat_nth:
  assumes "k < length css" "j < length (css ! k)"
  shows "concat css ! (length (concat (take k css)) + j) = css ! k ! j"
    "length (concat (take k css)) + j < length (concat css)"
  by (subst concat_split [OF assms(1)], use assms(2) in \<open>simp add: nth_append\<close>)+

lemma concat_update_nth:
  assumes "k < length css" "j < length (css ! k)"
  shows "concat (css[k := (css ! k)[j := x]]) = (concat css)[length (concat (take k css)) + j := x]"
proof -
  have "(concat css)[length (concat (take k css)) + j := x] =
      (concat (take k css) @ css ! k @ concat (drop (Suc k) css))[length (concat (take k css)) + j := x]"
    using concat_split [OF assms(1)] by simp
  also have "\<dots> = concat (take k css) @ (css ! k)[j := x] @ concat (drop (Suc k) css)"
    using assms(2) by (simp add: list_update_append)
  finally show ?thesis by (simp add: concat_list_update [OF assms(1)])
qed

lemma length_insert_nth [simp]: "length (insert_nth i x xs) = Suc (length xs)"
  by (simp add: insert_nth_def min_def)

lemma set_insert_nth [simp]: "set (insert_nth i x xs) = insert x (set xs)"
  by (metis Un_insert_right append_take_drop_id insert_nth_def list.simps(15) set_append)

lemma map_insert_nth: "map f (insert_nth i x xs) = insert_nth i (f x) (map f xs)"
  by (simp add: insert_nth_def take_map drop_map)

lemma distinct_insert_nth: "distinct (insert_nth i x xs) \<longleftrightarrow> x \<notin> set xs \<and> distinct xs"
proof -
  have "mset (insert_nth i x xs) = add_mset x (mset xs)"
    unfolding insert_nth_def by (metis append_take_drop_id mset.simps(2) mset_append union_mset_add_mset_right)
  then show ?thesis by (metis distinct.simps(2) mset.simps(2) mset_eq_imp_distinct_iff)
qed

lemma filter_insert_nth:
  "filter P (insert_nth i x xs) = (if P x then insert_nth (length (filter P (take i xs))) x (filter P xs) else filter P xs)"
proof -
  have "filter P xs = filter P (take i xs) @ filter P (drop i xs)"
    by (metis append_take_drop_id filter_append)
  then show ?thesis by (simp add: insert_nth_def)
qed

section \<open>Abstraction\<close>

definition chunk_items :: "text_projection \<Rightarrow> text_item list list" where
  "chunk_items p = map (\<lambda>slot. ch_items (tp_chunk p slot)) (tp_order p)"

definition flat :: "text_projection \<Rightarrow> text_item list" where
  "flat p = concat (chunk_items p)"

definition opid :: "actor_table \<Rightarrow> compact_id \<Rightarrow> op_id" where
  "opid t c = OpId (c_lamport c) (at_authors t ! actor_idx c)"

definition abs_item :: "actor_table \<Rightarrow> text_item \<Rightarrow> rga_item" where
  "abs_item t it = (opid t (i_id it), i_ch it, i_deleted it)"

definition abs_orphan ::
  "actor_table \<Rightarrow> compact_id \<times> (compact_id \<times> scalar) list \<Rightarrow> op_id \<times> (op_id \<times> scalar) list" where
  "abs_orphan t e = (opid t (fst e), map (\<lambda>(c, ch). (opid t c, ch)) (snd e))"

definition tp_abs :: "text_projection \<Rightarrow> rga_state" where
  "tp_abs p = \<lparr>rs_seq = map (abs_item (tp_actors p)) (flat p),
     rs_pending = opid (tp_actors p) ` tp_pending_deletes p,
     rs_orphans = map (abs_orphan (tp_actors p)) (tp_orphans p)\<rparr>"

section \<open>Invariant\<close>

definition actors_ok :: "actor_table \<Rightarrow> bool" where
  "actors_ok t \<longleftrightarrow> (\<forall>a i. at_author_to_idx t a = Some i \<longleftrightarrow> i < length (at_authors t) \<and> at_authors t ! i = a)"

definition cid_ok :: "actor_table \<Rightarrow> compact_id \<Rightarrow> bool" where
  "cid_ok t c \<longleftrightarrow> actor_idx c < length (at_authors t)"

definition chunks_ok :: "text_projection \<Rightarrow> bool" where
  "chunks_ok p \<longleftrightarrow> tp_free_slots p = [] \<and> distinct (tp_order p)
     \<and> set (tp_order p) = {..<length (tp_chunks p)}
     \<and> (\<forall>k < length (tp_order p). ch_order_pos (tp_chunk p (tp_order p ! k)) = k)"

definition counts_ok :: "text_projection \<Rightarrow> bool" where
  "counts_ok p \<longleftrightarrow> (\<forall>c \<in> set (tp_chunks p). ch_visible_chars c = length (visible_of (ch_items c))
     \<and> ch_visible_bytes c = bytes_of (visible_of (ch_items c)))"

definition index_ok :: "text_projection \<Rightarrow> bool" where
  "index_ok p \<longleftrightarrow> cpi_repr (tp_char_index p) (map (\<lambda>its. length (visible_of its)) (chunk_items p))
     \<and> cpi_repr (tp_byte_index p) (map (\<lambda>its. bytes_of (visible_of its)) (chunk_items p))"

definition ids_ok :: "text_projection \<Rightarrow> bool" where
  "ids_ok p \<longleftrightarrow> distinct (map i_id (flat p))
     \<and> (\<forall>c slot. tp_id_to_chunk p c = Some slot \<longleftrightarrow>
          slot < length (tp_chunks p) \<and> c \<in> i_id ` set (ch_items (tp_chunk p slot)))"

definition view_ok :: "text_projection \<Rightarrow> bool" where
  "view_ok p \<longleftrightarrow> tp_visible_string p = map i_ch (visible_of (flat p))
     \<and> tp_visible_chars_total p = length (visible_of (flat p))
     \<and> tp_total_items p = length (flat p)
     \<and> tp_tombstone_count p = length (filter i_deleted (flat p))"

definition names_ok :: "text_projection \<Rightarrow> bool" where
  "names_ok p \<longleftrightarrow> actors_ok (tp_actors p)
     \<and> (\<forall>c \<in> i_id ` set (flat p) \<union> tp_pending_deletes p. cid_ok (tp_actors p) c)
     \<and> (\<forall>(q, cs) \<in> set (tp_orphans p). cid_ok (tp_actors p) q \<and> (\<forall>(c, ch) \<in> set cs. cid_ok (tp_actors p) c))"

definition MAX_ITEMS :: nat where
  "MAX_ITEMS = 2 ^ 30 - 1"

text \<open>The part of the invariant that concerns the sequence, with slack for one more chunk.\<close>

definition seq_ok :: "text_projection \<Rightarrow> bool" where
  "seq_ok p \<longleftrightarrow> chunks_ok p \<and> counts_ok p \<and> index_ok p \<and> ids_ok p \<and> view_ok p
     \<and> length (tp_order p) \<le> Suc (length (flat p)) \<and> length (flat p) \<le> MAX_ITEMS"

section \<open>Locations\<close>

definition flat_idx :: "text_projection \<Rightarrow> loc \<Rightarrow> nat" where
  "flat_idx p l = length (concat (take (order_pos l) (chunk_items p))) + item_idx l"

definition at_item :: "text_projection \<Rightarrow> loc \<Rightarrow> bool" where
  "at_item p l \<longleftrightarrow> order_pos l < length (tp_order p) \<and> item_idx l < length (ch_items (tp_chunk p (tp_order p ! order_pos l)))"

definition at_gap :: "text_projection \<Rightarrow> loc \<Rightarrow> bool" where
  "at_gap p l \<longleftrightarrow> order_pos l < length (tp_order p) \<and> item_idx l \<le> length (ch_items (tp_chunk p (tp_order p ! order_pos l)))"

lemma length_chunk_items [simp]: "length (chunk_items p) = length (tp_order p)"
  by (simp add: chunk_items_def)

lemma chunk_items_nth [simp]:
  "k < length (tp_order p) \<Longrightarrow> chunk_items p ! k = ch_items (tp_chunk p (tp_order p ! k))"
  by (simp add: chunk_items_def)

lemma at_item_gap: "at_item p l \<Longrightarrow> at_gap p l" "at_item p l \<Longrightarrow> at_gap p (Loc (order_pos l) (item_idx l + 1))"
  by (auto simp: at_item_def at_gap_def)

lemma item_at_flat: "at_item p l \<Longrightarrow> item_at p l = flat p ! flat_idx p l"
  using concat_nth(1) [of "order_pos l" "chunk_items p" "item_idx l"]
  by (auto simp: at_item_def item_at_def flat_def flat_idx_def)

lemma flat_idx_less: "at_item p l \<Longrightarrow> flat_idx p l < length (flat p)"
  using concat_nth(2) [of "order_pos l" "chunk_items p" "item_idx l"]
  by (simp add: at_item_def flat_def flat_idx_def)

lemma flat_idx_le: "at_gap p l \<Longrightarrow> flat_idx p l \<le> length (flat p)"
  using concat_split [of "order_pos l" "chunk_items p"]
  by (simp add: at_gap_def flat_def flat_idx_def)

lemma flat_take: "at_gap p l \<Longrightarrow> take (flat_idx p l) (flat p) =
    concat (take (order_pos l) (chunk_items p)) @ take (item_idx l) (chunk_items p ! order_pos l)"
  unfolding flat_idx_def flat_def at_gap_def by (rule take_concat) auto

lemma norm_item_loc_gap:
  assumes "at_gap p l"
  shows "if flat_idx p l < length (flat p)
     then \<exists>n. norm_item_loc p l = Some n \<and> at_item p n \<and> flat_idx p n = flat_idx p l
     else norm_item_loc p l = None"
  using assms
proof (induction p l rule: norm_item_loc.induct)
  case (1 p k j)
  let ?cs = "chunk_items p"
  have k: "k < length (tp_order p)" "j \<le> length (ch_items (tp_chunk p (tp_order p ! k)))"
    using "1.prems" by (auto simp: at_gap_def)
  show ?case
  proof (cases "j < length (ch_items (tp_chunk p (tp_order p ! k)))")
    case True
    then have it: "at_item p (Loc k j)" using k by (simp add: at_item_def)
    with True k flat_idx_less [OF it] show ?thesis
      by (simp add: norm_item_loc.simps [of p k j])
  next
    case False
    then have j: "j = length (ch_items (tp_chunk p (tp_order p ! k)))" using k by simp
    have step: "norm_item_loc p (Loc k j) = norm_item_loc p (Loc (k + 1) 0)"
      using k False by (subst norm_item_loc.simps) simp
    show ?thesis
    proof (cases "k + 1 < length (tp_order p)")
      case True
      have idx: "flat_idx p (Loc (k + 1) 0) = flat_idx p (Loc k j)"
        using k j by (simp add: flat_idx_def take_Suc_conv_app_nth)
      have "at_gap p (Loc (k + 1) 0)" using True by (simp add: at_gap_def)
      from "1.IH" [OF k(1) False this] show ?thesis unfolding step idx .
    next
      case last: False
      then have "k + 1 = length ?cs" using k by simp
      then have "take (k + 1) ?cs = ?cs" by simp
      then have "concat ?cs = concat (take k ?cs) @ ?cs ! k"
        using k by (metis length_chunk_items add.commute concat_append concat.simps append_Nil2 plus_1_eq_Suc take_Suc_conv_app_nth)
      then have "flat_idx p (Loc k j) = length (flat p)"
        using j k by (simp add: flat_idx_def flat_def)
      with last step show ?thesis by (simp add: norm_item_loc.simps [of p "Suc k" 0])
    qed
  qed
qed

lemma end_loc_gap:
  assumes "tp_order p \<noteq> []"
  shows "at_gap p (end_loc p)" "flat_idx p (end_loc p) = length (flat p)"
proof -
  let ?cs = "chunk_items p" and ?k = "length (tp_order p) - 1"
  have k: "?k < length ?cs" "Suc ?k = length ?cs" using assms by simp_all
  have last: "last (tp_order p) = tp_order p ! ?k" using assms by (simp add: last_conv_nth)
  show "at_gap p (end_loc p)" using assms last by (simp add: end_loc_def at_gap_def)
  have "drop (Suc ?k) ?cs = []" using k by simp
  then have "concat ?cs = concat (take ?k ?cs) @ ?cs ! ?k"
    using concat_split [OF k(1)] by (metis append_Nil2 concat.simps(1))
  then show "flat_idx p (end_loc p) = length (flat p)"
    using assms last k by (simp add: flat_idx_def end_loc_def flat_def)
qed

lemma at_gap_order: "at_gap p l \<Longrightarrow> tp_order p \<noteq> []"
  by (auto simp: at_gap_def)

lemma rga_scan_gap:
  assumes "at_gap p l"
  shows "at_gap p (rga_scan p cid l)"
    "flat_idx p (rga_scan p cid l) = flat_idx p l +
       length (takeWhile (\<lambda>it. compact_id_greater p (i_id it) cid) (drop (flat_idx p l) (flat p)))"
proof -
  let ?K = "\<lambda>it. compact_id_greater p (i_id it) cid"
  have "at_gap p (rga_scan p cid l) \<and> flat_idx p (rga_scan p cid l) =
      flat_idx p l + length (takeWhile ?K (drop (flat_idx p l) (flat p)))"
    using assms
  proof (induction p cid l rule: rga_scan.induct)
    case (1 p cid l)
    note ng = norm_item_loc_gap [OF "1.prems"]
    show ?case
    proof (cases "flat_idx p l < length (flat p)")
      case False
      with flat_idx_le [OF "1.prems"] have "flat_idx p l = length (flat p)" by simp
      with ng False end_loc_gap [OF at_gap_order [OF "1.prems"]] show ?thesis
        by (simp add: rga_scan.simps [of p cid l])
    next
      case True
      with ng obtain n where n: "norm_item_loc p l = Some n" "at_item p n" "flat_idx p n = flat_idx p l"
        by auto
      have d: "drop (flat_idx p l) (flat p) = item_at p n # drop (Suc (flat_idx p l)) (flat p)"
        using True n by (simp add: item_at_flat Cons_nth_drop_Suc)
      let ?n' = "Loc (order_pos n) (item_idx n + 1)"
      have n': "at_gap p ?n'" "flat_idx p ?n' = Suc (flat_idx p l)"
        using n at_item_gap(2) [OF n(2)] by (simp_all add: flat_idx_def)
      show ?thesis
      proof (cases "compact_id_greater p (i_id (item_at p n)) cid")
        case True
        with "1.IH" [OF n(1) True n'(1)] n n' d show ?thesis
          by (simp add: rga_scan.simps [of p cid l])
      next
        case False
        with n d at_item_gap(1) [OF n(2)] show ?thesis
          by (simp add: rga_scan.simps [of p cid l])
      qed
    qed
  qed
  then show "at_gap p (rga_scan p cid l)"
    "flat_idx p (rga_scan p cid l) = flat_idx p l + length (takeWhile ?K (drop (flat_idx p l) (flat p)))"
    by auto
qed

lemma set_flat:
  assumes "chunks_ok p"
  shows "it \<in> set (flat p) \<longleftrightarrow> (\<exists>slot < length (tp_chunks p). it \<in> set (ch_items (tp_chunk p slot)))"
proof -
  have "set (tp_order p) = {..<length (tp_chunks p)}" using assms by (simp add: chunks_ok_def)
  then show ?thesis by (auto simp: flat_def chunk_items_def)
qed

lemma id_present:
  assumes "chunks_ok p" "ids_ok p"
  shows "tp_id_to_chunk p c = None \<longleftrightarrow> c \<notin> i_id ` set (flat p)"
proof -
  have "tp_id_to_chunk p c \<noteq> None \<longleftrightarrow>
      (\<exists>slot < length (tp_chunks p). c \<in> i_id ` set (ch_items (tp_chunk p slot)))"
    using assms(2) by (auto simp: ids_ok_def)
  also have "\<dots> \<longleftrightarrow> c \<in> i_id ` set (flat p)" using set_flat [OF assms(1)] by blast
  finally show ?thesis by blast
qed

lemma loc_of_id_present:
  assumes "chunks_ok p" "ids_ok p" "c \<in> i_id ` set (flat p)"
  obtains l where "loc_of_id p c = Some l" "at_item p l" "i_id (item_at p l) = c"
proof -
  obtain slot where slot: "tp_id_to_chunk p c = Some slot" "slot < length (tp_chunks p)"
    "c \<in> i_id ` set (ch_items (tp_chunk p slot))"
    using assms id_present [OF assms(1,2), of c] by (auto simp: ids_ok_def)
  have "position (\<lambda>it. i_id it = c) (ch_items (tp_chunk p slot)) \<noteq> None"
    using slot(3) by (auto simp: position_None_iff)
  then obtain j where j: "position (\<lambda>it. i_id it = c) (ch_items (tp_chunk p slot)) = Some j" by blast
  note jd = position_SomeD [OF j]
  obtain k where k: "k < length (tp_order p)" "tp_order p ! k = slot"
    using slot(2) assms(1) by (metis chunks_ok_def in_set_conv_nth lessThan_iff)
  have "ch_order_pos (tp_chunk p slot) = k" using k assms(1) by (auto simp: chunks_ok_def)
  then have "loc_of_id p c = Some (Loc k j)" using slot j by (simp add: loc_of_id_def)
  moreover have "at_item p (Loc k j)" "i_id (item_at p (Loc k j)) = c"
    using k jd by (auto simp: at_item_def item_at_def)
  ultimately show ?thesis using that by blast
qed

lemma loc_of_id_absent:
  "chunks_ok p \<Longrightarrow> ids_ok p \<Longrightarrow> c \<notin> i_id ` set (flat p) \<Longrightarrow> loc_of_id p c = None"
  using id_present [of p c] by (simp add: loc_of_id_def)

lemma visible_prefix_flat:
  assumes "index_ok p" "at_gap p l"
  shows "visible_prefix_at p l = length (visible_of (take (flat_idx p l) (flat p)))"
proof -
  have "prefix_sum (tp_char_index p) (order_pos l) = length (visible_of (concat (take (order_pos l) (chunk_items p))))"
    using assms(1) fenwick_index.psum_chunks [of "tp_char_index p" "\<lambda>it. \<not> i_deleted it" "chunk_items p"]
    by (simp add: index_ok_def visible_of_def)
  with assms(2) show ?thesis
    unfolding flat_take [OF assms(2)] by (simp add: visible_prefix_at_def at_gap_def Let_def visible_of_def)
qed

lemma byte_prefix_flat:
  assumes "index_ok p" "at_gap p l"
  shows "byte_prefix_at p l = bytes_of (visible_of (take (flat_idx p l) (flat p)))"
proof -
  have "prefix_sum (tp_byte_index p) (order_pos l) = bytes_of (visible_of (concat (take (order_pos l) (chunk_items p))))"
    using assms(1) fenwick_index.psum_chunk_sums
      [of "tp_byte_index p" "\<lambda>it. len_utf8 (i_ch it)" "\<lambda>it. \<not> i_deleted it" "chunk_items p"]
    by (simp add: index_ok_def visible_of_def bytes_of_def)
  with assms(2) show ?thesis
    unfolding flat_take [OF assms(2)] by (simp add: byte_prefix_at_def at_gap_def Let_def visible_of_def bytes_of_def)
qed

section \<open>Placement in the flat sequence\<close>

lemma opid_inj:
  assumes "actors_ok t" "cid_ok t c" "cid_ok t d"
  shows "opid t c = opid t d \<longleftrightarrow> c = d"
proof
  assume eq: "opid t c = opid t d"
  have "at_author_to_idx t (at_authors t ! actor_idx c) = Some (actor_idx c)"
    "at_author_to_idx t (at_authors t ! actor_idx d) = Some (actor_idx d)"
    using assms by (simp_all add: actors_ok_def cid_ok_def)
  moreover have "at_authors t ! actor_idx c = at_authors t ! actor_idx d" "c_lamport c = c_lamport d"
    using eq by (simp_all add: opid_def)
  ultimately have "actor_idx c = actor_idx d" by (metis option.inject)
  with \<open>c_lamport c = c_lamport d\<close> show "c = d" by (simp add: compact_id.expand)
qed simp

lemma compact_id_greater_opid:
  assumes "cid_ok (tp_actors p) c" "cid_ok (tp_actors p) d"
  shows "compact_id_greater p c d \<longleftrightarrow> opid (tp_actors p) d < opid (tp_actors p) c"
  using assms by (simp add: compact_id_greater_def compact_key_def author_for_idx_def cid_ok_def
      opid_def less_op_id_def op_id_key_def)

lemma rga_place_nth: "rga_place x s = insert_nth (length (takeWhile (\<lambda>y. fst x < fst y) s)) x s"
  by (induction s) (auto simp: insert_nth_def)

lemma rga_insert_after_nth:
  "j < length s \<Longrightarrow> fst (s ! j) = q \<Longrightarrow> (\<And>i. i < j \<Longrightarrow> fst (s ! i) \<noteq> q) \<Longrightarrow>
   rga_insert_after q x s = insert_nth (Suc j + length (takeWhile (\<lambda>y. fst x < fst y) (drop (Suc j) s))) x s"
proof (induction s arbitrary: j)
  case (Cons y s)
  show ?case
  proof (cases j)
    case 0
    with Cons.prems show ?thesis by (simp add: rga_place_nth insert_nth_def)
  next
    case (Suc i)
    have "fst y \<noteq> q" using Cons.prems(3) [of 0] Suc by simp
    moreover have "rga_insert_after q x s =
        insert_nth (Suc i + length (takeWhile (\<lambda>y. fst x < fst y) (drop (Suc i) s))) x s"
      using Cons.prems Suc by (intro Cons.IH) force+
    ultimately show ?thesis using Suc by (simp add: insert_nth_def)
  qed
qed simp

lemma takeWhile_abs:
  assumes "\<forall>it \<in> set its. cid_ok (tp_actors p) (i_id it)" "cid_ok (tp_actors p) cid"
  shows "length (takeWhile (\<lambda>it. compact_id_greater p (i_id it) cid) its) =
    length (takeWhile (\<lambda>y. opid (tp_actors p) cid < fst y) (map (abs_item (tp_actors p)) its))"
  using assms
proof (induction its)
  case (Cons it its)
  then have "compact_id_greater p (i_id it) cid \<longleftrightarrow> opid (tp_actors p) cid < opid (tp_actors p) (i_id it)"
    by (intro compact_id_greater_opid) simp_all
  with Cons show ?case by (simp add: abs_item_def)
qed simp

definition parent_ok :: "text_projection \<Rightarrow> compact_id option \<Rightarrow> bool" where
  "parent_ok p parent \<longleftrightarrow> (case parent of None \<Rightarrow> True | Some q \<Rightarrow> q \<in> i_id ` set (flat p))"

lemma integrate_start_gap:
  assumes "chunks_ok p" "ids_ok p" "tp_order p \<noteq> []" "parent_ok p parent"
  shows "at_gap p (integrate_start p parent)"
    and "case parent of None \<Rightarrow> flat_idx p (integrate_start p parent) = 0
      | Some q \<Rightarrow> \<exists>j < length (flat p). flat_idx p (integrate_start p parent) = Suc j \<and> i_id (flat p ! j) = q"
proof -
  have *: "at_gap p (integrate_start p parent) \<and> (case parent of None \<Rightarrow> flat_idx p (integrate_start p parent) = 0
      | Some q \<Rightarrow> \<exists>j < length (flat p). flat_idx p (integrate_start p parent) = Suc j \<and> i_id (flat p ! j) = q)"
  proof (cases parent)
    case None
    with assms(3) show ?thesis by (simp add: integrate_start_def at_gap_def flat_idx_def)
  next
    case (Some q)
    then have "q \<in> i_id ` set (flat p)" using assms(4) by (simp add: parent_ok_def)
    then obtain l where l: "loc_of_id p q = Some l" "at_item p l" "i_id (item_at p l) = q"
      by (rule loc_of_id_present [OF assms(1,2)])
    have "integrate_start p parent = Loc (order_pos l) (item_idx l + 1)"
      using Some l by (simp add: integrate_start_def)
    with l at_item_gap(2) [OF l(2)] flat_idx_less [OF l(2)] show ?thesis
      by (simp add: Some item_at_flat) (auto simp: flat_idx_def)
  qed
  then show "at_gap p (integrate_start p parent)"
    "case parent of None \<Rightarrow> flat_idx p (integrate_start p parent) = 0
      | Some q \<Rightarrow> \<exists>j < length (flat p). flat_idx p (integrate_start p parent) = Suc j \<and> i_id (flat p ! j) = q"
    by blast+
qed

lemma find_place_scan:
  "at_gap p (rga_scan p cid (integrate_start p parent)) \<Longrightarrow>
   find_place p cid parent = rga_scan p cid (integrate_start p parent)"
  by (simp add: find_place_def at_gap_def Let_def)

lemma find_place_abs:
  assumes ok: "chunks_ok p" "ids_ok p" "names_ok p" and ne: "tp_order p \<noteq> []" and par: "parent_ok p parent"
    and cid: "cid_ok (tp_actors p) (i_id it)"
  defines "t \<equiv> tp_actors p" and "l \<equiv> find_place p (i_id it) parent"
  shows "at_gap p l"
    "map (abs_item t) (insert_nth (flat_idx p l) it (flat p)) =
       rga_insert (map_option (opid t) parent) (abs_item t it) (map (abs_item t) (flat p))"
proof -
  let ?s = "integrate_start p parent" and ?cid = "i_id it" and ?abs = "map (abs_item t) (flat p)"
  note st = integrate_start_gap [OF ok(1,2) ne par]
  note sc = rga_scan_gap [OF st(1), of ?cid]
  have l: "l = rga_scan p ?cid ?s" unfolding l_def by (rule find_place_scan [OF sc(1)])
  show "at_gap p l" using sc(1) l by simp
  have fid: "\<forall>x \<in> set (flat p). cid_ok t (i_id x)" using ok(3) by (auto simp: names_ok_def t_def)
  then have "\<forall>x \<in> set (drop (flat_idx p ?s) (flat p)). cid_ok t (i_id x)" by (meson in_set_dropD)
  then have idx: "flat_idx p l = flat_idx p ?s +
      length (takeWhile (\<lambda>y. opid t ?cid < fst y) (drop (flat_idx p ?s) ?abs))"
    using sc(2) takeWhile_abs [of _ p ?cid] cid l by (simp add: t_def drop_map)
  have fst_x: "fst (abs_item t it) = opid t ?cid" by (simp add: abs_item_def)
  show "map (abs_item t) (insert_nth (flat_idx p l) it (flat p)) =
      rga_insert (map_option (opid t) parent) (abs_item t it) ?abs"
  proof (cases parent)
    case None
    with st(2) idx fst_x show ?thesis by (simp add: map_insert_nth rga_insert_def rga_place_nth)
  next
    case (Some q)
    with st(2) obtain j where j: "j < length (flat p)" "flat_idx p ?s = Suc j" "i_id (flat p ! j) = q" by auto
    have "fst (?abs ! i) \<noteq> opid t q" if "i < j" for i
    proof -
      have "i_id (flat p ! i) \<noteq> q"
        using that j ok(2) nth_eq_iff_index_eq [of "map i_id (flat p)" i j] by (auto simp: ids_ok_def)
      moreover have "cid_ok t (i_id (flat p ! i))" "cid_ok t q" using fid j that by auto
      ultimately show ?thesis
        using opid_inj [of t "i_id (flat p ! i)" q] that j ok(3) by (simp add: abs_item_def names_ok_def t_def)
    qed
    then have "rga_insert_after (opid t q) (abs_item t it) ?abs =
        insert_nth (Suc j + length (takeWhile (\<lambda>y. opid t ?cid < fst y) (drop (Suc j) ?abs))) (abs_item t it) ?abs"
      using rga_insert_after_nth [of j ?abs "opid t q" "abs_item t it"] j fst_x by (simp add: abs_item_def)
    with Some idx j show ?thesis by (simp add: map_insert_nth rga_insert_def)
  qed
qed

end
