(* ===== verification/Text_Simulation.thy ===== *)
theory Text_Simulation
  imports Text_Refine
begin

text \<open>
  The mutations of the chunked sequence (first chunk, placement, split, integration, deletion)
  keep its invariant, do not panic, and act on the flat sequence as a plain list operation.
\<close>

section \<open>Chunk updates\<close>

lemma tp_chunk_modify:
  "slot < length (tp_chunks p) \<Longrightarrow>
   tp_chunk (chunk_modify slot f p) s = (if s = slot then f (tp_chunk p slot) else tp_chunk p s)"
  by (simp add: tp_chunk_def chunk_modify_def)

lemma order_slot:
  "chunks_ok p \<Longrightarrow> k < length (tp_order p) \<Longrightarrow> tp_order p ! k < length (tp_chunks p)"
  by (metis chunks_ok_def lessThan_iff nth_mem)

lemma chunk_items_modify:
  assumes "chunks_ok p" "k < length (tp_order p)"
  shows "chunk_items (chunk_modify (tp_order p ! k) f p) =
    (chunk_items p)[k := ch_items (f (tp_chunk p (tp_order p ! k)))]"
proof (rule nth_equalityI)
  fix j assume "j < length (chunk_items (chunk_modify (tp_order p ! k) f p))"
  then have j: "j < length (tp_order p)" by (simp add: frame_simps)
  have "tp_order p ! j = tp_order p ! k \<longleftrightarrow> j = k"
    using assms j by (simp add: chunks_ok_def nth_eq_iff_index_eq)
  with j assms show "chunk_items (chunk_modify (tp_order p ! k) f p) ! j =
      (chunk_items p)[k := ch_items (f (tp_chunk p (tp_order p ! k)))] ! j"
    by (simp add: frame_simps tp_chunk_modify order_slot nth_list_update)
qed (simp add: frame_simps)

lemma chunks_ok_modify:
  assumes "chunks_ok p" "slot < length (tp_chunks p)" "\<And>c. ch_order_pos (f c) = ch_order_pos c"
  shows "chunks_ok (chunk_modify slot f p)"
  using assms by (auto simp: chunks_ok_def frame_simps tp_chunk_modify)

lemma counts_ok_iff: "counts_ok p \<longleftrightarrow> (\<forall>s < length (tp_chunks p).
    ch_visible_chars (tp_chunk p s) = length (visible_of (ch_items (tp_chunk p s)))
    \<and> ch_visible_bytes (tp_chunk p s) = bytes_of (visible_of (ch_items (tp_chunk p s))))"
  by (simp add: counts_ok_def tp_chunk_def all_set_conv_all_nth)

lemma counts_ok_modify:
  assumes "counts_ok p" "slot < length (tp_chunks p)"
    and "ch_visible_chars (f (tp_chunk p slot)) = length (visible_of (ch_items (f (tp_chunk p slot))))"
    and "ch_visible_bytes (f (tp_chunk p slot)) = bytes_of (visible_of (ch_items (f (tp_chunk p slot))))"
  shows "counts_ok (chunk_modify slot f p)"
  using assms by (simp add: counts_ok_iff frame_simps tp_chunk_modify)

section \<open>The first chunk\<close>

lemma ensure_chunk_ok:
  assumes "seq_ok p"
  shows "seq_ok (ensure_chunk p)" "tp_order (ensure_chunk p) \<noteq> []" "flat (ensure_chunk p) = flat p"
proof -
  have *: "seq_ok (ensure_chunk p) \<and> tp_order (ensure_chunk p) \<noteq> [] \<and> flat (ensure_chunk p) = flat p"
  proof (cases "tp_order p = []")
    case False
    with assms show ?thesis by (simp add: ensure_chunk_def)
  next
    case True
    with assms have ch: "tp_chunks p = []" "tp_free_slots p = []" "flat p = []"
      by (auto simp: seq_ok_def chunks_ok_def flat_def chunk_items_def)
    define q where "q = rebuild_indexes (p\<lparr>tp_chunks := [chunk_default], tp_order := [0]\<rparr>)"
    have e: "ensure_chunk p = q"
      using True ch by (simp add: q_def ensure_chunk_def alloc_chunk_def chunk_modify_def Let_def chunk_default_def)
    have q: "tp_chunks q = [chunk_default]" "tp_order q = [0]" "tp_free_slots q = []"
      "tp_id_to_chunk q = tp_id_to_chunk p" "tp_visible_string q = tp_visible_string p"
      "tp_visible_chars_total q = tp_visible_chars_total p" "tp_total_items q = tp_total_items p"
      "tp_tombstone_count q = tp_tombstone_count p" "tp_char_index q = rebuild_from_weights [0]"
      "tp_byte_index q = rebuild_from_weights [0]" "ch_items (tp_chunk q 0) = []"
      using ch by (simp_all add: q_def rebuild_indexes_def tp_chunk_def chunk_default_def)
    have its: "chunk_items q = [[]]" "flat q = []"
      by (simp_all add: flat_def chunk_items_def q)
    have "index_ok q"
      using rebuild_from_weights_repr [of "[0]"] by (simp add: index_ok_def its q visible_of_def bytes_of_def)
    moreover have "chunks_ok q" "counts_ok q"
      by (auto simp: chunks_ok_def counts_ok_def q tp_chunk_def chunk_default_def visible_of_def bytes_of_def)
    moreover have "ids_ok q" "view_ok q"
      using assms ch by (auto simp: seq_ok_def ids_ok_def view_ok_def its q)
    ultimately show ?thesis
      using its ch q by (simp add: e seq_ok_def)
  qed
  then show "seq_ok (ensure_chunk p)" "tp_order (ensure_chunk p) \<noteq> []" "flat (ensure_chunk p) = flat p"
    by blast+
qed

section \<open>Strings at byte offsets\<close>

lemma len_utf8_pos [simp]: "0 < len_utf8 c"
  by (simp add: len_utf8_def)

lemma len_utf8_neq [simp]: "len_utf8 c \<noteq> 0"
  by (simp add: len_utf8_def)

lemma len_utf8_le: "len_utf8 c \<le> 4"
  by (simp add: len_utf8_def)

lemma str_len_simps [simp]: "str_len [] = 0" "str_len (c # s) = len_utf8 c + str_len s"
  "str_len (s @ u) = str_len s + str_len u"
  by (simp_all add: str_len_def)

lemma str_len_0 [simp]: "str_len s = 0 \<longleftrightarrow> s = []"
  by (cases s) auto

lemma str_insert_at: "str_insert (str_len a) ch (a @ b) = Ret (a @ ch # b)"
proof (induction a)
  case Nil
  then show ?case by (cases b) simp_all
qed simp

lemma str_split_at: "str_split (str_len a) (a @ b) = Ret (a, b)"
proof (induction a)
  case Nil
  then show ?case by (cases b) simp_all
qed simp

lemma str_remove_at: "str_remove (str_len a) (str_len a + str_len m) (a @ m @ b) = Ret (a @ b)"
  using str_split_at [of a "m @ b"] str_split_at [of m b] by (simp add: str_remove_def)

lemma str_slice_at: "str_slice (str_len a) (str_len a + str_len m) (a @ m @ b) = Ret m"
  using str_split_at [of a "m @ b"] str_split_at [of m b] by (simp add: str_slice_def)

lemma bytes_of_str: "bytes_of its = str_len (map i_ch its)"
  by (simp add: bytes_of_def str_len_def comp_def)

lemma visible_of_simps [simp]: "visible_of [] = []" "visible_of (a @ b) = visible_of a @ visible_of b"
  "visible_of (it # a) = (if i_deleted it then visible_of a else it # visible_of a)"
  by (simp_all add: visible_of_def)

lemma visible_of_le: "length (visible_of its) \<le> length its"
  by (simp add: visible_of_def)

lemma bytes_of_le: "bytes_of its \<le> 4 * length its"
proof (induction its)
  case (Cons it its)
  then show ?case using len_utf8_le [of "i_ch it"] by (simp add: bytes_of_def)
qed (simp add: bytes_of_def)

lemma visible_take_drop: "visible_of its = visible_of (take i its) @ visible_of (drop i its)"
  by (metis append_take_drop_id visible_of_simps(2))

section \<open>Inserting one item\<close>

definition core_ok :: "text_projection \<Rightarrow> bool" where
  "core_ok p \<longleftrightarrow> chunks_ok p \<and> counts_ok p \<and> index_ok p \<and> ids_ok p \<and> view_ok p"

lemma seq_ok_core: "seq_ok p \<longleftrightarrow> core_ok p \<and> length (tp_order p) \<le> Suc (length (flat p)) \<and> length (flat p) \<le> MAX_ITEMS"
  by (auto simp: seq_ok_def core_ok_def)

lemma place_item_ok:
  assumes ok: "chunks_ok p" "ids_ok p" and gap: "at_gap p l" and fresh: "i_id it \<notin> i_id ` set (flat p)"
  defines "q \<equiv> place_item l it p"
  shows "chunks_ok q" "ids_ok q" "flat q = insert_nth (flat_idx p l) it (flat p)"
    "chunk_items q = (chunk_items p)[order_pos l := insert_nth (item_idx l) it (chunk_items p ! order_pos l)]"
    "tp_order q = tp_order p" "length (tp_chunks q) = length (tp_chunks p)"
proof -
  let ?k = "order_pos l" and ?slot = "tp_order p ! order_pos l"
  let ?f = "\<lambda>c. c\<lparr>ch_items := insert_nth (item_idx l) it (ch_items c)\<rparr>"
  have k: "?k < length (tp_order p)" "item_idx l \<le> length (ch_items (tp_chunk p ?slot))"
    using gap by (simp_all add: at_gap_def)
  have slot: "?slot < length (tp_chunks p)" by (rule order_slot [OF ok(1) k(1)])
  have q: "q = (chunk_modify ?slot ?f p)\<lparr>tp_id_to_chunk := (tp_id_to_chunk p)(i_id it \<mapsto> ?slot),
      tp_total_items := tp_total_items p + 1\<rparr>"
    by (simp add: q_def place_item_def Let_def frame_simps)
  have tc: "tp_chunk q s = (if s = ?slot then ?f (tp_chunk p ?slot) else tp_chunk p s)" for s
    using slot by (simp add: q tp_chunk_def chunk_modify_def)
  show ord: "tp_order q = tp_order p" "length (tp_chunks q) = length (tp_chunks p)"
    by (simp_all add: q frame_simps)
  show "chunks_ok q" using ok(1) by (auto simp: chunks_ok_def tc ord) (simp add: q frame_simps)
  show ci: "chunk_items q = (chunk_items p)[?k := insert_nth (item_idx l) it (chunk_items p ! ?k)]"
    using chunk_items_modify [OF ok(1) k(1), of ?f] k by (simp add: q chunk_items_def tp_chunk_def)
  show fl: "flat q = insert_nth (flat_idx p l) it (flat p)"
    using concat_insert_nth [of ?k "chunk_items p" "item_idx l" it] k by (simp add: flat_def ci flat_idx_def)
  have new: "i_id x \<noteq> i_id it" if "s < length (tp_chunks p)" "x \<in> set (ch_items (tp_chunk p s))" for s x
    using fresh set_flat [OF ok(1)] that by (metis imageI)
  have "tp_id_to_chunk q c = Some s \<longleftrightarrow> s < length (tp_chunks q) \<and> c \<in> i_id ` set (ch_items (tp_chunk q s))" for c s
    using ok(2) new slot by (auto simp: ids_ok_def tc ord) (auto simp: q split: if_splits)
  then show "ids_ok q"
    using ok(2) fresh by (simp add: ids_ok_def fl map_insert_nth distinct_insert_nth)
qed

lemma sum_weights:
  "sum_list (map (\<lambda>its. length (visible_of its)) css) = length (visible_of (concat css))"
  "sum_list (map (\<lambda>its. bytes_of (visible_of its)) css) = bytes_of (visible_of (concat css))"
  by (induction css) (simp_all add: bytes_of_def)

lemma MAX_ITEMS_U32: "4 * MAX_ITEMS \<le> U32_MAX"
  by (simp add: MAX_ITEMS_def U32_MAX_def)

lemma weights_bound:
  assumes "length (concat css) \<le> MAX_ITEMS"
  shows "sum_list (map (\<lambda>its. length (visible_of its)) css) \<le> U32_MAX"
    "sum_list (map (\<lambda>its. bytes_of (visible_of its)) css) \<le> U32_MAX"
  unfolding sum_weights
  using assms visible_of_le [of "concat css"] bytes_of_le [of "visible_of (concat css)"] MAX_ITEMS_U32
  by linarith+

lemma place_hidden_ok:
  assumes ok: "core_ok p" and gap: "at_gap p l" and fresh: "i_id it \<notin> i_id ` set (flat p)" and del: "i_deleted it"
  defines "q \<equiv> (place_item l it p)\<lparr>tp_tombstone_count := tp_tombstone_count p + 1\<rparr>"
  shows "core_ok q" "flat q = insert_nth (flat_idx p l) it (flat p)"
proof -
  let ?r = "place_item l it p" and ?k = "order_pos l"
  have k: "?k < length (tp_order p)" using gap by (simp add: at_gap_def)
  note pi = place_item_ok [OF _ _ gap fresh]
  have p: "chunks_ok p" "counts_ok p" "index_ok p" "ids_ok p" "view_ok p" using ok by (simp_all add: core_ok_def)
  note r = pi [OF p(1,4)]
  have q: "tp_chunks q = tp_chunks ?r" "tp_order q = tp_order ?r" "tp_free_slots q = tp_free_slots ?r"
    "tp_id_to_chunk q = tp_id_to_chunk ?r" "tp_char_index q = tp_char_index p" "tp_byte_index q = tp_byte_index p"
    "tp_visible_string q = tp_visible_string p" "tp_visible_chars_total q = tp_visible_chars_total p"
    "tp_total_items q = tp_total_items p + 1" "tp_tombstone_count q = tp_tombstone_count p + 1"
    "chunk_items q = chunk_items ?r" "flat q = flat ?r" "\<And>s. tp_chunk q s = tp_chunk ?r s"
    by (simp_all add: q_def flat_def chunk_items_def tp_chunk_def frame_simps)
      (simp_all add: place_item_def Let_def frame_simps)
  show fl: "flat q = insert_nth (flat_idx p l) it (flat p)" using q r by simp
  have vis: "visible_of (insert_nth j it its) = visible_of its" for j its
    using del by (simp add: visible_of_def filter_insert_nth)
  have "counts_ok (place_item l it p)"
    using counts_ok_modify [OF p(2) order_slot [OF p(1) k], of "\<lambda>c. c\<lparr>ch_items := insert_nth (item_idx l) it (ch_items c)\<rparr>"]
      p(2) order_slot [OF p(1) k] vis
    by (auto simp: place_item_def Let_def counts_ok_iff frame_simps tp_chunk_def)
  then have "counts_ok q" by (simp add: counts_ok_def q)
  moreover have "index_ok q"
  proof -
    have "map (\<lambda>its. length (visible_of its)) (chunk_items q) = map (\<lambda>its. length (visible_of its)) (chunk_items p)"
      "map (\<lambda>its. bytes_of (visible_of its)) (chunk_items q) = map (\<lambda>its. bytes_of (visible_of its)) (chunk_items p)"
      using k by (simp_all add: q r map_update vis list_update_same_conv)
    then show ?thesis using p(3) by (simp add: index_ok_def q)
  qed
  moreover have "chunks_ok q" "ids_ok q" using r by (simp_all add: chunks_ok_def ids_ok_def q)
  moreover have "view_ok q"
    using p(5) flat_idx_le [OF gap] del by (simp add: view_ok_def q fl [unfolded q] vis filter_insert_nth)
  ultimately show "core_ok q" by (simp add: core_ok_def)
qed

lemma index_ok_update:
  assumes "index_ok p" "chunk_items q = (chunk_items p)[k := its]" "length (flat q) \<le> MAX_ITEMS"
    and "tp_char_index q = update_weight k (length (visible_of its)) (tp_char_index p)"
    and "tp_byte_index q = update_weight k (bytes_of (visible_of its)) (tp_byte_index p)"
  shows "index_ok q"
proof -
  note b = weights_bound [OF assms(3) [unfolded flat_def]]
  show ?thesis
    unfolding index_ok_def
    using assms(1) b fenwick_index.upd_repr [of "tp_char_index p" _ k "length (visible_of its)"]
      fenwick_index.upd_repr [of "tp_byte_index p" _ k "bytes_of (visible_of its)"]
    by (simp add: index_ok_def assms(2,4,5) map_update)
qed

lemma insert_visible_string:
  fixes i :: nat
  assumes "tp_visible_string p = map i_ch (visible_of its)" "\<not> i_deleted it"
  defines "off \<equiv> bytes_of (visible_of (take i its))"
  shows "(if off = str_len (tp_visible_string p) then Ret (tp_visible_string p @ [i_ch it])
          else str_insert off (i_ch it) (tp_visible_string p)) = Ret (map i_ch (visible_of (insert_nth i it its)))"
proof -
  let ?a = "map i_ch (visible_of (take i its))" and ?b = "map i_ch (visible_of (drop i its))"
  have s: "tp_visible_string p = ?a @ ?b"
    using assms(1) visible_take_drop [of its i] by simp
  have off: "off = str_len ?a" by (simp add: off_def bytes_of_str)
  have res: "map i_ch (visible_of (insert_nth i it its)) = ?a @ i_ch it # ?b"
    using assms(2) by (simp add: insert_nth_def)
  show ?thesis
  proof (cases "off = str_len (tp_visible_string p)")
    case True
    then have "str_len ?b = 0" using off by (simp add: s)
    then have "?b = []" by (simp only: str_len_0)
    then have "tp_visible_string p = ?a" "map i_ch (visible_of (insert_nth i it its)) = ?a @ [i_ch it]"
      using s res by simp_all
    with True show ?thesis by simp
  next
    case False
    then show ?thesis using str_insert_at [of ?a "i_ch it" ?b] s off res by simp
  qed
qed

lemma show_char_ok:
  assumes ok: "core_ok p" and gap: "at_gap p l" and fresh: "i_id it \<notin> i_id ` set (flat p)"
    and vis: "\<not> i_deleted it" and room: "length (flat p) < MAX_ITEMS"
  shows "\<exists>q. show_char (order_pos l) v (byte_prefix_at p l) (i_ch it) (place_item l it p) = Ret q
     \<and> core_ok q \<and> flat q = insert_nth (flat_idx p l) it (flat p) \<and> tp_order q = tp_order p"
proof -
  let ?r = "place_item l it p" and ?k = "order_pos l" and ?slot = "tp_order p ! order_pos l" and ?ch = "i_ch it"
  have p: "chunks_ok p" "counts_ok p" "index_ok p" "ids_ok p" "view_ok p" using ok by (simp_all add: core_ok_def)
  note r = place_item_ok [OF p(1,4) gap fresh]
  have k: "?k < length (tp_order p)" using gap by (simp add: at_gap_def)
  have slot: "?slot < length (tp_chunks p)" by (rule order_slot [OF p(1) k])
  let ?g = "\<lambda>c. c\<lparr>ch_visible_chars := ch_visible_chars c + 1, ch_visible_bytes := ch_visible_bytes c + len_utf8 ?ch\<rparr>"
  define r1 where "r1 = chunk_modify ?slot ?g ?r"
  let ?its = "insert_nth (item_idx l) it (ch_items (tp_chunk p ?slot))"
  have tr: "tp_chunk ?r s = (if s = ?slot then (tp_chunk p ?slot)\<lparr>ch_items := ?its\<rparr> else tp_chunk p s)" for s
    using slot by (simp add: place_item_def Let_def chunk_modify_def tp_chunk_def)
  have t1: "tp_chunk r1 s = (if s = ?slot then ?g (tp_chunk ?r ?slot) else tp_chunk ?r s)" for s
    using slot r(6) by (simp add: r1_def tp_chunk_modify)
  have new: "length (visible_of ?its) = Suc (length (visible_of (ch_items (tp_chunk p ?slot))))"
    "bytes_of (visible_of ?its) = bytes_of (visible_of (ch_items (tp_chunk p ?slot))) + len_utf8 ?ch"
    using vis visible_take_drop [of "ch_items (tp_chunk p ?slot)" "item_idx l"]
    by (simp_all add: insert_nth_def bytes_of_def)
  have cnt: "ch_visible_chars (tp_chunk r1 ?slot) = length (visible_of ?its)"
    "ch_visible_bytes (tp_chunk r1 ?slot) = bytes_of (visible_of ?its)"
    using p(2) slot by (simp_all add: t1 tr new counts_ok_iff)
  have fr1: "tp_order r1 = tp_order p" "length (tp_chunks r1) = length (tp_chunks p)"
    "tp_free_slots r1 = tp_free_slots p" "tp_id_to_chunk r1 = tp_id_to_chunk ?r"
    "tp_char_index r1 = tp_char_index p" "tp_byte_index r1 = tp_byte_index p"
    "tp_visible_string r1 = tp_visible_string p" "tp_visible_chars_total r1 = tp_visible_chars_total p"
    "tp_total_items r1 = tp_total_items p + 1" "tp_tombstone_count r1 = tp_tombstone_count p"
    using r(5,6) by (simp_all add: r1_def frame_simps) (simp add: place_item_def Let_def frame_simps)
  have ci: "chunk_items r1 = (chunk_items p)[?k := ?its]"
  proof -
    have "ch_items (tp_chunk r1 s) = ch_items (tp_chunk ?r s)" for s by (simp add: t1)
    then have "chunk_items r1 = chunk_items ?r" by (simp add: chunk_items_def fr1 r(5))
    then show ?thesis using r(4) k by simp
  qed
  define s where "s = map i_ch (visible_of (insert_nth (flat_idx p l) it (flat p)))"
  define q where "q = record_dirty_range v (v + 1) (r1\<lparr>
      tp_char_index := update_weight ?k (length (visible_of ?its)) (tp_char_index p),
      tp_byte_index := update_weight ?k (bytes_of (visible_of ?its)) (tp_byte_index p),
      tp_visible_chars_total := tp_visible_chars_total p + 1, tp_visible_string := s\<rparr>)"
  have q: "tp_chunks q = tp_chunks r1" "tp_order q = tp_order p" "tp_free_slots q = tp_free_slots p"
    "tp_id_to_chunk q = tp_id_to_chunk ?r" "tp_visible_string q = s"
    "tp_char_index q = update_weight ?k (length (visible_of ?its)) (tp_char_index p)"
    "tp_byte_index q = update_weight ?k (bytes_of (visible_of ?its)) (tp_byte_index p)"
    "tp_visible_chars_total q = tp_visible_chars_total p + 1" "tp_total_items q = tp_total_items p + 1"
    "tp_tombstone_count q = tp_tombstone_count p" "\<And>s. tp_chunk q s = tp_chunk r1 s"
    by (simp_all add: q_def frame_simps fr1 tp_chunk_def)
  have cq: "chunk_items q = (chunk_items p)[?k := ?its]"
    using ci by (simp add: chunk_items_def q fr1)
  have fq: "flat q = insert_nth (flat_idx p l) it (flat p)"
    using r(3,4) cq k by (simp add: flat_def)
  have "chunks_ok q" using r(1,6) by (auto simp: chunks_ok_def q fr1 t1 r(5) split: if_splits) (simp_all add: frame_simps)
  moreover have "counts_ok q"
    using p(2) new by (simp add: counts_ok_iff q fr1 t1 tr)
  moreover have "ids_ok q" using r(2,6) by (simp add: ids_ok_def q fr1 t1 fq r(3))
  moreover have "index_ok q"
    by (rule index_ok_update [OF p(3) cq]) (use room in \<open>simp_all add: fq q\<close>)
  moreover have "view_ok q"
    using p(5) vis by (simp add: view_ok_def q fq s_def visible_of_def filter_insert_nth)
  ultimately have core: "core_ok q" by (simp add: core_ok_def)
  have "show_char ?k v (byte_prefix_at p l) ?ch ?r = Ret q"
  proof -
    have str: "(if byte_prefix_at p l = str_len (tp_visible_string p) then Ret (tp_visible_string p @ [?ch])
        else str_insert (byte_prefix_at p l) ?ch (tp_visible_string p)) = Ret s"
      unfolding s_def byte_prefix_flat [OF p(3) gap]
      by (rule insert_visible_string) (use p(5) vis in \<open>simp_all add: view_ok_def\<close>)
    have "show_char ?k v (byte_prefix_at p l) ?ch ?r = map_rust (\<lambda>s. record_dirty_range v (v + 1) (r1\<lparr>
        tp_char_index := update_weight ?k (length (visible_of ?its)) (tp_char_index p),
        tp_byte_index := update_weight ?k (bytes_of (visible_of ?its)) (tp_byte_index p),
        tp_visible_chars_total := tp_visible_chars_total p + 1, tp_visible_string := s\<rparr>))
      (if byte_prefix_at p l = str_len (tp_visible_string p) then Ret (tp_visible_string p @ [?ch])
        else str_insert (byte_prefix_at p l) ?ch (tp_visible_string p))"
      unfolding show_char_def Let_def r(5) r1_def [symmetric] by (simp add: fr1 cnt)
    then show ?thesis unfolding str by (simp add: q_def)
  qed
  with core fq q(2) show ?thesis by blast
qed

section \<open>Splitting a chunk\<close>

lemma fold_assign: "fold (\<lambda>x m. m(f x \<mapsto> v)) xs m c = (if c \<in> f ` set xs then Some v else m c)"
  by (induction xs arbitrary: m) auto

lemma set_order_pos_chunk:
  assumes "distinct (tp_order q)" "\<forall>s \<in> set (tp_order q). s < length (tp_chunks q)"
    "\<forall>i \<in> set ks. i < length (tp_order q)" "j < length (tp_order q)"
  shows "tp_chunk (fold set_order_pos ks q) (tp_order q ! j) =
    (if j \<in> set ks then (tp_chunk q (tp_order q ! j))\<lparr>ch_order_pos := j\<rparr> else tp_chunk q (tp_order q ! j))"
  using assms
proof (induction ks arbitrary: q)
  case (Cons i ks)
  have step: "tp_chunk (set_order_pos i q) (tp_order q ! j) =
      (if i = j then (tp_chunk q (tp_order q ! j))\<lparr>ch_order_pos := j\<rparr> else tp_chunk q (tp_order q ! j))"
    using Cons.prems by (simp add: set_order_pos_def tp_chunk_modify nth_eq_iff_index_eq)
  have "tp_order (set_order_pos i q) = tp_order q" "length (tp_chunks (set_order_pos i q)) = length (tp_chunks q)"
    by (simp_all add: set_order_pos_def frame_simps)
  with Cons.IH [of "set_order_pos i q"] Cons.prems step show ?case by auto
qed simp

lemma insert_nth_nth:
  "i \<le> length xs \<Longrightarrow> j < Suc (length xs) \<Longrightarrow>
   insert_nth i x xs ! j = (if j < i then xs ! j else if j = i then x else xs ! (j - 1))"
  by (auto simp: insert_nth_def nth_append nth_Cons' min_def)

definition split_mid :: "nat \<Rightarrow> text_projection \<Rightarrow> text_projection" where
  "split_mid k p =
     (let slot = tp_order p ! k; n = length (tp_chunks p);
          items = ch_items (tp_chunk p slot); mid = length items div 2 in
      p\<lparr>tp_chunks := (tp_chunks p)[slot := recount ((tp_chunk p slot)\<lparr>ch_items := take mid items\<rparr>)]
           @ [recount (chunk_default\<lparr>ch_items := drop mid items\<rparr>)],
        tp_id_to_chunk := fold (\<lambda>it m. m(i_id it \<mapsto> n)) (drop mid items) (tp_id_to_chunk p),
        tp_order := insert_nth (k + 1) n (tp_order p)\<rparr>)"

lemma split_chunk_mid:
  assumes "chunks_ok p" "k < length (tp_order p)"
  shows "split_chunk k p =
    rebuild_indexes (fold set_order_pos [k + 1..<Suc (length (tp_order p))] (split_mid k p))"
proof -
  have slot: "tp_order p ! k < length (tp_chunks p)" by (rule order_slot [OF assms])
  have free: "tp_free_slots p = []" using assms(1) by (simp add: chunks_ok_def)
  have neq: "tp_order p ! k \<noteq> length (tp_chunks p)" using slot by simp
  let ?slot = "tp_order p ! k" and ?n = "length (tp_chunks p)"
  let ?its = "ch_items (tp_chunk p ?slot)"
  let ?q = "p\<lparr>tp_chunks := (tp_chunks p)[?slot := (tp_chunk p ?slot)\<lparr>ch_items := take (length ?its div 2) ?its\<rparr>] @ [chunk_default],
      tp_id_to_chunk := fold (\<lambda>it m. m(i_id it \<mapsto> ?n)) (drop (length ?its div 2) ?its) (tp_id_to_chunk p)\<rparr>"
  let ?p5 = "chunk_modify ?n recount (chunk_modify ?slot recount
      (chunk_modify ?n (\<lambda>c. c\<lparr>ch_items := drop (length ?its div 2) ?its\<rparr>) ?q))"
  have "?p5\<lparr>tp_order := insert_nth (k + 1) ?n (tp_order p)\<rparr> = split_mid k p"
    by (rule text_projection.equality)
      (use slot neq in \<open>simp_all add: split_mid_def chunk_modify_def Let_def tp_chunk_def list_update_append nth_append\<close>)
  moreover have "split_chunk k p = rebuild_indexes (fold set_order_pos [k + 1..<Suc (length (tp_order p))]
      (?p5\<lparr>tp_order := insert_nth (k + 1) ?n (tp_order p)\<rparr>))"
    using free by (simp add: split_chunk_def alloc_chunk_def Let_def frame_simps chunk_modify_def tp_chunk_def)
  ultimately show ?thesis by simp
qed

lemma concat_split_nth:
  assumes "k < length css"
  shows "concat (insert_nth (Suc k) (drop m (css ! k)) (css[k := take m (css ! k)])) = concat css"
proof -
  have "insert_nth (Suc k) (drop m (css ! k)) (css[k := take m (css ! k)]) =
      take k css @ [take m (css ! k), drop m (css ! k)] @ drop (Suc k) css"
    using assms by (simp add: insert_nth_def take_Suc_conv_app_nth)
  then show ?thesis using concat_split [OF assms] by simp
qed

lemma recount_simps [simp]:
  "ch_items (recount c) = ch_items c" "ch_order_pos (recount c) = ch_order_pos c"
  "ch_visible_chars (recount c) = length (visible_of (ch_items c))"
  "ch_visible_bytes (recount c) = bytes_of (visible_of (ch_items c))"
  by (simp_all add: recount_def)

lemma split_chunk_chunks:
  assumes ok: "chunks_ok p" and k: "k < length (tp_order p)"
  defines "q \<equiv> split_chunk k p" and "n \<equiv> length (tp_chunks p)" and "slot \<equiv> tp_order p ! k"
  defines "its \<equiv> ch_items (tp_chunk p slot)"
  shows "tp_order q = insert_nth (k + 1) n (tp_order p)" "length (tp_chunks q) = Suc n" "chunks_ok q"
    "s \<le> n \<Longrightarrow> ch_items (tp_chunk q s) = (if s = slot then take (length its div 2) its
       else if s = n then drop (length its div 2) its else ch_items (tp_chunk p s))"
    "counts_ok p \<Longrightarrow> counts_ok q"
    "tp_id_to_chunk q c = (if c \<in> i_id ` set (drop (length its div 2) its) then Some n else tp_id_to_chunk p c)"
proof -
  let ?m = "split_mid k p" and ?ks = "[k + 1..<Suc (length (tp_order p))]"
  have slot: "slot < n" unfolding slot_def n_def by (rule order_slot [OF ok k])
  have q: "q = rebuild_indexes (fold set_order_pos ?ks ?m)" unfolding q_def by (rule split_chunk_mid [OF ok k])
  have m: "tp_order ?m = insert_nth (k + 1) n (tp_order p)" "length (tp_chunks ?m) = Suc n"
    by (simp_all add: split_mid_def Let_def n_def)
  have tm: "tp_chunk ?m s = (if s = slot then recount ((tp_chunk p slot)\<lparr>ch_items := take (length its div 2) its\<rparr>)
      else if s = n then recount (chunk_default\<lparr>ch_items := drop (length its div 2) its\<rparr>) else tp_chunk p s)"
    if "s \<le> n" for s
    using that slot by (auto simp: split_mid_def Let_def n_def slot_def its_def tp_chunk_def nth_append)
  have po: "distinct (tp_order p)" "set (tp_order p) = {..<n}" "\<forall>j < length (tp_order p). ch_order_pos (tp_chunk p (tp_order p ! j)) = j"
    using ok by (simp_all add: chunks_ok_def n_def)
  have mo: "distinct (tp_order ?m)" "set (tp_order ?m) = {..n}" "length (tp_order ?m) = Suc (length (tp_order p))"
    using po by (auto simp: m distinct_insert_nth)
  have tq: "tp_chunk q (tp_order ?m ! j) = (if j \<in> set ?ks then (tp_chunk ?m (tp_order ?m ! j))\<lparr>ch_order_pos := j\<rparr>
      else tp_chunk ?m (tp_order ?m ! j))" if "j < Suc (length (tp_order p))" for j
  proof -
    have "tp_chunk q (tp_order ?m ! j) = tp_chunk (fold set_order_pos ?ks ?m) (tp_order ?m ! j)"
      by (simp add: q tp_chunk_def frame_simps)
    also have "\<dots> = (if j \<in> set ?ks then (tp_chunk ?m (tp_order ?m ! j))\<lparr>ch_order_pos := j\<rparr>
        else tp_chunk ?m (tp_order ?m ! j))"
      by (rule set_order_pos_chunk) (use mo m(2) that in auto)
    finally show ?thesis .
  qed
  show oq: "tp_order q = insert_nth (k + 1) n (tp_order p)" and cq: "length (tp_chunks q) = Suc n"
    using m by (simp_all add: q frame_simps)
  have same: "ch_items (tp_chunk q s) = ch_items (tp_chunk ?m s) \<and> ch_visible_chars (tp_chunk q s) = ch_visible_chars (tp_chunk ?m s)
      \<and> ch_visible_bytes (tp_chunk q s) = ch_visible_bytes (tp_chunk ?m s)" if "s \<le> n" for s
  proof -
    have "s \<in> set (tp_order ?m)" using that mo(2) by simp
    then obtain j where "j < Suc (length (tp_order p))" "s = tp_order ?m ! j"
      using mo(3) by (metis in_set_conv_nth)
    with tq show ?thesis by simp
  qed
  then show "s \<le> n \<Longrightarrow> ch_items (tp_chunk q s) = (if s = slot then take (length its div 2) its
       else if s = n then drop (length its div 2) its else ch_items (tp_chunk p s))"
    by (simp add: tm)
  show "chunks_ok q"
    unfolding chunks_ok_def
  proof (intro conjI allI impI)
    show "tp_free_slots q = []" using ok by (simp add: q frame_simps split_mid_def Let_def chunks_ok_def)
    show "distinct (tp_order q)" "set (tp_order q) = {..<length (tp_chunks q)}"
      using mo by (simp_all add: oq m cq lessThan_Suc_atMost)
    fix j assume "j < length (tp_order q)"
    then have j: "j < Suc (length (tp_order p))" by (simp add: oq)
    show "ch_order_pos (tp_chunk q (tp_order q ! j)) = j"
    proof (cases "j \<le> k")
      case True
      then have "tp_order ?m ! j = tp_order p ! j" using k by (simp add: m insert_nth_nth)
      moreover have "tp_order p ! j < n" using True k po(2) by (metis lessThan_iff nth_mem order_le_less_trans)
      moreover have "tp_order p ! j = tp_order p ! k \<longleftrightarrow> j = k" using po(1) True k by (simp add: nth_eq_iff_index_eq)
      ultimately show ?thesis
        using tq [OF j] True k po(3) by (auto simp: oq m tm slot_def)
    next
      case False
      then show ?thesis using tq [OF j] j by (simp add: oq m)
    qed
  qed
  show "counts_ok q" if "counts_ok p"
    using that same by (auto simp: counts_ok_iff cq tm less_Suc_eq_le n_def [symmetric])
  show "tp_id_to_chunk q c = (if c \<in> i_id ` set (drop (length its div 2) its) then Some n else tp_id_to_chunk p c)"
    by (simp add: q frame_simps split_mid_def Let_def fold_assign n_def slot_def its_def)
qed

lemma chunk_ids_distinct:
  assumes "ids_ok p" "k < length (tp_order p)"
  shows "distinct (map i_id (ch_items (tp_chunk p (tp_order p ! k))))"
proof -
  have "distinct (map i_id (concat (take k (chunk_items p)) @ chunk_items p ! k @ concat (drop (Suc k) (chunk_items p))))"
    using assms concat_split [of k "chunk_items p"] by (simp add: ids_ok_def flat_def)
  then show ?thesis using assms(2) by simp
qed

lemma split_chunk_ids:
  assumes ok: "chunks_ok p" "ids_ok p" and k: "k < length (tp_order p)" and fl: "flat (split_chunk k p) = flat p"
  shows "ids_ok (split_chunk k p)"
proof -
  let ?q = "split_chunk k p" and ?n = "length (tp_chunks p)" and ?slot = "tp_order p ! k"
  let ?its = "ch_items (tp_chunk p ?slot)"
  let ?mid = "length ?its div 2"
  note sp = split_chunk_chunks [OF ok(1) k]
  have slot: "?slot < ?n" by (rule order_slot [OF ok(1) k])
  have old: "tp_id_to_chunk p c = Some s \<longleftrightarrow> s < ?n \<and> c \<in> i_id ` set (ch_items (tp_chunk p s))" for c s
    using ok(2) by (simp add: ids_ok_def)
  have "distinct (map i_id (take ?mid ?its @ drop ?mid ?its))"
    using chunk_ids_distinct [OF ok(2) k] by simp
  then have disj: "i_id ` set (take ?mid ?its) \<inter> i_id ` set (drop ?mid ?its) = {}"
    unfolding map_append distinct_append by simp
  have its: "i_id ` set ?its = i_id ` set (take ?mid ?its) \<union> i_id ` set (drop ?mid ?its)"
    by (metis append_take_drop_id image_Un set_append)
  have "tp_id_to_chunk ?q c = Some s \<longleftrightarrow> s < Suc ?n \<and> c \<in> i_id ` set (ch_items (tp_chunk ?q s))" for c s
  proof -
    let ?T = "i_id ` set (take ?mid ?its)" and ?D = "i_id ` set (drop ?mid ?its)"
    consider "s = ?slot" | "s = ?n" | "s < ?n" "s \<noteq> ?slot" | "?n < s" by linarith
    then show ?thesis
    proof cases
      case 1
      have "tp_id_to_chunk ?q c = Some s \<longleftrightarrow> c \<notin> ?D \<and> c \<in> ?T \<union> ?D"
        using old [of c s, unfolded its] slot by (simp only: sp(6) 1 its split: if_split) auto
      moreover have "ch_items (tp_chunk ?q s) = take ?mid ?its" using sp(4) [of s] 1 slot by simp
      ultimately show ?thesis using disj slot 1 by (simp only:) auto
    next
      case 2
      have "tp_id_to_chunk ?q c = Some s \<longleftrightarrow> c \<in> ?D" using old [of c s] by (simp add: sp(6) 2)
      moreover have "ch_items (tp_chunk ?q s) = drop ?mid ?its" using sp(4) [of s] 2 slot by simp
      ultimately show ?thesis using 2 by simp
    next
      case 3
      have "c \<in> ?D \<Longrightarrow> tp_id_to_chunk p c = Some ?slot" using old [of c ?slot] its slot by blast
      then have "tp_id_to_chunk ?q c = Some s \<longleftrightarrow> tp_id_to_chunk p c = Some s" using 3 by (auto simp: sp(6))
      moreover have "ch_items (tp_chunk ?q s) = ch_items (tp_chunk p s)" using sp(4) [of s] 3 by simp
      ultimately show ?thesis using old 3 by simp
    next
      case 4
      then show ?thesis using old [of c s] by (simp add: sp(6))
    qed
  qed
  then show ?thesis using ok(2) by (simp add: ids_ok_def fl sp(2))
qed

lemma split_chunk_ok:
  assumes ok: "core_ok p" and k: "k < length (tp_order p)" and sz: "length (flat p) \<le> MAX_ITEMS"
    "length (tp_order p) \<le> length (flat p)"
  shows "core_ok (split_chunk k p)" "flat (split_chunk k p) = flat p"
    "length (tp_order (split_chunk k p)) = Suc (length (tp_order p))"
proof -
  let ?q = "split_chunk k p" and ?n = "length (tp_chunks p)" and ?slot = "tp_order p ! k"
  let ?its = "ch_items (tp_chunk p ?slot)" and ?cs = "chunk_items p"
  have p: "chunks_ok p" "counts_ok p" "index_ok p" "ids_ok p" "view_ok p" using ok by (simp_all add: core_ok_def)
  note sp = split_chunk_chunks [OF p(1) k]
  let ?mid = "length ?its div 2"
  have slot: "?slot < ?n" by (rule order_slot [OF p(1) k])
  have ord: "set (tp_order p) = {..<?n}" "distinct (tp_order p)" using p(1) by (simp_all add: chunks_ok_def)
  have "map (\<lambda>s. ch_items (tp_chunk ?q s)) (tp_order p) = ?cs[k := take ?mid ?its]"
  proof (rule nth_equalityI)
    fix j assume "j < length (map (\<lambda>s. ch_items (tp_chunk ?q s)) (tp_order p))"
    then have j: "j < length (tp_order p)" by simp
    have "tp_order p ! j < ?n" by (rule order_slot [OF p(1) j])
    moreover have "tp_order p ! j = ?slot \<longleftrightarrow> j = k" using ord(2) j k by (simp add: nth_eq_iff_index_eq)
    ultimately show "map (\<lambda>s. ch_items (tp_chunk ?q s)) (tp_order p) ! j = ?cs[k := take ?mid ?its] ! j"
      using j sp(4) [of "tp_order p ! j"] by (auto simp: nth_list_update)
  qed simp
  moreover have "ch_items (tp_chunk ?q ?n) = drop ?mid ?its" using sp(4) [of ?n] slot by simp
  ultimately have ci: "chunk_items ?q = insert_nth (Suc k) (drop ?mid (?cs ! k)) (?cs[k := take ?mid (?cs ! k)])"
    using k by (simp add: chunk_items_def sp(1) map_insert_nth)
  then show fl: "flat ?q = flat p" using concat_split_nth [of k ?cs ?mid] k by (simp add: flat_def)
  show lo: "length (tp_order ?q) = Suc (length (tp_order p))" by (simp add: sp(1))
  have "length (tp_order ?q) < 2 ^ 63" using sz lo by (simp add: MAX_ITEMS_def)
  moreover have w: "map (\<lambda>s. ch_visible_chars (tp_chunk ?q s)) (tp_order ?q) = map (\<lambda>its. length (visible_of its)) (chunk_items ?q)"
    "map (\<lambda>s. ch_visible_bytes (tp_chunk ?q s)) (tp_order ?q) = map (\<lambda>its. bytes_of (visible_of its)) (chunk_items ?q)"
    using sp(5) [OF p(2)] sp(3) by (auto simp: chunk_items_def counts_ok_iff chunks_ok_def)
  moreover have "tp_char_index ?q = rebuild_from_weights (map (\<lambda>s. ch_visible_chars (tp_chunk ?q s)) (tp_order ?q))"
    "tp_byte_index ?q = rebuild_from_weights (map (\<lambda>s. ch_visible_bytes (tp_chunk ?q s)) (tp_order ?q))"
    by (simp_all add: split_chunk_mid [OF p(1) k] rebuild_indexes_def tp_chunk_def)
  ultimately have "index_ok ?q"
    unfolding index_ok_def using weights_bound [of "chunk_items ?q"] sz fl
    by (simp add: rebuild_from_weights_repr flat_def)
  moreover have "ids_ok ?q" by (rule split_chunk_ids [OF p(1,4) k fl])
  moreover have "view_ok ?q" using p(5) by (simp add: view_ok_def fl frame_simps)
  ultimately show "core_ok ?q" using sp(3) sp(5) [OF p(2)] by (simp add: core_ok_def)
qed

lemma split_if_full_ok:
  assumes ok: "core_ok p" and k: "k < length (tp_order p)" and sz: "length (flat p) \<le> MAX_ITEMS"
    "length (tp_order p) \<le> length (flat p)"
  shows "seq_ok (split_if_full k p)" "flat (split_if_full k p) = flat p"
  using split_chunk_ok [OF assms] ok sz by (auto simp: split_if_full_def seq_ok_core)

section \<open>Integration\<close>

lemma core_ok_cong:
  assumes "tp_chunks q = tp_chunks p" "tp_order q = tp_order p" "tp_free_slots q = tp_free_slots p"
    "tp_id_to_chunk q = tp_id_to_chunk p" "tp_char_index q = tp_char_index p" "tp_byte_index q = tp_byte_index p"
    "tp_visible_string q = tp_visible_string p" "tp_visible_chars_total q = tp_visible_chars_total p"
    "tp_total_items q = tp_total_items p" "tp_tombstone_count q = tp_tombstone_count p"
  shows "core_ok q = core_ok p" "flat q = flat p" "at_gap q l = at_gap p l" "flat_idx q l = flat_idx p l"
    "visible_prefix_at q l = visible_prefix_at p l" "byte_prefix_at q l = byte_prefix_at p l" "seq_ok q = seq_ok p"
proof -
  have tc: "tp_chunk q = tp_chunk p" using assms(1) by (simp add: tp_chunk_def fun_eq_iff)
  have ci: "chunk_items q = chunk_items p" by (simp add: chunk_items_def tc assms)
  show fl: "flat q = flat p" by (simp add: flat_def ci)
  show core: "core_ok q = core_ok p"
    by (simp add: core_ok_def chunks_ok_def counts_ok_def index_ok_def ids_ok_def view_ok_def ci fl tc assms)
  show "at_gap q l = at_gap p l" "flat_idx q l = flat_idx p l"
    "visible_prefix_at q l = visible_prefix_at p l" "byte_prefix_at q l = byte_prefix_at p l"
    by (simp_all add: at_gap_def flat_idx_def visible_prefix_at_def byte_prefix_at_def Let_def ci tc assms)
  show "seq_ok q = seq_ok p" by (simp add: seq_ok_core core fl assms)
qed

lemma integrate_ok:
  fixes ch :: scalar
  assumes ok: "seq_ok p" "names_ok p" and fresh: "cid \<notin> i_id ` set (flat p)" and cid: "cid_ok (tp_actors p) cid"
    and par: "parent_ok p parent" and room: "length (flat p) < MAX_ITEMS"
  defines "t \<equiv> tp_actors p" and "it \<equiv> \<lparr>i_id = cid, i_ch = ch, i_deleted = (cid \<in> tp_pending_deletes p)\<rparr>"
  shows "\<exists>q. integrate cid parent ch p = Ret q \<and> seq_ok q \<and> set (flat q) = insert it (set (flat p))
     \<and> length (flat q) = Suc (length (flat p))
     \<and> map (abs_item t) (flat q) = rga_insert (map_option (opid t) parent) (abs_item t it) (map (abs_item t) (flat p))"
proof -
  define e where "e = ensure_chunk p"
  note ec = ensure_chunk_ok [OF ok(1), folded e_def]
  have fe: "tp_actors e = t" "tp_pending_deletes e = tp_pending_deletes p"
    by (simp_all add: e_def frame_simps t_def)
  define l where "l = find_place e cid parent"
  define p1 where "p1 = e\<lparr>tp_pending_deletes := tp_pending_deletes e - {cid}\<rparr>"
  have core: "core_ok e" "chunks_ok e" "ids_ok e" using ec(1) by (simp_all add: seq_ok_core core_ok_def)
  have "names_ok e" using ok(2) ec(3) by (simp add: names_ok_def e_def frame_simps)
  moreover have "parent_ok e parent" using par by (simp add: parent_ok_def ec(3) split: option.splits)
  moreover have "l = find_place e (i_id it) parent" by (simp add: l_def it_def)
  ultimately have gap: "at_gap e l" and abs: "map (abs_item t) (insert_nth (flat_idx e l) it (flat p)) =
      rga_insert (map_option (opid t) parent) (abs_item t it) (map (abs_item t) (flat p))"
    using find_place_abs [OF core(2,3) _ ec(2), of parent it] cid fe(1) ec(3) by (simp_all add: it_def t_def)
  note c1 = core_ok_cong [of p1 e]
  have p1: "core_ok p1" "flat p1 = flat p" "at_gap p1 l" "flat_idx p1 l = flat_idx e l" "tp_order p1 = tp_order e"
    "byte_prefix_at p1 l = byte_prefix_at e l" "visible_prefix_at p1 l = visible_prefix_at e l" "tp_tombstone_count p1 = tp_tombstone_count e"
    using c1 core(1) gap ec(3) by (simp_all add: p1_def)
  have fr: "i_id it \<notin> i_id ` set (flat p1)" using fresh p1(2) by (simp add: it_def)
  have "\<exists>r. (if i_deleted it then Ret ((place_item l it p1)\<lparr>tp_tombstone_count := tp_tombstone_count (place_item l it p1) + 1\<rparr>)
      else show_char (order_pos l) (visible_prefix_at p1 l) (byte_prefix_at p1 l) ch (place_item l it p1)) = Ret r
      \<and> core_ok r \<and> flat r = insert_nth (flat_idx e l) it (flat p) \<and> tp_order r = tp_order e"
  proof (cases "i_deleted it")
    case True
    with place_hidden_ok [OF p1(1,3) fr True] p1 show ?thesis by (simp add: frame_simps)
  next
    case False
    with show_char_ok [OF p1(1,3) fr False, of "visible_prefix_at p1 l"] p1 room show ?thesis by (simp add: it_def)
  qed
  then obtain r where r: "(if i_deleted it then Ret ((place_item l it p1)\<lparr>tp_tombstone_count := tp_tombstone_count (place_item l it p1) + 1\<rparr>)
      else show_char (order_pos l) (visible_prefix_at p1 l) (byte_prefix_at p1 l) ch (place_item l it p1)) = Ret r"
    "core_ok r" "flat r = insert_nth (flat_idx e l) it (flat p)" "tp_order r = tp_order e" by blast
  have "integrate cid parent ch p = map_rust (split_if_full (order_pos l))
      (if i_deleted it then Ret ((place_item l it p1)\<lparr>tp_tombstone_count := tp_tombstone_count (place_item l it p1) + 1\<rparr>)
      else show_char (order_pos l) (visible_prefix_at p1 l) (byte_prefix_at p1 l) ch (place_item l it p1))"
    by (simp add: integrate_def Let_def e_def [symmetric] l_def [symmetric] p1_def it_def fe)
  then have "integrate cid parent ch p = Ret (split_if_full (order_pos l) r)" by (simp only: r(1) rust.map)
  moreover have "seq_ok (split_if_full (order_pos l) r)" "flat (split_if_full (order_pos l) r) = flat r"
    using split_if_full_ok [OF r(2), of "order_pos l"] gap r(3,4) room ec by (simp_all add: at_gap_def seq_ok_core)
  ultimately show ?thesis using abs r(3) by simp
qed

section \<open>Deletion\<close>

abbreviation hide :: "text_item \<Rightarrow> text_item" where
  "hide it \<equiv> it\<lparr>i_deleted := True\<rparr>"

lemma hide_nth:
  assumes "i < length its" "\<not> i_deleted (its ! i)"
  shows "visible_of its = visible_of (take i its) @ its ! i # visible_of (drop (Suc i) its)"
    "visible_of (its[i := hide (its ! i)]) = visible_of (take i its) @ visible_of (drop (Suc i) its)"
    "length (filter i_deleted (its[i := hide (its ! i)])) = Suc (length (filter i_deleted its))"
proof -
  have a: "its = take i its @ its ! i # drop (Suc i) its" using assms(1) by (rule id_take_nth_drop)
  have b: "its[i := hide (its ! i)] = take i its @ hide (its ! i) # drop (Suc i) its"
    using assms(1) by (rule upd_conv_take_nth_drop)
  show "visible_of its = visible_of (take i its) @ its ! i # visible_of (drop (Suc i) its)"
    using arg_cong [OF a, of visible_of] assms(2) by simp
  show "visible_of (its[i := hide (its ! i)]) = visible_of (take i its) @ visible_of (drop (Suc i) its)"
    by (simp add: b)
  have "length (filter i_deleted its) = length (filter i_deleted (take i its)) + length (filter i_deleted (drop (Suc i) its))"
    using arg_cong [OF a, of "\<lambda>xs. length (filter i_deleted xs)"] assms(2) by simp
  then show "length (filter i_deleted (its[i := hide (its ! i)])) = Suc (length (filter i_deleted its))"
    by (simp add: b)
qed

definition mark_item :: "compact_id \<Rightarrow> text_item \<Rightarrow> text_item" where
  "mark_item cid it = (if i_id it = cid then hide it else it)"

lemma mark_item_nth:
  assumes "distinct (map i_id its)" "i < length its" "i_id (its ! i) = cid"
  shows "map (mark_item cid) its = its[i := hide (its ! i)]"
proof (rule nth_equalityI)
  fix j assume "j < length (map (mark_item cid) its)"
  then have j: "j < length its" by simp
  have "i_id (its ! j) = cid \<longleftrightarrow> j = i"
    using assms j nth_eq_iff_index_eq [OF assms(1), of j i] by auto
  with j show "map (mark_item cid) its ! j = its[i := hide (its ! i)] ! j"
    by (simp add: mark_item_def nth_list_update)
qed simp

lemma delete_known_ok:
  assumes ok: "seq_ok p" and known: "cid \<in> i_id ` set (flat p)"
  shows "\<exists>q. delete_known cid p = Ret q \<and> seq_ok q \<and> flat q = map (mark_item cid) (flat p)
    \<and> tp_actors q = tp_actors p \<and> tp_pending_deletes q = tp_pending_deletes p
    \<and> tp_orphans q = tp_orphans p \<and> tp_orphan_ids q = tp_orphan_ids p"
proof -
  have p: "chunks_ok p" "counts_ok p" "index_ok p" "ids_ok p" "view_ok p" using ok by (simp_all add: seq_ok_def)
  obtain l where l: "loc_of_id p cid = Some l" "at_item p l" "i_id (item_at p l) = cid"
    using loc_of_id_present [OF p(1,4) known] by blast
  let ?i = "flat_idx p l" and ?k = "order_pos l" and ?j = "item_idx l"
  let ?slot = "tp_order p ! ?k"
  let ?its = "ch_items (tp_chunk p ?slot)"
  have k: "?k < length (tp_order p)" "?j < length ?its" using l(2) by (simp_all add: at_item_def)
  have slot: "?slot < length (tp_chunks p)" by (rule order_slot [OF p(1) k(1)])
  have i: "?i < length (flat p)" "item_at p l = flat p ! ?i" using flat_idx_less item_at_flat l(2) by blast+
  have at: "?its ! ?j = flat p ! ?i" using i(2) by (simp add: item_at_def)
  have mark: "map (mark_item cid) (flat p) = (flat p)[?i := hide (flat p ! ?i)]"
    by (rule mark_item_nth) (use p(4) i l(3) in \<open>simp_all add: ids_ok_def\<close>)
  show ?thesis
  proof (cases "i_deleted (item_at p l)")
    case True
    then have "hide (flat p ! ?i) = flat p ! ?i" using i(2) by (cases "flat p ! ?i") simp
    then have "map (mark_item cid) (flat p) = flat p" using mark by simp
    with True l ok show ?thesis by (simp add: delete_known_def)
  next
    case False
    then have nd: "\<not> i_deleted (?its ! ?j)" "\<not> i_deleted (flat p ! ?i)" using at i(2) by simp_all
    let ?its' = "?its[?j := hide (?its ! ?j)]" and ?ch = "i_ch (item_at p l)"
    let ?f = "\<lambda>c. c\<lparr>ch_items := (ch_items c)[?j := hide (ch_items c ! ?j)],
        ch_visible_chars := ch_visible_chars c - 1, ch_visible_bytes := ch_visible_bytes c - len_utf8 ?ch\<rparr>"
    let ?a = "visible_of (take ?i (flat p))" and ?b = "visible_of (drop (Suc ?i) (flat p))"
    define r where "r = chunk_modify ?slot ?f p"
    have new: "length (visible_of ?its') = length (visible_of ?its) - 1"
      "bytes_of (visible_of ?its') = bytes_of (visible_of ?its) - len_utf8 ?ch"
      using hide_nth(1,2) [OF k(2) nd(1)] at i(2) by (simp_all add: bytes_of_def)
    have tr: "tp_chunk r s = (if s = ?slot then ?f (tp_chunk p ?slot) else tp_chunk p s)" for s
      using slot by (simp add: r_def tp_chunk_modify)
    have cnt: "ch_visible_chars (tp_chunk r ?slot) = length (visible_of ?its')"
      "ch_visible_bytes (tp_chunk r ?slot) = bytes_of (visible_of ?its')"
      using p(2) slot by (simp_all add: tr new counts_ok_iff)
    define q where "q = record_dirty_range (visible_prefix_at p l) (visible_prefix_at p l) (r\<lparr>
       tp_delete_ops_applied := sat_add (tp_delete_ops_applied p) 1, tp_tombstone_count := tp_tombstone_count p + 1,
       tp_char_index := update_weight ?k (length (visible_of ?its')) (tp_char_index p),
       tp_byte_index := update_weight ?k (bytes_of (visible_of ?its')) (tp_byte_index p),
       tp_visible_chars_total := tp_visible_chars_total p - 1, tp_visible_string := map i_ch (?a @ ?b)\<rparr>)"
    have fr: "tp_chunks q = tp_chunks r" "tp_order q = tp_order p" "tp_free_slots q = tp_free_slots p"
      "tp_id_to_chunk q = tp_id_to_chunk p" "tp_visible_string q = map i_ch (?a @ ?b)"
      "tp_char_index q = update_weight ?k (length (visible_of ?its')) (tp_char_index p)"
      "tp_byte_index q = update_weight ?k (bytes_of (visible_of ?its')) (tp_byte_index p)"
      "tp_visible_chars_total q = tp_visible_chars_total p - 1" "tp_total_items q = tp_total_items p"
      "tp_tombstone_count q = tp_tombstone_count p + 1" "\<And>s. tp_chunk q s = tp_chunk r s"
      "length (tp_chunks r) = length (tp_chunks p)"
      "tp_actors q = tp_actors p" "tp_pending_deletes q = tp_pending_deletes p"
      "tp_orphans q = tp_orphans p" "tp_orphan_ids q = tp_orphan_ids p"
      by (simp_all add: q_def r_def frame_simps tp_chunk_def)
    have cq: "chunk_items q = (chunk_items p)[?k := ?its']"
      using chunk_items_modify [OF p(1) k(1), of ?f] by (simp add: chunk_items_def fr r_def frame_simps)
    have fi: "flat q = (flat p)[?i := hide (flat p ! ?i)]"
      using concat_update_nth [of ?k "chunk_items p" ?j "hide (?its ! ?j)"] k cq at
      by (simp add: flat_idx_def flat_def)
    have fq: "flat q = map (mark_item cid) (flat p)" using fi mark by simp
    note hn = hide_nth [OF i(1) nd(2)]
    have "chunks_ok q" using p(1) by (auto simp: chunks_ok_def fr tr)
    moreover have "counts_ok q" using p(2) new by (simp add: counts_ok_iff fr tr)
    moreover have "index_ok q"
      by (rule index_ok_update [OF p(3) cq]) (use ok in \<open>simp_all add: fr fi seq_ok_def\<close>)
    moreover have "ids_ok q"
    proof -
      have "map i_id (flat q) = map i_id (flat p)" by (simp add: fq mark_item_def)
      moreover have "i_id ` set (ch_items (tp_chunk q s)) = i_id ` set (ch_items (tp_chunk p s))" for s
      proof -
        have "map i_id ?its' = map i_id ?its" by (simp add: map_update list_update_same_conv k)
        then have "i_id ` set ?its' = i_id ` set ?its" by (metis set_map)
        then show ?thesis by (simp add: fr tr)
      qed
      ultimately show ?thesis using p(4) by (simp add: ids_ok_def fr)
    qed
    moreover have "view_ok q" using p(5) hn by (simp add: view_ok_def fr fi)
    ultimately have "seq_ok q" using ok by (simp add: seq_ok_def fr fi)
    moreover have "delete_known cid p = Ret q"
    proof -
      have str: "tp_visible_string p = map i_ch ?a @ [?ch] @ map i_ch ?b"
        using p(5) hn(1) i(2) by (simp add: view_ok_def)
      have off: "byte_prefix_at p l = str_len (map i_ch ?a)"
        using byte_prefix_flat [OF p(3) at_item_gap(1) [OF l(2)]] by (simp add: bytes_of_str)
      have rem: "str_remove (byte_prefix_at p l) (byte_prefix_at p l + len_utf8 ?ch) (tp_visible_string p) = Ret (map i_ch (?a @ ?b))"
        using str_remove_at [of "map i_ch ?a" "[?ch]" "map i_ch ?b"] unfolding str off by simp
      let ?p1 = "p\<lparr>tp_delete_ops_applied := sat_add (tp_delete_ops_applied p) 1, tp_tombstone_count := tp_tombstone_count p + 1\<rparr>"
      have p1: "visible_prefix_at ?p1 l = visible_prefix_at p l" "byte_prefix_at ?p1 l = byte_prefix_at p l" "item_at ?p1 l = item_at p l"
        by (simp_all add: visible_prefix_at_def byte_prefix_at_def item_at_def tp_chunk_def Let_def)
      have m: "chunk_modify ?slot ?f ?p1 = r\<lparr>tp_delete_ops_applied := sat_add (tp_delete_ops_applied p) 1, tp_tombstone_count := tp_tombstone_count p + 1\<rparr>"
        by (simp add: r_def chunk_modify_def)
      have tm: "tp_chunk (chunk_modify ?slot ?f ?p1) ?slot = tp_chunk r ?slot" unfolding m by (simp add: tp_chunk_def)
      show ?thesis
        unfolding delete_known_def l(1) using False
        by (simp add: Let_def p1 [simplified] tm [simplified] cnt frame_simps rem) (simp add: q_def m [simplified])
    qed
    ultimately show ?thesis using fq fr by blast
  qed
qed

end
