(* ===== verification/Text_Correct.thy ===== *)
theory Text_Correct
  imports Text_Simulation
begin

text \<open>
  The text projection implements the flat sequence of \<open>Rga\<close>: with the invariant \<open>tp_inv\<close> and room
  for the characters involved, every update returns, keeps the invariant, and acts on the
  abstraction as the abstract operation.
\<close>

section \<open>Renaming an association list\<close>

lemma map_of_rename:
  assumes "inj_on f (insert k (fst ` set xs))"
  shows "map_of (map (\<lambda>e. (f (fst e), g (snd e))) xs) (f k) = map_option g (map_of xs k)"
  using assms
proof (induction xs)
  case (Cons e xs)
  have "f (fst e) = f k \<longleftrightarrow> fst e = k" using Cons.prems by (auto simp: inj_on_def)
  moreover have "inj_on f (insert k (fst ` set xs))" using Cons.prems by (rule inj_on_subset) auto
  ultimately show ?case using Cons.IH by (cases e) auto
qed simp

lemma delete_rename:
  assumes "inj_on f (insert k (fst ` set xs))"
  shows "AList.delete (f k) (map (\<lambda>e. (f (fst e), g (snd e))) xs) = map (\<lambda>e. (f (fst e), g (snd e))) (AList.delete k xs)"
  using assms
proof (induction xs)
  case (Cons e xs)
  have "f (fst e) = f k \<longleftrightarrow> fst e = k" using Cons.prems by (auto simp: inj_on_def)
  moreover have "inj_on f (insert k (fst ` set xs))" using Cons.prems by (rule inj_on_subset) auto
  ultimately show ?case using Cons.IH by (cases e) auto
qed simp

lemma update_rename:
  assumes "inj_on f (insert k (fst ` set xs))"
  shows "AList.update (f k) (g v) (map (\<lambda>e. (f (fst e), g (snd e))) xs) = map (\<lambda>e. (f (fst e), g (snd e))) (AList.update k v xs)"
  using assms
proof (induction xs)
  case (Cons e xs)
  have "f (fst e) = f k \<longleftrightarrow> fst e = k" using Cons.prems by (auto simp: inj_on_def)
  moreover have "inj_on f (insert k (fst ` set xs))" using Cons.prems by (rule inj_on_subset) auto
  ultimately show ?case using Cons.IH by (cases e) auto
qed simp

lemma image_remove: "(\<And>x. x \<in> A \<Longrightarrow> f x = f a \<longleftrightarrow> x = a) \<Longrightarrow> f ` (A - {a}) = f ` A - {f a}"
  by auto

section \<open>Invariant\<close>

definition waiting :: "text_projection \<Rightarrow> (compact_id \<times> scalar) list" where
  "waiting p = concat (map snd (tp_orphans p))"

text \<open>\<open>cs\<close> are children taken from the table of early arrivals that are still to be adopted.\<close>

definition drain_ok :: "(compact_id \<times> scalar) list \<Rightarrow> text_projection \<Rightarrow> bool" where
  "drain_ok cs p \<longleftrightarrow> seq_ok p \<and> names_ok p \<and> (\<forall>c \<in> fst ` set cs. cid_ok (tp_actors p) c)
     \<and> distinct (map fst (tp_orphans p)) \<and> distinct (map fst (cs @ waiting p))
     \<and> fst ` set (cs @ waiting p) \<inter> i_id ` set (flat p) = {}
     \<and> tp_orphan_ids p = fst ` set (cs @ waiting p)
     \<and> length (flat p) + length cs + length (waiting p) \<le> MAX_ITEMS"

definition tp_inv :: "text_projection \<Rightarrow> bool" where
  "tp_inv p \<longleftrightarrow> drain_ok [] p"

definition tp_size :: "text_projection \<Rightarrow> nat" where
  "tp_size p = length (flat p) + length (waiting p)"

lemma names_cids:
  assumes "names_ok p"
  shows "actors_ok (tp_actors p)" "\<And>it. it \<in> set (flat p) \<Longrightarrow> cid_ok (tp_actors p) (i_id it)"
    "\<And>c. c \<in> tp_pending_deletes p \<Longrightarrow> cid_ok (tp_actors p) c"
    "\<And>q cs. (q, cs) \<in> set (tp_orphans p) \<Longrightarrow> cid_ok (tp_actors p) q"
    "\<And>q cs c ch. (q, cs) \<in> set (tp_orphans p) \<Longrightarrow> (c, ch) \<in> set cs \<Longrightarrow> cid_ok (tp_actors p) c"
  using assms by (auto simp: names_ok_def)

lemma names_okI:
  assumes "actors_ok (tp_actors p)" "\<And>it. it \<in> set (flat p) \<Longrightarrow> cid_ok (tp_actors p) (i_id it)"
    "\<And>c. c \<in> tp_pending_deletes p \<Longrightarrow> cid_ok (tp_actors p) c"
    "\<And>q cs. (q, cs) \<in> set (tp_orphans p) \<Longrightarrow> cid_ok (tp_actors p) q"
    "\<And>q cs c ch. (q, cs) \<in> set (tp_orphans p) \<Longrightarrow> (c, ch) \<in> set cs \<Longrightarrow> cid_ok (tp_actors p) c"
  shows "names_ok p"
  using assms by (auto simp: names_ok_def)

lemma opid_eq_iff:
  "names_ok p \<Longrightarrow> cid_ok (tp_actors p) c \<Longrightarrow> cid_ok (tp_actors p) d \<Longrightarrow>
   opid (tp_actors p) c = opid (tp_actors p) d \<longleftrightarrow> c = d"
  by (rule opid_inj) (simp_all add: names_cids)

lemma opid_pending:
  "names_ok p \<Longrightarrow> cid_ok (tp_actors p) c \<Longrightarrow> opid (tp_actors p) c \<in> rs_pending (tp_abs p) \<longleftrightarrow> c \<in> tp_pending_deletes p"
  using opid_eq_iff [of p c] names_cids(3) [of p] by (auto simp: tp_abs_def)

lemma opid_present:
  "names_ok p \<Longrightarrow> cid_ok (tp_actors p) c \<Longrightarrow> opid (tp_actors p) c \<in> seq_ids (rs_seq (tp_abs p)) \<longleftrightarrow> c \<in> i_id ` set (flat p)"
proof -
  assume n: "names_ok p" and c: "cid_ok (tp_actors p) c"
  have "seq_ids (rs_seq (tp_abs p)) = opid (tp_actors p) ` i_id ` set (flat p)"
    by (simp add: tp_abs_def abs_item_def image_image)
  moreover have "opid (tp_actors p) c = opid (tp_actors p) d \<longleftrightarrow> c = d" if "d \<in> i_id ` set (flat p)" for d
    using that opid_eq_iff [OF n c] names_cids(2) [OF n] by blast
  ultimately show ?thesis by (simp only: image_iff [of _ "opid (tp_actors p)"]) blast
qed

lemma orphan_keys_inj:
  assumes "names_ok p" "cid_ok (tp_actors p) q"
  shows "inj_on (opid (tp_actors p)) (insert q (fst ` set (tp_orphans p)))"
proof (rule inj_onI)
  fix x y assume xy: "x \<in> insert q (fst ` set (tp_orphans p))" "y \<in> insert q (fst ` set (tp_orphans p))"
    "opid (tp_actors p) x = opid (tp_actors p) y"
  have "cid_ok (tp_actors p) z" if "z \<in> insert q (fst ` set (tp_orphans p))" for z
    using that assms names_cids(4) [OF assms(1)] by force
  with xy opid_eq_iff [OF assms(1)] show "x = y" by blast
qed

definition abs_children :: "actor_table \<Rightarrow> (compact_id \<times> scalar) list \<Rightarrow> (op_id \<times> scalar) list" where
  "abs_children t cs = map (\<lambda>(c, ch). (opid t c, ch)) cs"

lemma rs_orphans_abs:
  "rs_orphans (tp_abs p) = map (\<lambda>e. (opid (tp_actors p) (fst e), abs_children (tp_actors p) (snd e))) (tp_orphans p)"
  by (simp add: tp_abs_def abs_orphan_def [abs_def] abs_children_def)

lemma orphan_lookup_abs:
  "names_ok p \<Longrightarrow> cid_ok (tp_actors p) q \<Longrightarrow>
   map_of (rs_orphans (tp_abs p)) (opid (tp_actors p) q) = map_option (abs_children (tp_actors p)) (map_of (tp_orphans p) q)"
  unfolding rs_orphans_abs by (rule map_of_rename) (rule orphan_keys_inj)

section \<open>Early arrivals\<close>

lemma integrate_abs:
  fixes ch :: scalar
  assumes ok: "seq_ok p" "names_ok p" and fresh: "cid \<notin> i_id ` set (flat p)" and cid: "cid_ok (tp_actors p) cid"
    and par: "parent_ok p parent" and room: "length (flat p) < MAX_ITEMS"
  shows "\<exists>q. integrate cid parent ch p = Ret q \<and> seq_ok q \<and> names_ok q
     \<and> i_id ` set (flat q) = insert cid (i_id ` set (flat p)) \<and> length (flat q) = Suc (length (flat p))
     \<and> tp_actors q = tp_actors p \<and> tp_orphans q = tp_orphans p \<and> tp_orphan_ids q = tp_orphan_ids p
     \<and> tp_abs q = rga_integrate (opid (tp_actors p) cid) (map_option (opid (tp_actors p)) parent) ch (tp_abs p)"
proof -
  let ?t = "tp_actors p" and ?d = "cid \<in> tp_pending_deletes p"
  obtain q where q: "integrate cid parent ch p = Ret q" "seq_ok q"
    "set (flat q) = insert \<lparr>i_id = cid, i_ch = ch, i_deleted = ?d\<rparr> (set (flat p))"
    "length (flat q) = Suc (length (flat p))"
    "map (abs_item ?t) (flat q) = rga_insert (map_option (opid ?t) parent)
       (abs_item ?t \<lparr>i_id = cid, i_ch = ch, i_deleted = ?d\<rparr>) (map (abs_item ?t) (flat p))"
    using integrate_ok [OF assms, of ch] by blast
  note fr = integrate_frames [OF q(1)]
  have ids: "i_id ` set (flat q) = insert cid (i_id ` set (flat p))" by (simp add: q(3))
  have pend: "opid ?t ` (tp_pending_deletes p - {cid}) = opid ?t ` tp_pending_deletes p - {opid ?t cid}"
  proof (rule image_remove)
    fix c assume "c \<in> tp_pending_deletes p"
    then show "opid ?t c = opid ?t cid \<longleftrightarrow> c = cid" by (intro opid_eq_iff ok(2) cid names_cids(3))
  qed
  have "names_ok q" using ok(2) cid fr by (auto simp: names_ok_def ids)
  moreover have "tp_abs q = rga_integrate (opid ?t cid) (map_option (opid ?t) parent) ch (tp_abs p)"
    using q(5) fr pend opid_pending [OF ok(2) cid]
    by (simp add: tp_abs_def rga_integrate_def abs_item_def)
  ultimately show ?thesis using q(1,2,4) ids fr by blast
qed

lemma adopt_abs:
  assumes ok: "drain_ok (c # cs) p" and q: "q \<in> i_id ` set (flat p)"
  shows "\<exists>p'. adopt q c p = Ret p' \<and> drain_ok cs p' \<and> tp_actors p' = tp_actors p \<and> tp_orphans p' = tp_orphans p
     \<and> i_id ` set (flat p') = insert (fst c) (i_id ` set (flat p))
     \<and> tp_abs p' = rga_adopt (opid (tp_actors p) q) (opid (tp_actors p) (fst c), snd c) (tp_abs p)
     \<and> length (flat p') = Suc (length (flat p))"
proof -
  let ?p = "p\<lparr>tp_orphan_ids := tp_orphan_ids p - {fst c}\<rparr>"
  note cong = core_ok_cong [of ?p p]
  have seq: "seq_ok ?p" "flat ?p = flat p" using ok cong by (simp_all add: drain_ok_def)
  have names: "names_ok ?p" using ok seq by (simp add: drain_ok_def names_ok_def)
  have abs: "tp_abs ?p = tp_abs p" by (simp add: tp_abs_def seq)
  have c: "fst c \<notin> i_id ` set (flat ?p)" "cid_ok (tp_actors ?p) (fst c)" "length (flat ?p) < MAX_ITEMS"
    using ok seq by (auto simp: drain_ok_def)
  have par: "parent_ok ?p (Some q)" using q seq by (simp add: parent_ok_def)
  obtain p' where p': "integrate (fst c) (Some q) (snd c) ?p = Ret p'" "seq_ok p'" "names_ok p'"
    "i_id ` set (flat p') = insert (fst c) (i_id ` set (flat p))" "length (flat p') = Suc (length (flat p))"
    "tp_actors p' = tp_actors p" "tp_orphans p' = tp_orphans p" "tp_orphan_ids p' = tp_orphan_ids p - {fst c}"
    "tp_abs p' = rga_integrate (opid (tp_actors p) (fst c)) (Some (opid (tp_actors p) q)) (snd c) (tp_abs p)"
    using integrate_abs [OF seq(1) names c(1,2) par c(3), of "snd c"] seq abs by auto
  have w: "waiting p' = waiting p" by (simp add: waiting_def p'(7))
  have "fst c \<notin> fst ` set (cs @ waiting p)" using ok by (auto simp: drain_ok_def)
  then have "drain_ok cs p'"
    using ok p'(2-8) w by (auto simp: drain_ok_def)
  then show ?thesis using p' by (auto simp: adopt_def rga_adopt_def)
qed

lemma fold_adopt_abs:
  assumes "drain_ok cs p" "q \<in> i_id ` set (flat p)"
  shows "\<exists>p'. fold_rust (adopt q) cs p = Ret p' \<and> tp_inv p' \<and> tp_actors p' = tp_actors p \<and> tp_orphans p' = tp_orphans p
     \<and> i_id ` set (flat p') = fst ` set cs \<union> i_id ` set (flat p)
     \<and> tp_abs p' = fold (rga_adopt (opid (tp_actors p) q)) (abs_children (tp_actors p) cs) (tp_abs p)
     \<and> length (flat p') = length (flat p) + length cs"
  using assms
proof (induction cs arbitrary: p)
  case Nil
  then show ?case by (simp add: tp_inv_def abs_children_def)
next
  case (Cons c cs)
  obtain p1 where p1: "adopt q c p = Ret p1" "drain_ok cs p1" "tp_actors p1 = tp_actors p" "tp_orphans p1 = tp_orphans p"
    "i_id ` set (flat p1) = insert (fst c) (i_id ` set (flat p))"
    "tp_abs p1 = rga_adopt (opid (tp_actors p) q) (opid (tp_actors p) (fst c), snd c) (tp_abs p)"
    "length (flat p1) = Suc (length (flat p))"
    using adopt_abs [OF Cons.prems] by blast
  then have "q \<in> i_id ` set (flat p1)" using Cons.prems(2) by simp
  from Cons.IH [OF p1(2) this] p1 show ?case by (cases c) (auto simp: abs_children_def)
qed

lemma alist_delete_absent: "k \<notin> fst ` set xs \<Longrightarrow> AList.delete k xs = xs"
  by (induction xs) auto

lemma waiting_delete:
  assumes "distinct (map fst (tp_orphans p))" "map_of (tp_orphans p) q = Some cs"
  shows "mset (waiting p) = mset cs + mset (waiting (p\<lparr>tp_orphans := AList.delete q (tp_orphans p)\<rparr>))"
proof -
  have "mset (concat (map snd os)) = mset cs + mset (concat (map snd (AList.delete q os)))"
    if "distinct (map fst os)" "map_of os q = Some cs" for os :: "(compact_id \<times> (compact_id \<times> scalar) list) list"
    using that
  proof (induction os)
    case (Cons e os)
    have "AList.delete q os = os" if "fst e = q"
      using Cons.prems(1) that by (intro alist_delete_absent) simp
    with Cons show ?case by (cases e) (auto split: if_splits)
  qed simp
  from this [OF assms] show ?thesis by (simp add: waiting_def)
qed

lemma mset_distinct_fst: "mset xs = mset ys \<Longrightarrow> distinct (map fst xs) \<longleftrightarrow> distinct (map fst ys)"
  by (metis mset_eq_imp_distinct_iff mset_map)

lemma set_alist_delete: "set (AList.delete k xs) = {e \<in> set xs. fst e \<noteq> k}"
  by (induction xs) auto

lemma take_children_ok:
  assumes ok: "tp_inv p" and q: "map_of (tp_orphans p) q = Some cs"
  defines "p1 \<equiv> p\<lparr>tp_orphans := AList.delete q (tp_orphans p)\<rparr>"
  shows "drain_ok cs p1" "flat p1 = flat p" "tp_size p = length (flat p) + length cs + length (waiting p1)"
    "tp_abs p1 = (tp_abs p)\<lparr>rs_orphans := AList.delete (opid (tp_actors p) q) (rs_orphans (tp_abs p))\<rparr>"
proof -
  have inv: "seq_ok p" "names_ok p" "distinct (map fst (tp_orphans p))" using ok by (simp_all add: tp_inv_def drain_ok_def)
  show fl: "flat p1 = flat p" using core_ok_cong [of p1 p] by (simp add: p1_def)
  have "seq_ok p1" using core_ok_cong [of p1 p] inv(1) by (simp add: p1_def)
  have qin: "(q, cs) \<in> set (tp_orphans p)" using q by (rule map_of_SomeD)
  have w: "mset (cs @ waiting p1) = mset (waiting p)" using waiting_delete [OF inv(3) q] by (simp add: p1_def)
  then have w': "set (cs @ waiting p1) = set (waiting p)" "length (cs @ waiting p1) = length (waiting p)"
    "distinct (map fst (cs @ waiting p1)) \<longleftrightarrow> distinct (map fst (waiting p))"
    by (metis mset_eq_setD, metis mset_eq_length, metis mset_distinct_fst)
  have names: "names_ok p1" using inv(2) by (auto simp: names_ok_def fl) (auto simp: p1_def set_alist_delete)
  have "\<forall>c \<in> fst ` set cs. cid_ok (tp_actors p1) c" using names_cids(5) [OF inv(2) qin] by (auto simp: p1_def)
  moreover have "distinct (map fst (tp_orphans p1))" using inv(3) by (simp add: p1_def distinct_delete)
  moreover have "tp_orphan_ids p1 = fst ` set (waiting p)" "fst ` set (waiting p) \<inter> i_id ` set (flat p) = {}"
    "distinct (map fst (waiting p))" "length (flat p) + length (waiting p) \<le> MAX_ITEMS"
    using ok by (simp_all add: tp_inv_def drain_ok_def p1_def)
  ultimately show "drain_ok cs p1" unfolding drain_ok_def w' fl using \<open>seq_ok p1\<close> names w'(2) by simp
  show "tp_size p = length (flat p) + length cs + length (waiting p1)" using w'(2) by (simp add: tp_size_def)
  have "AList.delete (opid (tp_actors p) q) (rs_orphans (tp_abs p)) = rs_orphans (tp_abs p1)"
    unfolding rs_orphans_abs using delete_rename [OF orphan_keys_inj [OF inv(2) names_cids(4) [OF inv(2) qin]]]
    by (simp add: p1_def)
  then show "tp_abs p1 = (tp_abs p)\<lparr>rs_orphans := AList.delete (opid (tp_actors p) q) (rs_orphans (tp_abs p))\<rparr>"
    by (simp add: tp_abs_def fl) (simp add: p1_def)
qed

lemma map_fst_children: "map fst (abs_children t cs) = map (opid t) (map fst cs)"
  by (simp add: abs_children_def split_beta comp_def)

lemma drain_loop_abs:
  "tp_inv p \<Longrightarrow> set stack \<subseteq> i_id ` set (flat p) \<Longrightarrow>
   \<exists>p'. drain_loop stack p = Ret p' \<and> tp_inv p' \<and> tp_size p' = tp_size p
     \<and> tp_abs p' = rga_drain (map (opid (tp_actors p)) stack) (tp_abs p)"
proof (induction stack p rule: drain_loop.induct)
  case (1 p)
  then show ?case by simp
next
  case (2 q stack p)
  have inv: "names_ok p" using "2.prems"(1) by (simp add: tp_inv_def drain_ok_def)
  have "q \<in> i_id ` set (flat p)" using "2.prems"(2) by simp
  then have "cid_ok (tp_actors p) q" using names_cids(2) [OF inv] by auto
  note look = orphan_lookup_abs [OF inv this]
  show ?case
  proof (cases "map_of (tp_orphans p) q")
    case None
    with "2.IH"(1) "2.prems" look show ?thesis by simp
  next
    case (Some cs)
    let ?p1 = "p\<lparr>tp_orphans := AList.delete q (tp_orphans p)\<rparr>"
    note tk = take_children_ok [OF "2.prems"(1) Some]
    have "q \<in> i_id ` set (flat ?p1)" using "2.prems"(2) tk(2) by simp
    from fold_adopt_abs [OF tk(1) this] obtain p2 where p2:
      "fold_rust (adopt q) cs ?p1 = Ret p2" "tp_inv p2" "tp_actors p2 = tp_actors p" "tp_orphans p2 = AList.delete q (tp_orphans p)"
      "i_id ` set (flat p2) = fst ` set cs \<union> i_id ` set (flat ?p1)"
      "tp_abs p2 = fold (rga_adopt (opid (tp_actors p) q)) (abs_children (tp_actors p) cs) (tp_abs ?p1)"
      "length (flat p2) = length (flat ?p1) + length cs" by auto
    have sz: "tp_size p2 = tp_size p"
      using p2(4,7) tk(2,3) by (simp add: tp_size_def waiting_def)
    have "set (rev (map fst cs) @ stack) \<subseteq> i_id ` set (flat p2)" using p2(5) tk(2) "2.prems"(2) by auto
    from "2.IH"(2) [OF Some p2(1) p2(2) this] obtain p3 where
      "drain_loop (rev (map fst cs) @ stack) p2 = Ret p3" "tp_inv p3" "tp_size p3 = tp_size p"
      "tp_abs p3 = rga_drain (map (opid (tp_actors p)) (rev (map fst cs) @ stack)) (tp_abs p2)"
      using p2(3) sz by auto
    with Some p2(1) p2(6) tk(4) look show ?thesis
      by (simp add: map_fst_children rev_map)
  qed
qed

lemma drain_orphans_abs:
  assumes "tp_inv p" "c \<in> i_id ` set (flat p)"
  shows "\<exists>p'. drain_orphans_of c p = Ret p' \<and> tp_inv p' \<and> tp_size p' = tp_size p
     \<and> tp_abs p' = rga_drain [opid (tp_actors p) c] (tp_abs p)"
proof (cases "tp_orphans p = []")
  case True
  then have "rs_orphans (tp_abs p) = []" by (simp add: tp_abs_def)
  with True assms(1) show ?thesis by (simp add: drain_orphans_of_def)
next
  case False
  with drain_loop_abs [OF assms(1), of "[c]"] assms(2) show ?thesis by (simp add: drain_orphans_of_def)
qed

section \<open>Naming authors\<close>

definition table_extends :: "actor_table \<Rightarrow> actor_table \<Rightarrow> bool" where
  "table_extends t t' \<longleftrightarrow> actors_ok t' \<and> (\<exists>more. at_authors t' = at_authors t @ more)"

lemma table_extends_opid:
  assumes "table_extends t t'" "cid_ok t c"
  shows "cid_ok t' c" "opid t' c = opid t c"
  using assms by (auto simp: table_extends_def cid_ok_def opid_def nth_append)

lemma from_op_id_ok:
  assumes "actors_ok t"
  shows "table_extends t (snd (from_op_id i t))" "cid_ok (snd (from_op_id i t)) (fst (from_op_id i t))"
    "opid (snd (from_op_id i t)) (fst (from_op_id i t)) = i"
proof -
  have *: "table_extends t (snd (from_op_id i t)) \<and> cid_ok (snd (from_op_id i t)) (fst (from_op_id i t))
      \<and> opid (snd (from_op_id i t)) (fst (from_op_id i t)) = i"
  proof (cases "at_author_to_idx t (oid_author i)")
    case (Some idx)
    with assms have "idx < length (at_authors t)" "at_authors t ! idx = oid_author i" by (auto simp: actors_ok_def)
    with Some assms show ?thesis
      by (cases i) (auto simp: from_op_id_def get_or_insert_def table_extends_def cid_ok_def opid_def)
  next
    case None
    then have "i' < length (at_authors t) \<Longrightarrow> at_authors t ! i' \<noteq> oid_author i" for i'
      using assms by (metis actors_ok_def option.distinct(1))
    then have "actors_ok (t\<lparr>at_authors := at_authors t @ [oid_author i],
        at_author_to_idx := (at_author_to_idx t)(oid_author i \<mapsto> length (at_authors t))\<rparr>)"
      using assms by (auto simp: actors_ok_def nth_append less_Suc_eq)
    with None show ?thesis
      by (cases i) (auto simp: from_op_id_def get_or_insert_def table_extends_def cid_ok_def opid_def Let_def nth_append)
  qed
  then show "table_extends t (snd (from_op_id i t))" "cid_ok (snd (from_op_id i t)) (fst (from_op_id i t))"
    "opid (snd (from_op_id i t)) (fst (from_op_id i t)) = i" by blast+
qed

lemma rename_ok:
  assumes ok: "tp_inv p" and t: "table_extends (tp_actors p) t"
  defines "q \<equiv> p\<lparr>tp_actors := t\<rparr>"
  shows "tp_inv q" "tp_abs q = tp_abs p" "tp_size q = tp_size p" "flat q = flat p" "waiting q = waiting p"
proof -
  have inv: "seq_ok p" "names_ok p" using ok by (simp_all add: tp_inv_def drain_ok_def)
  note op = table_extends_opid [OF t]
  show fl: "flat q = flat p" using core_ok_cong [of q p] by (simp add: q_def)
  have "seq_ok q" using core_ok_cong [of q p] inv(1) by (simp add: q_def)
  moreover have "names_ok q"
    by (rule names_okI) (use t names_cids [OF inv(2)] op(1) in \<open>auto simp: fl table_extends_def q_def fl [unfolded q_def]\<close>)
  moreover show w: "waiting q = waiting p" by (simp add: waiting_def q_def)
  ultimately show "tp_inv q" using ok by (simp add: tp_inv_def drain_ok_def fl) (simp add: q_def)
  show "tp_size q = tp_size p" by (simp add: tp_size_def fl w)
  have "map (abs_item t) (flat p) = map (abs_item (tp_actors p)) (flat p)"
    using names_cids(2) [OF inv(2)] op by (simp add: abs_item_def)
  moreover have "opid t ` tp_pending_deletes p = opid (tp_actors p) ` tp_pending_deletes p"
    using names_cids(3) [OF inv(2)] op by (intro image_cong) simp_all
  moreover have "map (abs_orphan t) (tp_orphans p) = map (abs_orphan (tp_actors p)) (tp_orphans p)"
  proof (rule map_cong [OF refl])
    fix e assume e: "e \<in> set (tp_orphans p)"
    obtain k cs where "e = (k, cs)" by (cases e)
    with e names_cids(4,5) [OF inv(2)] op show "abs_orphan t e = abs_orphan (tp_actors p) e"
      by (auto simp: abs_orphan_def)
  qed
  ultimately show "tp_abs q = tp_abs p" by (simp add: tp_abs_def fl) (simp add: q_def)
qed

lemma compact_id_for_ok:
  assumes "tp_inv p" "compact_id_for i p = (c, q)"
  shows "tp_inv q" "tp_abs q = tp_abs p" "tp_size q = tp_size p" "flat q = flat p" "waiting q = waiting p"
    "table_extends (tp_actors p) (tp_actors q)" "cid_ok (tp_actors q) c" "opid (tp_actors q) c = i"
proof -
  have "actors_ok (tp_actors p)" using assms(1) names_cids(1) by (simp add: tp_inv_def drain_ok_def)
  note f = from_op_id_ok [OF this, of i]
  have q: "q = p\<lparr>tp_actors := snd (from_op_id i (tp_actors p))\<rparr>" "c = fst (from_op_id i (tp_actors p))"
    using assms(2) by (auto simp: compact_id_for_def split: prod.splits)
  note r = rename_ok [OF assms(1) f(1)]
  show "tp_inv q" "tp_abs q = tp_abs p" "tp_size q = tp_size p" "flat q = flat p" "waiting q = waiting p"
    using r by (simp_all add: q)
  show "table_extends (tp_actors p) (tp_actors q)" "cid_ok (tp_actors q) c" "opid (tp_actors q) c = i"
    using f by (simp_all add: q)
qed

section \<open>Inserts\<close>

lemma tp_inv_cong:
  assumes "tp_chunks q = tp_chunks p" "tp_order q = tp_order p" "tp_free_slots q = tp_free_slots p"
    "tp_id_to_chunk q = tp_id_to_chunk p" "tp_char_index q = tp_char_index p" "tp_byte_index q = tp_byte_index p"
    "tp_visible_string q = tp_visible_string p" "tp_visible_chars_total q = tp_visible_chars_total p"
    "tp_total_items q = tp_total_items p" "tp_tombstone_count q = tp_tombstone_count p"
    "tp_actors q = tp_actors p" "tp_pending_deletes q = tp_pending_deletes p"
    "tp_orphans q = tp_orphans p" "tp_orphan_ids q = tp_orphan_ids p"
  shows "tp_inv q \<longleftrightarrow> tp_inv p" "tp_abs q = tp_abs p" "tp_size q = tp_size p" "flat q = flat p"
    "waiting q = waiting p"
proof -
  note c = core_ok_cong [of q p, OF assms(1-10)]
  show "flat q = flat p" by (rule c)
  show w: "waiting q = waiting p" by (simp add: waiting_def assms)
  show "tp_inv q \<longleftrightarrow> tp_inv p" by (simp add: tp_inv_def drain_ok_def names_ok_def c w assms)
  show "tp_abs q = tp_abs p" "tp_size q = tp_size p" by (simp_all add: tp_abs_def tp_size_def c w assms)
qed

lemma orphan_ids_abs: "orphan_ids_of (rs_orphans (tp_abs p)) = opid (tp_actors p) ` fst ` set (waiting p)"
proof -
  have "orphan_ids_of (rs_orphans (tp_abs p)) = (\<Union>e \<in> set (tp_orphans p). fst ` set (abs_children (tp_actors p) (snd e)))"
    unfolding rs_orphans_abs orphan_ids_of_def by (simp add: image_Union split_beta)
  also have "\<dots> = (\<Union>e \<in> set (tp_orphans p). opid (tp_actors p) ` fst ` set (snd e))"
    by (simp add: abs_children_def image_image split_beta)
  finally show ?thesis by (simp add: waiting_def image_UN)
qed

lemma waiting_cid:
  assumes "names_ok p" "c \<in> fst ` set (waiting p)"
  shows "cid_ok (tp_actors p) c"
proof -
  obtain e ch where "e \<in> set (tp_orphans p)" "(c, ch) \<in> set (snd e)"
    using assms(2) by (auto simp: waiting_def)
  then show ?thesis using names_cids(5) [OF assms(1), of "fst e" "snd e"] by simp
qed

lemma opid_waiting:
  assumes "names_ok p" "cid_ok (tp_actors p) c"
  shows "opid (tp_actors p) c \<in> orphan_ids_of (rs_orphans (tp_abs p)) \<longleftrightarrow> c \<in> fst ` set (waiting p)"
proof -
  have "opid (tp_actors p) c = opid (tp_actors p) d \<longleftrightarrow> c = d" if "d \<in> fst ` set (waiting p)" for d
    by (rule opid_eq_iff [OF assms waiting_cid [OF assms(1) that]])
  then show ?thesis unfolding orphan_ids_abs by (simp only: image_iff [of _ "opid (tp_actors p)"]) blast
qed

lemma integrate_step:
  assumes inv: "tp_inv p" and c: "cid_ok (tp_actors p) cid" "cid \<notin> i_id ` set (flat p)" "cid \<notin> fst ` set (waiting p)"
    and par: "parent_ok p parent" and room: "tp_size p < MAX_ITEMS"
  shows "\<exists>p'. rbind (integrate cid parent ch p) (drain_orphans_of cid) = Ret p' \<and> tp_inv p' \<and> tp_size p' = Suc (tp_size p)
    \<and> tp_abs p' = rga_drain [opid (tp_actors p) cid]
         (rga_integrate (opid (tp_actors p) cid) (map_option (opid (tp_actors p)) parent) ch (tp_abs p))"
proof -
  have ok: "seq_ok p" "names_ok p" using inv by (simp_all add: tp_inv_def drain_ok_def)
  obtain q where q: "integrate cid parent ch p = Ret q" "seq_ok q" "names_ok q"
    "i_id ` set (flat q) = insert cid (i_id ` set (flat p))" "length (flat q) = Suc (length (flat p))"
    "tp_actors q = tp_actors p" "tp_orphans q = tp_orphans p" "tp_orphan_ids q = tp_orphan_ids p"
    "tp_abs q = rga_integrate (opid (tp_actors p) cid) (map_option (opid (tp_actors p)) parent) ch (tp_abs p)"
    using integrate_abs [OF ok c(2,1) par, of ch] room by (auto simp: tp_size_def)
  have w: "waiting q = waiting p" by (simp add: waiting_def q(7))
  have "tp_inv q"
    using inv q(2-8) c(3) room by (simp add: tp_inv_def drain_ok_def w tp_size_def)
  moreover have "cid \<in> i_id ` set (flat q)" by (simp add: q(4))
  ultimately obtain p' where "drain_orphans_of cid q = Ret p'" "tp_inv p'" "tp_size p' = tp_size q"
    "tp_abs p' = rga_drain [opid (tp_actors p) cid] (tp_abs q)"
    using drain_orphans_abs [of q cid] q(6) by auto
  then show ?thesis using q w by (simp add: tp_size_def)
qed

lemma waiting_update:
  "distinct (map fst os) \<Longrightarrow> mset (concat (map snd (AList.update q ((case map_of os q of None \<Rightarrow> [] | Some cs \<Rightarrow> cs) @ [x]) os)))
     = add_mset x (mset (concat (map snd os)))"
proof (induction os)
  case (Cons e os)
  have "map_of os q = None" if "fst e = q" using Cons.prems that by (auto simp: map_of_eq_None_iff)
  with Cons show ?case by (cases e) auto
qed simp

lemma push_orphan:
  fixes ch :: scalar
  assumes inv: "tp_inv p" and c: "cid_ok (tp_actors p) cid" "cid \<notin> i_id ` set (flat p)" "cid \<notin> fst ` set (waiting p)"
    and q: "cid_ok (tp_actors p) q" and room: "tp_size p < MAX_ITEMS"
  defines "old \<equiv> case map_of (tp_orphans p) q of None \<Rightarrow> [] | Some cs \<Rightarrow> cs"
  defines "r \<equiv> p\<lparr>tp_orphans := AList.update q (old @ [(cid, ch)]) (tp_orphans p), tp_orphan_ids := insert cid (tp_orphan_ids p)\<rparr>"
  shows "tp_inv r" "tp_size r = Suc (tp_size p)"
    "tp_abs r = (tp_abs p)\<lparr>rs_orphans := AList.update (opid (tp_actors p) q)
       ((case map_of (rs_orphans (tp_abs p)) (opid (tp_actors p) q) of None \<Rightarrow> [] | Some cs \<Rightarrow> cs) @ [(opid (tp_actors p) cid, ch)])
       (rs_orphans (tp_abs p))\<rparr>"
proof -
  have ok: "seq_ok p" "names_ok p" "distinct (map fst (tp_orphans p))" using inv by (simp_all add: tp_inv_def drain_ok_def)
  have fl: "flat r = flat p" and seq: "seq_ok r" using core_ok_cong [of r p] ok(1) by (simp_all add: r_def)
  have wm: "mset (waiting r) = mset ((cid, ch) # waiting p)"
    using waiting_update [OF ok(3)] by (simp add: waiting_def r_def old_def)
  have w: "set (waiting r) = insert (cid, ch) (set (waiting p))" "length (waiting r) = Suc (length (waiting p))"
    "distinct (map fst (waiting r)) \<longleftrightarrow> distinct (map fst ((cid, ch) # waiting p))"
    using mset_eq_setD [OF wm] mset_eq_length [OF wm] mset_distinct_fst [OF wm] by simp_all
  have old: "cid_ok (tp_actors p) x" if "(x, y) \<in> set old" for x y
  proof (cases "map_of (tp_orphans p) q")
    case (Some cs)
    with that show ?thesis using names_cids(5) [OF ok(2) map_of_SomeD [OF Some]] by (simp add: old_def)
  qed (use that in \<open>simp add: old_def\<close>)
  have "names_ok r"
  proof (rule names_okI)
    show "cid_ok (tp_actors r) k" "(d, y) \<in> set cs \<Longrightarrow> cid_ok (tp_actors r) d" if "(k, cs) \<in> set (tp_orphans r)" for k cs d y
      using that q c(1) old names_cids(4,5) [OF ok(2)] ok(3)
      by (auto simp: r_def set_alist_update split: if_splits)
  qed (use names_cids [OF ok(2)] fl in \<open>auto simp: r_def\<close>)
  moreover have "distinct (map fst (tp_orphans r))" using ok(3) by (simp add: r_def distinct_update)
  ultimately show "tp_inv r"
    using inv seq c room w by (simp add: tp_inv_def drain_ok_def fl tp_size_def) (simp add: r_def)
  show "tp_size r = Suc (tp_size p)" by (simp add: tp_size_def fl w)
  have "rs_orphans (tp_abs r) = AList.update (opid (tp_actors p) q) (abs_children (tp_actors p) (old @ [(cid, ch)])) (rs_orphans (tp_abs p))"
    unfolding rs_orphans_abs
    using update_rename [OF orphan_keys_inj [OF ok(2) q], of "abs_children (tp_actors p)" "old @ [(cid, ch)]"]
    by (simp add: r_def)
  moreover have "abs_children (tp_actors p) old = (case map_of (rs_orphans (tp_abs p)) (opid (tp_actors p) q) of None \<Rightarrow> [] | Some cs \<Rightarrow> cs)"
    unfolding orphan_lookup_abs [OF ok(2) q] by (simp add: old_def abs_children_def split: option.split)
  ultimately show "tp_abs r = (tp_abs p)\<lparr>rs_orphans := AList.update (opid (tp_actors p) q)
       ((case map_of (rs_orphans (tp_abs p)) (opid (tp_actors p) q) of None \<Rightarrow> [] | Some cs \<Rightarrow> cs) @ [(opid (tp_actors p) cid, ch)])
       (rs_orphans (tp_abs p))\<rparr>"
    by (simp add: tp_abs_def fl abs_children_def) (simp add: r_def)
qed

lemma apply_insert_abs:
  assumes inv: "tp_inv p0" and room: "tp_size p0 < MAX_ITEMS"
  shows "\<exists>p'. apply_insert i after_id ch p0 = Ret p' \<and> tp_inv p' \<and> tp_size p' \<le> Suc (tp_size p0)
     \<and> tp_abs p' = rga_apply_insert i after_id ch (tp_abs p0)"
proof -
  obtain cid p where cp: "compact_id_for i p0 = (cid, p)" by fastforce
  note c = compact_id_for_ok [OF inv cp]
  have names: "names_ok p" "chunks_ok p" "ids_ok p" "tp_orphan_ids p = fst ` set (waiting p)"
    using c(1) by (simp_all add: tp_inv_def drain_ok_def seq_ok_def)
  have seen: "tp_id_to_chunk p cid \<noteq> None \<or> cid \<in> tp_orphan_ids p \<longleftrightarrow>
      i \<in> seq_ids (rs_seq (tp_abs p0)) \<or> i \<in> orphan_ids_of (rs_orphans (tp_abs p0))"
    using id_present [OF names(2,3), of cid] opid_present [OF names(1) c(7)] opid_waiting [OF names(1) c(7)] c(2,8) names(4)
    by simp
  show ?thesis
  proof (cases "tp_id_to_chunk p cid \<noteq> None \<or> cid \<in> tp_orphan_ids p")
    case True
    then have "apply_insert i after_id ch p0 = Ret p" by (simp add: apply_insert_def cp)
    with True seen c show ?thesis by (simp add: rga_apply_insert_def)
  next
    case False
    let ?p1 = "p\<lparr>tp_insert_ops_applied := sat_add (tp_insert_ops_applied p) 1\<rparr>"
    note cg = tp_inv_cong [of ?p1 p]
    have p1: "tp_inv ?p1" "tp_abs ?p1 = tp_abs p0" "tp_size ?p1 = tp_size p0" "flat ?p1 = flat p" "waiting ?p1 = waiting p"
      using cg c by simp_all
    have new: "cid \<notin> i_id ` set (flat p)" "cid \<notin> fst ` set (waiting p)"
      using False id_present [OF names(2,3)] names(4) by simp_all
    show ?thesis
    proof (cases after_id)
      case None
      have "parent_ok ?p1 None" by (simp add: parent_ok_def)
      moreover have "apply_insert i after_id ch p0 = rbind (integrate cid None ch ?p1) (drain_orphans_of cid)"
        using False None by (simp add: apply_insert_def cp)
      ultimately show ?thesis
        using integrate_step [OF p1(1), of cid None ch] new c p1 room None False seen
        by (auto simp: rga_apply_insert_def)
    next
      case (Some a)
      obtain q p2 where qp: "compact_id_for a ?p1 = (q, p2)" by fastforce
      note d = compact_id_for_ok [OF p1(1) qp]
      have cid2: "cid_ok (tp_actors p2) cid" "opid (tp_actors p2) cid = i"
        using table_extends_opid [OF d(6), of cid] c(7,8) by simp_all
      have n2: "names_ok p2" "chunks_ok p2" "ids_ok p2" using d(1) by (simp_all add: tp_inv_def drain_ok_def seq_ok_def)
      have known: "tp_id_to_chunk p2 q = None \<longleftrightarrow> a \<notin> seq_ids (rs_seq (tp_abs p0))"
        using id_present [OF n2(2,3)] opid_present [OF n2(1) d(7)] d(2,8) p1(2) by simp
      have new2: "cid \<notin> i_id ` set (flat p2)" "cid \<notin> fst ` set (waiting p2)" "tp_size p2 < MAX_ITEMS"
        using new d p1 room by simp_all
      show ?thesis
      proof (cases "tp_id_to_chunk p2 q = None")
        case True
        note po = push_orphan [OF d(1) cid2(1) new2(1,2) d(7) new2(3), of ch]
        have "apply_insert i after_id ch p0 = Ret (p2\<lparr>tp_orphans := AList.update q
            ((case map_of (tp_orphans p2) q of None \<Rightarrow> [] | Some cs \<Rightarrow> cs) @ [(cid, ch)]) (tp_orphans p2),
            tp_orphan_ids := insert cid (tp_orphan_ids p2)\<rparr>)"
          using False Some True by (simp add: apply_insert_def cp qp)
        moreover have "\<not> (i \<in> seq_ids (rs_seq (tp_abs p0)) \<or> i \<in> orphan_ids_of (rs_orphans (tp_abs p0)))" using False seen by blast
        ultimately show ?thesis
          using po Some True known cid2(2) d p1 by (simp add: rga_apply_insert_def)
      next
        case in_seq: False
        have "parent_ok p2 (Some q)" using in_seq id_present [OF n2(2,3), of q] by (simp add: parent_ok_def)
        moreover have "apply_insert i after_id ch p0 = rbind (integrate cid (Some q) ch p2) (drain_orphans_of cid)"
          using False Some in_seq by (auto simp: apply_insert_def cp qp)
        moreover have "\<not> (i \<in> seq_ids (rs_seq (tp_abs p0)) \<or> i \<in> orphan_ids_of (rs_orphans (tp_abs p0)))" using False seen by blast
        ultimately show ?thesis
          using integrate_step [OF d(1) cid2(1) new2(1,2), of "Some q" ch] new2(3) cid2(2) d p1 Some known in_seq
          by (auto simp: rga_apply_insert_def)
      qed
    qed
  qed
qed

section \<open>Deletes\<close>

lemma abs_item_mark:
  assumes "\<And>it. it \<in> set its \<Longrightarrow> opid t (i_id it) = opid t cid \<longleftrightarrow> i_id it = cid"
  shows "map (abs_item t) (map (mark_item cid) its) = rga_mark (opid t cid) (map (abs_item t) its)"
  using assms by (auto simp: rga_mark_def abs_item_def mark_item_def)

lemma delete_known_abs:
  assumes inv: "tp_inv p" and known: "cid \<in> i_id ` set (flat p)"
  shows "\<exists>p'. delete_known cid p = Ret p' \<and> tp_inv p' \<and> tp_size p' = tp_size p
     \<and> flat p' = map (mark_item cid) (flat p) \<and> tp_actors p' = tp_actors p
     \<and> tp_abs p' = (tp_abs p)\<lparr>rs_seq := rga_mark (opid (tp_actors p) cid) (rs_seq (tp_abs p))\<rparr>"
proof -
  have ok: "seq_ok p" "names_ok p" using inv by (simp_all add: tp_inv_def drain_ok_def)
  obtain q where q: "delete_known cid p = Ret q" "seq_ok q" "flat q = map (mark_item cid) (flat p)"
    "tp_actors q = tp_actors p" "tp_pending_deletes q = tp_pending_deletes p"
    "tp_orphans q = tp_orphans p" "tp_orphan_ids q = tp_orphan_ids p"
    using delete_known_ok [OF ok(1) known] by blast
  have w: "waiting q = waiting p" by (simp add: waiting_def q(6))
  have "i_id (mark_item cid it) = i_id it" for it by (simp add: mark_item_def)
  then have ids: "i_id ` set (flat q) = i_id ` set (flat p)" by (simp add: q(3) image_image)
  then have "tp_inv q" using inv q w by (simp add: tp_inv_def drain_ok_def names_ok_def)
  moreover have "tp_size q = tp_size p" by (simp add: tp_size_def w q(3))
  moreover have "tp_abs q = (tp_abs p)\<lparr>rs_seq := rga_mark (opid (tp_actors p) cid) (rs_seq (tp_abs p))\<rparr>"
  proof -
    have "cid_ok (tp_actors p) cid" using known names_cids(2) [OF ok(2)] by auto
    then have "map (abs_item (tp_actors p)) (flat q) = rga_mark (opid (tp_actors p) cid) (map (abs_item (tp_actors p)) (flat p))"
      unfolding q(3) using opid_eq_iff [OF ok(2) names_cids(2) [OF ok(2)]] by (intro abs_item_mark) blast
    then show ?thesis by (simp add: tp_abs_def q)
  qed
  ultimately show ?thesis using q(1,3,4) by blast
qed

lemma add_pending_abs:
  assumes inv: "tp_inv p" and c: "cid_ok (tp_actors p) cid"
  defines "q \<equiv> p\<lparr>tp_pending_deletes := insert cid (tp_pending_deletes p)\<rparr>"
  shows "tp_inv q" "tp_size q = tp_size p"
    "tp_abs q = (tp_abs p)\<lparr>rs_pending := insert (opid (tp_actors p) cid) (rs_pending (tp_abs p))\<rparr>"
proof -
  note cg = core_ok_cong [of q p]
  have fl: "flat q = flat p" and seq: "seq_ok q"
    using cg inv by (simp_all add: q_def tp_inv_def drain_ok_def)
  have w: "waiting q = waiting p" by (simp add: waiting_def q_def)
  show "tp_inv q" using inv c seq by (simp add: tp_inv_def drain_ok_def names_ok_def fl w) (simp add: q_def)
  show "tp_size q = tp_size p" by (simp add: tp_size_def fl w)
  show "tp_abs q = (tp_abs p)\<lparr>rs_pending := insert (opid (tp_actors p) cid) (rs_pending (tp_abs p))\<rparr>"
    by (simp add: tp_abs_def fl) (simp add: q_def)
qed

lemma apply_delete_abs:
  assumes inv: "tp_inv p"
  shows "\<exists>p'. apply_delete target p = Ret p' \<and> tp_inv p' \<and> tp_size p' = tp_size p
     \<and> tp_abs p' = rga_apply_delete target (tp_abs p)"
proof -
  have n: "names_ok p" "chunks_ok p" "ids_ok p" using inv by (simp_all add: tp_inv_def drain_ok_def seq_ok_def)
  show ?thesis
  proof (cases "compact_id_existing p target")
    case None
    obtain cid q where cq: "compact_id_for target p = (cid, q)" by fastforce
    note c = compact_id_for_ok [OF inv cq]
    have "actor_idx cid \<ge> length (at_authors (tp_actors p))"
    proof -
      have "at_author_to_idx (tp_actors p) (oid_author target) = None"
        using None by (simp add: compact_id_existing_def from_op_id_existing_def)
      then show ?thesis using cq
        by (auto simp: compact_id_for_def from_op_id_def get_or_insert_def Let_def)
    qed
    then have "\<not> cid_ok (tp_actors p) cid" by (simp add: cid_ok_def)
    then have "cid \<notin> i_id ` set (flat q)" using names_cids(2) [OF n(1)] c(4) by auto
    moreover have "names_ok q" using c(1) by (simp add: tp_inv_def drain_ok_def)
    ultimately have "target \<notin> seq_ids (rs_seq (tp_abs p))"
      using opid_present [of q cid] c(2,7,8) by simp
    then show ?thesis
      using None add_pending_abs [OF c(1,7)] c(2,3,8)
      by (simp add: apply_delete_def cq rga_apply_delete_def)
  next
    case (Some cid)
    then have idx: "at_author_to_idx (tp_actors p) (oid_author target) = Some (actor_idx cid)" "c_lamport cid = oid_lamport target"
      by (auto simp: compact_id_existing_def from_op_id_existing_def)
    then have cid: "cid_ok (tp_actors p) cid" "opid (tp_actors p) cid = target"
      using names_cids(1) [OF n(1)] by (auto simp: actors_ok_def cid_ok_def opid_def)
    have known: "tp_id_to_chunk p cid = None \<longleftrightarrow> target \<notin> seq_ids (rs_seq (tp_abs p))"
      using id_present [OF n(2,3)] opid_present [OF n(1) cid(1)] cid(2) by simp
    show ?thesis
    proof (cases "tp_id_to_chunk p cid = None")
      case True
      then show ?thesis
        using Some add_pending_abs [OF inv cid(1)] cid(2) known by (simp add: apply_delete_def rga_apply_delete_def)
    next
      case False
      then show ?thesis
        using Some delete_known_abs [OF inv, of cid] id_present [OF n(2,3), of cid] known cid(2)
        by (auto simp: apply_delete_def rga_apply_delete_def)
    qed
  qed
qed

section \<open>Runs\<close>

lemma apply_update_abs:
  assumes "tp_inv p" "tp_size p < MAX_ITEMS"
  shows "\<exists>p'. apply_update u p = Ret p' \<and> tp_inv p' \<and> tp_size p' \<le> Suc (tp_size p) \<and> tp_abs p' = rga_apply u (tp_abs p)"
  using apply_insert_abs [OF assms] apply_delete_abs [OF assms(1)] by (cases u) fastforce+

lemma apply_updates_abs:
  "tp_inv p \<Longrightarrow> tp_size p + length us \<le> MAX_ITEMS \<Longrightarrow>
   \<exists>p'. apply_updates_coalesced us p = Ret p' \<and> tp_inv p' \<and> tp_size p' \<le> tp_size p + length us
     \<and> tp_abs p' = fold rga_apply us (tp_abs p)"
proof (induction us arbitrary: p)
  case Nil
  then show ?case by (simp add: apply_updates_coalesced_def)
next
  case (Cons u us)
  obtain p1 where p1: "apply_update u p = Ret p1" "tp_inv p1" "tp_size p1 \<le> Suc (tp_size p)" "tp_abs p1 = rga_apply u (tp_abs p)"
    using apply_update_abs [of p u] Cons.prems by auto
  moreover have "tp_size p1 + length us \<le> MAX_ITEMS" using p1(3) Cons.prems(2) by simp
  ultimately obtain p2 where "apply_updates_coalesced us p1 = Ret p2" "tp_inv p2" "tp_size p2 \<le> tp_size p1 + length us"
    "tp_abs p2 = fold rga_apply us (tp_abs p1)" using Cons.IH by blast
  with p1 show ?case by (auto simp: apply_updates_coalesced_def)
qed

lemma tp_default_ok: "tp_inv tp_default" "tp_size tp_default = 0" "tp_abs tp_default = rga_init"
proof -
  have fl: "flat tp_default = []" "waiting tp_default = []" "chunk_items tp_default = []"
    by (simp_all add: flat_def chunk_items_def waiting_def tp_default_def)
  have "index_ok tp_default" by (simp add: index_ok_def fl) (simp add: tp_default_def cpi_repr_def cpi_default_def)
  moreover have "chunks_ok tp_default" "counts_ok tp_default" "ids_ok tp_default" "view_ok tp_default"
    by (simp_all add: chunks_ok_def counts_ok_def ids_ok_def view_ok_def fl) (simp_all add: tp_default_def)
  moreover have "names_ok tp_default"
    by (simp add: names_ok_def fl) (simp add: tp_default_def at_default_def actors_ok_def)
  ultimately show "tp_inv tp_default"
    by (simp add: tp_inv_def drain_ok_def seq_ok_def fl) (simp add: tp_default_def)
  show "tp_size tp_default = 0" by (simp add: tp_size_def fl)
  show "tp_abs tp_default = rga_init" by (simp add: tp_abs_def rga_init_def fl) (simp add: tp_default_def)
qed

end
