(* ===== verification/Text_Reads.thy ===== *)
theory Text_Reads
  imports Text_Correct
begin

text \<open>
  Reads and range edits of the text projection. Under the invariant every read returns what the
  visible part of the flat sequence says; a range insert with fresh identifiers splices its text in
  at the anchor, and a range delete cuts the window out.
\<close>

section \<open>Visible characters\<close>

definition shown :: "text_projection \<Rightarrow> text_item list" where
  "shown p = visible_of (flat p)"

lemma nth_visible_some:
  "k < length (visible_of its) \<Longrightarrow> \<exists>j. nth_visible its k = Some j \<and> j < length its \<and> \<not> i_deleted (its ! j)
     \<and> length (visible_of (take j its)) = k"
proof (induction its k rule: nth_visible.induct)
  case (2 it its k)
  show ?case
  proof (cases "i_deleted it")
    case True
    with 2 obtain j where "nth_visible its k = Some j" "j < length its" "\<not> i_deleted (its ! j)"
      "length (visible_of (take j its)) = k" by auto
    with True show ?thesis by (intro exI [of _ "Suc j"]) simp
  next
    case False
    show ?thesis
    proof (cases k)
      case 0
      with False show ?thesis by simp
    next
      case (Suc m)
      with False 2 obtain j where "nth_visible its m = Some j" "j < length its" "\<not> i_deleted (its ! j)"
        "length (visible_of (take j its)) = m" by auto
      with False Suc show ?thesis by (intro exI [of _ "Suc j"]) simp
    qed
  qed
qed simp

lemma visible_take_nth:
  assumes "i < length its" "\<not> i_deleted (its ! i)"
  shows "visible_of (take i its) = take (length (visible_of (take i its))) (visible_of its)"
    "visible_of its ! length (visible_of (take i its)) = its ! i"
    "length (visible_of (take i its)) < length (visible_of its)"
  using hide_nth(1) [OF assms] by (simp_all add: nth_append)

lemma loc_of_visible_offset_some:
  assumes "index_ok p" "off < length (shown p)"
  shows "\<exists>l. loc_of_visible_offset p off = Some l \<and> at_item p l \<and> \<not> i_deleted (item_at p l)
     \<and> length (visible_of (take (flat_idx p l) (flat p))) = off"
proof -
  have repr: "cpi_repr (tp_char_index p) (map (\<lambda>xs. length (filter (\<lambda>it. \<not> i_deleted it) xs)) (chunk_items p))"
    using assms(1) by (simp add: index_ok_def visible_of_def)
  have "off < length (filter (\<lambda>it. \<not> i_deleted it) (concat (chunk_items p)))"
    using assms(2) by (simp add: shown_def visible_of_def flat_def)
  from fenwick_index.sel_chunks [OF repr this] obtain e r where er: "select_offset (tp_char_index p) off = Some (e, r)"
    "e < length (chunk_items p)" "r < length (visible_of (chunk_items p ! e))"
    "off = length (visible_of (concat (take e (chunk_items p)))) + r"
    unfolding visible_of_def by blast
  have e: "e < length (tp_order p)" using er(2) by simp
  let ?its = "ch_items (tp_chunk p (tp_order p ! e))"
  obtain j where j: "nth_visible ?its r = Some j" "j < length ?its" "\<not> i_deleted (?its ! j)" "length (visible_of (take j ?its)) = r"
    using nth_visible_some [of r ?its] er(3) e by auto
  have item: "at_item p (Loc e j)" using e j(2) by (simp add: at_item_def)
  have "take (flat_idx p (Loc e j)) (flat p) = concat (take e (chunk_items p)) @ take j ?its"
    using flat_take [OF at_item_gap(1) [OF item]] e by simp
  then have "length (visible_of (take (flat_idx p (Loc e j)) (flat p))) = off" using er(4) j(4) by simp
  moreover have "loc_of_visible_offset p off = Some (Loc e j)" using er(1) e j(1) by (simp add: loc_of_visible_offset_def)
  moreover have "\<not> i_deleted (item_at p (Loc e j))" using j(3) by (simp add: item_at_def)
  ultimately show ?thesis using item by blast
qed

lemma loc_of_visible_offset_none:
  assumes "index_ok p" "length (shown p) \<le> off"
  shows "loc_of_visible_offset p off = None"
proof -
  have repr: "cpi_repr (tp_char_index p) (map (\<lambda>xs. length (filter (\<lambda>it. \<not> i_deleted it) xs)) (chunk_items p))"
    using assms(1) by (simp add: index_ok_def visible_of_def)
  have "select_offset (tp_char_index p) off = None"
    by (rule fenwick_index.sel_chunks_none [OF repr]) (use assms(2) in \<open>simp add: shown_def visible_of_def flat_def\<close>)
  then show ?thesis by (simp add: loc_of_visible_offset_def)
qed

lemma loc_of_visible_offset_item:
  assumes "index_ok p" "off < length (shown p)" "loc_of_visible_offset p off = Some l"
  shows "at_item p l" "item_at p l = shown p ! off" "\<not> i_deleted (item_at p l)"
    "visible_of (take (flat_idx p l) (flat p)) = take off (shown p)"
proof -
  from loc_of_visible_offset_some [OF assms(1,2)] assms(3)
  have l: "at_item p l" "\<not> i_deleted (item_at p l)" "length (visible_of (take (flat_idx p l) (flat p))) = off" by auto
  then show "at_item p l" "\<not> i_deleted (item_at p l)" by simp_all
  note v = visible_take_nth [of "flat_idx p l" "flat p"]
  show "item_at p l = shown p ! off" "visible_of (take (flat_idx p l) (flat p)) = take off (shown p)"
    using v flat_idx_less [OF l(1)] item_at_flat [OF l(1)] l(2,3) by (simp_all add: shown_def)
qed

lemma tp_inv_parts:
  assumes "tp_inv p"
  shows "chunks_ok p" "index_ok p" "ids_ok p" "view_ok p" "names_ok p" "seq_ok p"
  using assms by (simp_all add: tp_inv_def drain_ok_def seq_ok_def)

lemma shown_view:
  assumes "tp_inv p"
  shows "tp_visible_string p = map i_ch (shown p)" "tp_visible_chars_total p = length (shown p)"
  using tp_inv_parts(4) [OF assms] by (simp_all add: view_ok_def shown_def)

lemma to_op_id_opid: "cid_ok t c \<Longrightarrow> to_op_id t c = Some (opid t c)"
  by (simp add: to_op_id_def author_for_idx_def cid_ok_def opid_def)

lemma shown_in_flat: "it \<in> set (shown p) \<Longrightarrow> it \<in> set (flat p) \<and> \<not> i_deleted it"
  by (simp add: shown_def visible_of_def)

lemma rga_visible_abs:
  "rga_visible (rs_seq (tp_abs p)) = map (\<lambda>it. (opid (tp_actors p) (i_id it), i_ch it)) (shown p)"
proof -
  have "rga_visible (map (abs_item t) its) = map (\<lambda>it. (opid t (i_id it), i_ch it)) (visible_of its)" for t its
    by (induction its) (simp_all add: rga_visible_def abs_item_def)
  then show ?thesis by (simp add: tp_abs_def shown_def)
qed

lemma build_visible_seq_pairs_abs:
  assumes "tp_inv p"
  shows "build_visible_seq_pairs p = rga_visible (rs_seq (tp_abs p))"
proof -
  let ?f = "\<lambda>it. if i_deleted it then None else map_option (\<lambda>i. (i, i_ch it)) (to_op_id (tp_actors p) (i_id it))"
  have cid: "cid_ok (tp_actors p) (i_id it)" if "it \<in> set (flat p)" for it
    using names_cids(2) [OF tp_inv_parts(5) [OF assms] that] .
  have mf: "concat (map (List.map_filter ?f) css) = List.map_filter ?f (concat css)" for css
    by (induction css) (simp_all add: List.map_filter_def)
  have "List.map_filter ?f its = map (\<lambda>it. (opid (tp_actors p) (i_id it), i_ch it)) (visible_of its)"
    if "set its \<subseteq> set (flat p)" for its
    using that by (induction its) (auto simp: List.map_filter_simps to_op_id_opid cid)
  then have "List.map_filter ?f (flat p) = rga_visible (rs_seq (tp_abs p))" by (simp add: rga_visible_abs shown_def)
  moreover have "build_visible_seq_pairs p = concat (map (List.map_filter ?f) (chunk_items p))"
    by (simp add: build_visible_seq_pairs_def chunk_items_def comp_def)
  ultimately show ?thesis by (simp add: mf flat_def)
qed

lemma id_at_visible_offset_abs:
  assumes "tp_inv p"
  shows "id_at_visible_offset p off =
    (if off < length (shown p) then Some (opid (tp_actors p) (i_id (shown p ! off))) else None)"
proof (cases "off < length (shown p)")
  case True
  note ix = tp_inv_parts [OF assms]
  obtain l where l: "loc_of_visible_offset p off = Some l" using loc_of_visible_offset_some [OF ix(2) True] by blast
  have "item_at p l = shown p ! off" using loc_of_visible_offset_item [OF ix(2) True l] by simp
  moreover have "cid_ok (tp_actors p) (i_id (shown p ! off))"
    using names_cids(2) [OF ix(5)] shown_in_flat [of "shown p ! off" p] True by simp
  ultimately show ?thesis using True l by (simp add: id_at_visible_offset_def to_op_id_opid)
next
  case False
  then show ?thesis
    using loc_of_visible_offset_none [OF tp_inv_parts(2) [OF assms]] by (simp add: id_at_visible_offset_def)
qed

lemma byte_offset_abs:
  assumes "tp_inv p"
  shows "byte_offset_of_visible p off = str_len (take off (tp_visible_string p))"
proof (cases "off < length (shown p)")
  case True
  note ix = tp_inv_parts [OF assms]
  obtain l where l: "loc_of_visible_offset p off = Some l" using loc_of_visible_offset_some [OF ix(2) True] by blast
  note li = loc_of_visible_offset_item [OF ix(2) True l]
  show ?thesis
    using l li(4) byte_prefix_flat [OF ix(2) at_item_gap(1) [OF li(1)]]
    by (simp add: byte_offset_of_visible_def bytes_of_str shown_view(1) [OF assms] take_map)
next
  case False
  then show ?thesis
    using loc_of_visible_offset_none [OF tp_inv_parts(2) [OF assms]] shown_view [OF assms]
    by (simp add: byte_offset_of_visible_def)
qed

lemma resolve_string_range_abs:
  assumes "tp_inv p"
  shows "fst (resolve_string_range start n p) = Ret (take n (drop start (tp_visible_string p)))"
proof (cases "n = 0 \<or> tp_visible_chars_total p \<le> start")
  case True
  then show ?thesis using shown_view [OF assms] by (auto simp: resolve_string_range_def)
next
  case False
  let ?s = "tp_visible_string p"
  have "take start ?s @ take n (drop start ?s) @ drop (start + n) ?s = ?s"
    by (metis append.assoc append_take_drop_id take_add)
  moreover have "str_len (take (start + n) ?s) = str_len (take start ?s) + str_len (take n (drop start ?s))"
    by (simp add: take_add)
  ultimately show ?thesis
    using False str_slice_at [of "take start ?s" "take n (drop start ?s)" "drop (start + n) ?s"]
    by (simp add: resolve_string_range_def byte_offset_abs [OF assms])
qed

lemma loc_of_id_shown:
  assumes "tp_inv p" "off < length (shown p)"
  shows "visible_offset_of_id p (i_id (shown p ! off)) = Some off"
proof -
  note ix = tp_inv_parts [OF assms(1)]
  let ?c = "i_id (shown p ! off)"
  have in_flat: "shown p ! off \<in> set (flat p)" "\<not> i_deleted (shown p ! off)"
    using shown_in_flat [of "shown p ! off" p] assms(2) by simp_all
  obtain k where k: "loc_of_visible_offset p off = Some k" using loc_of_visible_offset_some [OF ix(2) assms(2)] by blast
  note ki = loc_of_visible_offset_item [OF ix(2) assms(2) k]
  obtain l where l: "loc_of_id p ?c = Some l" "at_item p l" "i_id (item_at p l) = ?c"
    using loc_of_id_present [OF ix(1,3), of ?c] in_flat by blast
  have "flat_idx p l = flat_idx p k"
    using ix(3) l(2,3) ki(1,2) flat_idx_less item_at_flat
      nth_eq_iff_index_eq [of "map i_id (flat p)" "flat_idx p l" "flat_idx p k"]
    by (simp add: ids_ok_def)
  moreover have "item_at p l = shown p ! off"
    using calculation item_at_flat [OF l(2)] item_at_flat [OF ki(1)] ki(2) by simp
  ultimately show ?thesis
    using l(1) in_flat(2) visible_prefix_flat [OF ix(2) at_item_gap(1) [OF l(2)]] ki(4) assms(2)
    by (simp add: visible_offset_of_id_def)
qed

lemma from_op_id_existing_opid:
  assumes "actors_ok t" "cid_ok t c"
  shows "from_op_id_existing (opid t c) t = Some c"
  using assms by (cases c) (auto simp: from_op_id_existing_def opid_def actors_ok_def cid_ok_def)

lemma anchor_roundtrip_abs:
  assumes "tp_inv p"
  shows "offset_for_anchor p (anchor_for_offset p off) = min off (tp_visible_chars_total p)"
proof (cases "off = 0 \<or> tp_visible_chars_total p \<le> off")
  case True
  then show ?thesis by (auto simp: offset_for_anchor_def anchor_for_offset_def resolve_anchor_index_def)
next
  case False
  note ix = tp_inv_parts [OF assms]
  have lt: "off - 1 < length (shown p)" using False shown_view(2) [OF assms] by auto
  let ?c = "i_id (shown p ! (off - 1))"
  have cid: "cid_ok (tp_actors p) ?c"
    using names_cids(2) [OF ix(5)] shown_in_flat [of "shown p ! (off - 1)" p] lt by simp
  have "anchor_for_offset p off = After (opid (tp_actors p) ?c)"
    using False lt by (simp add: anchor_for_offset_def id_at_visible_offset_abs [OF assms])
  then show ?thesis
    using False from_op_id_existing_opid [OF names_cids(1) [OF ix(5)] cid] loc_of_id_shown [OF assms lt]
    by (simp add: offset_for_anchor_def resolve_anchor_index_def)
qed

section \<open>Range deletes\<close>

lemma delete_shown:
  assumes inv: "tp_inv p" and off: "off < length (shown p)"
  shows "\<exists>l q. loc_of_visible_offset p off = Some l \<and> delete_known (i_id (item_at p l)) p = Ret q \<and> tp_inv q
     \<and> tp_size q = tp_size p \<and> shown q = take off (shown p) @ drop (Suc off) (shown p) \<and> tp_actors q = tp_actors p
     \<and> tp_abs q = rga_apply_delete (opid (tp_actors p) (i_id (shown p ! off))) (tp_abs p)"
proof -
  note ix = tp_inv_parts [OF inv]
  obtain l where l: "loc_of_visible_offset p off = Some l" using loc_of_visible_offset_some [OF ix(2) off] by blast
  note li = loc_of_visible_offset_item [OF ix(2) off l]
  let ?c = "i_id (item_at p l)" and ?i = "flat_idx p l"
  have i: "?i < length (flat p)" "item_at p l = flat p ! ?i" using flat_idx_less item_at_flat li(1) by blast+
  then have known: "?c \<in> i_id ` set (flat p)" by simp
  obtain q where q: "delete_known ?c p = Ret q" "tp_inv q" "tp_size q = tp_size p" "flat q = map (mark_item ?c) (flat p)"
    "tp_actors q = tp_actors p"
    "tp_abs q = (tp_abs p)\<lparr>rs_seq := rga_mark (opid (tp_actors p) ?c) (rs_seq (tp_abs p))\<rparr>"
    using delete_known_abs [OF inv known] by blast
  have "flat q = (flat p)[?i := hide (flat p ! ?i)]"
    unfolding q(4) by (rule mark_item_nth) (use ix(3) i in \<open>simp_all add: ids_ok_def\<close>)
  then have "shown q = visible_of (take ?i (flat p)) @ visible_of (drop (Suc ?i) (flat p))"
    using hide_nth(2) [OF i(1)] li(3) i(2) by (simp add: shown_def)
  moreover have "shown p = take off (shown p) @ shown p ! off # visible_of (drop (Suc ?i) (flat p))"
    using hide_nth(1) [OF i(1)] li i(2) by (simp add: shown_def)
  then have "drop (Suc off) (shown p) = visible_of (drop (Suc ?i) (flat p))"
    by (metis Cons_nth_drop_Suc append_take_drop_id list.inject off same_append_eq)
  moreover have "opid (tp_actors p) ?c \<in> seq_ids (rs_seq (tp_abs p))"
    using opid_present [OF ix(5)] known names_cids(2) [OF ix(5)] i by auto
  ultimately show ?thesis using l q li by (simp add: rga_apply_delete_def)
qed

lemma range_delete_loop_ok:
  "tp_inv p \<Longrightarrow> start + k \<le> length (shown p) \<Longrightarrow>
   \<exists>q. range_delete_loop k start p = Ret q \<and> tp_inv q \<and> tp_size q = tp_size p
     \<and> shown q = take start (shown p) @ drop (start + k) (shown p)"
proof (induction k arbitrary: p)
  case (Suc k)
  then obtain l q where q: "loc_of_visible_offset p start = Some l" "delete_known (i_id (item_at p l)) p = Ret q" "tp_inv q"
    "tp_size q = tp_size p" "shown q = take start (shown p) @ drop (Suc start) (shown p)"
    using delete_shown [of p start] by auto
  have "start + k \<le> length (shown q)" using Suc.prems(2) q(5) by simp
  from Suc.IH [OF q(3) this] q Suc.prems(2) show ?case by (simp add: add.commute)
qed simp

lemma tp_inv_counters:
  "tp_inv (p\<lparr>tp_range_delete_ops_applied := x\<rparr>) = tp_inv p" "tp_size (p\<lparr>tp_range_delete_ops_applied := x\<rparr>) = tp_size p"
  "flat (p\<lparr>tp_range_delete_ops_applied := x\<rparr>) = flat p" "tp_abs (p\<lparr>tp_range_delete_ops_applied := x\<rparr>) = tp_abs p"
  "tp_inv (p\<lparr>tp_range_insert_ops_applied := x\<rparr>) = tp_inv p" "tp_size (p\<lparr>tp_range_insert_ops_applied := x\<rparr>) = tp_size p"
  "flat (p\<lparr>tp_range_insert_ops_applied := x\<rparr>) = flat p" "tp_abs (p\<lparr>tp_range_insert_ops_applied := x\<rparr>) = tp_abs p"
  using tp_inv_cong [of "p\<lparr>tp_range_delete_ops_applied := x\<rparr>" p] tp_inv_cong [of "p\<lparr>tp_range_insert_ops_applied := x\<rparr>" p]
  by simp_all

lemma visible_offset_le: 
  assumes "tp_inv p" "visible_offset_of_id p c = Some off"
  shows "off < length (shown p)"
proof -
  note ix = tp_inv_parts [OF assms(1)]
  obtain l where l: "loc_of_id p c = Some l" "\<not> i_deleted (item_at p l)" "off = visible_prefix_at p l"
    using assms(2) by (auto simp: visible_offset_of_id_def split: option.splits if_splits)
  have "c \<in> i_id ` set (flat p)" using l(1) loc_of_id_absent [OF ix(1,3)] by fastforce
  then have at: "at_item p l" using loc_of_id_present [OF ix(1,3)] l(1) by (metis option.inject)
  then have "off = length (visible_of (take (flat_idx p l) (flat p)))"
    using l(3) visible_prefix_flat [OF ix(2) at_item_gap(1)] by simp
  then show ?thesis
    using visible_take_nth(3) [OF flat_idx_less [OF at]] l(2) item_at_flat [OF at] by (simp add: shown_def)
qed

lemma resolve_anchor_index_le:
  assumes "tp_inv p"
  shows "resolve_anchor_index p anchor \<le> length (shown p)"
proof (cases anchor)
  case (After i)
  then show ?thesis
    using visible_offset_le [OF assms] shown_view(2) [OF assms]
    by (auto simp: resolve_anchor_index_def Suc_le_eq split: option.splits)
qed (use shown_view(2) [OF assms] in \<open>simp_all add: resolve_anchor_index_def\<close>)

lemma reads_cong:
  assumes "tp_chunks q = tp_chunks p" "tp_order q = tp_order p" "tp_id_to_chunk q = tp_id_to_chunk p"
    "tp_char_index q = tp_char_index p" "tp_visible_chars_total q = tp_visible_chars_total p" "tp_actors q = tp_actors p"
  shows "resolve_anchor_index q = resolve_anchor_index p" "id_at_visible_offset q = id_at_visible_offset p"
proof -
  have c: "tp_chunk q = tp_chunk p" unfolding tp_chunk_def fun_eq_iff assms by simp
  have l: "loc_of_id q = loc_of_id p" unfolding loc_of_id_def fun_eq_iff assms c by simp
  have i: "item_at q = item_at p" unfolding item_at_def fun_eq_iff assms c by simp
  have v: "visible_prefix_at q = visible_prefix_at p" unfolding visible_prefix_at_def fun_eq_iff assms c by simp
  have o: "visible_offset_of_id q = visible_offset_of_id p" unfolding visible_offset_of_id_def fun_eq_iff l i v by simp
  show "resolve_anchor_index q = resolve_anchor_index p" unfolding resolve_anchor_index_def fun_eq_iff assms o by simp
  have "loc_of_visible_offset q = loc_of_visible_offset p" unfolding loc_of_visible_offset_def fun_eq_iff assms c by simp
  then show "id_at_visible_offset q = id_at_visible_offset p" unfolding id_at_visible_offset_def fun_eq_iff assms i by simp
qed

lemma resolve_anchor_index_counters:
  "resolve_anchor_index (p\<lparr>tp_range_delete_ops_applied := x\<rparr>) anchor = resolve_anchor_index p anchor"
  "resolve_anchor_after_visible (p\<lparr>tp_range_insert_ops_applied := x\<rparr>) anchor = resolve_anchor_after_visible p anchor"
  using reads_cong [of "p\<lparr>tp_range_delete_ops_applied := x\<rparr>" p] reads_cong [of "p\<lparr>tp_range_insert_ops_applied := x\<rparr>" p]
  by (simp_all add: resolve_anchor_after_visible_def Let_def)

lemma apply_range_delete_ok:
  fixes anchor :: text_range_anchor
  assumes "tp_inv p"
  defines "start \<equiv> resolve_anchor_index p anchor"
  shows "\<exists>q. apply_range_delete anchor n p = Ret q \<and> tp_inv q \<and> tp_size q = tp_size p
     \<and> shown q = take start (shown p) @ drop (start + n) (shown p)"
proof (cases "n = 0")
  case True
  with assms(1) show ?thesis by (simp add: apply_range_delete_def)
next
  case False
  let ?p = "p\<lparr>tp_range_delete_ops_applied := sat_add (tp_range_delete_ops_applied p) 1\<rparr>"
  let ?k = "min n (length (shown p) - start)"
  have le: "start \<le> length (shown p)" unfolding start_def by (rule resolve_anchor_index_le [OF assms(1)])
  have sh: "shown ?p = shown p" by (simp add: shown_def tp_inv_counters)
  have "start + ?k \<le> length (shown ?p)" using le sh by auto
  then obtain q where q: "range_delete_loop ?k start ?p = Ret q" "tp_inv q" "tp_size q = tp_size p"
    "shown q = take start (shown p) @ drop (start + ?k) (shown p)"
    using range_delete_loop_ok [of ?p start ?k] sh assms(1) by (auto simp: tp_inv_counters)
  have "drop (start + ?k) (shown p) = drop (start + n) (shown p)" using le by (simp add: min_def)
  moreover have "apply_range_delete anchor n p = range_delete_loop ?k start ?p"
    using False shown_view(2) [OF assms(1)]
    by (simp add: apply_range_delete_def Let_def resolve_anchor_index_counters start_def)
  ultimately show ?thesis using q by simp
qed

section \<open>Range inserts\<close>

fun range_updates :: "u64 \<Rightarrow> pubkey \<Rightarrow> nat \<Rightarrow> op_id option \<Rightarrow> scalar list \<Rightarrow> projection_update_op list" where
  "range_updates base author off after_id [] = []"
| "range_updates base author off after_id (ch # chs) =
     (let i = OpId (sat_add base (word_of_nat off)) author in
      UpInsert i after_id ch # range_updates base author (Suc off) (Some i) chs)"

lemma length_range_updates [simp]: "length (range_updates base author off a chs) = length chs"
  by (induction chs arbitrary: off a) (simp_all add: Let_def)

lemma apply_updates_fold: "apply_updates_coalesced us = fold_rust apply_update us"
  by (simp add: fun_eq_iff apply_updates_coalesced_def)

lemma range_insert_loop_updates:
  "range_insert_loop base author off a chs p = apply_updates_coalesced (range_updates base author off a chs) p"
proof (induction chs arbitrary: off a p)
  case (Cons ch chs)
  have "range_insert_loop base author (Suc off) (Some (OpId (sat_add base (word_of_nat off)) author)) chs =
      apply_updates_coalesced (range_updates base author (Suc off) (Some (OpId (sat_add base (word_of_nat off)) author)) chs)"
    using Cons.IH by blast
  then show ?case by (simp add: apply_updates_fold Let_def)
qed (simp add: apply_updates_fold)

lemma range_insert_loop_ok:
  assumes "tp_inv p" "tp_size p + length chs \<le> MAX_ITEMS"
  shows "\<exists>q. range_insert_loop base author off a chs p = Ret q \<and> tp_inv q \<and> tp_size q \<le> tp_size p + length chs
     \<and> tp_abs q = fold rga_apply (range_updates base author off a chs) (tp_abs p)"
  using apply_updates_abs [OF assms(1), of "range_updates base author off a chs"] assms(2)
  by (simp add: range_insert_loop_updates)

lemma apply_range_insert_ok:
  assumes "tp_inv p" "tp_size p + length chs \<le> MAX_ITEMS"
  shows "\<exists>q. apply_range_insert base author anchor chs p = Ret q \<and> tp_inv q \<and> tp_size q \<le> tp_size p + length chs
     \<and> tp_abs q = fold rga_apply (range_updates base author 0 (resolve_anchor_after_visible p anchor) chs) (tp_abs p)"
proof (cases "chs = []")
  case True
  with assms(1) show ?thesis by (simp add: apply_range_insert_def)
next
  case False
  let ?p = "p\<lparr>tp_range_insert_ops_applied := sat_add (tp_range_insert_ops_applied p) 1\<rparr>"
  have "apply_range_insert base author anchor chs p =
      range_insert_loop base author 0 (resolve_anchor_after_visible p anchor) chs ?p"
    using False by (simp add: apply_range_insert_def resolve_anchor_index_counters Let_def)
  then show ?thesis using range_insert_loop_ok [of ?p chs] assms by (simp add: tp_inv_counters)
qed

subsection \<open>Fresh identifiers splice\<close>

definition rga_known :: "rga_state \<Rightarrow> op_id set" where
  "rga_known st = seq_ids (rs_seq st) \<union> rs_pending st \<union> orphan_ids_of (rs_orphans st) \<union> fst ` set (rs_orphans st)"

lemma rga_place_top: "(\<And>i. i \<in> seq_ids s \<Longrightarrow> i < fst x) \<Longrightarrow> rga_place x s = x # s"
proof (cases s)
  case (Cons y ys)
  assume "\<And>i. i \<in> seq_ids s \<Longrightarrow> i < fst x"
  then have "fst y < fst x" using Cons by simp
  then show ?thesis using Cons by (simp add: less_le_not_le)
qed simp

lemma rga_insert_after_top:
  "(\<And>i. i \<in> seq_ids s2 \<Longrightarrow> i < fst x) \<Longrightarrow> fst y \<notin> seq_ids b \<Longrightarrow>
   rga_insert_after (fst y) x (b @ y # s2) = b @ y # x # s2"
  by (induction b) (auto simp: rga_place_top)

definition insertion_point :: "op_id option \<Rightarrow> rga_item list \<Rightarrow> bool" where
  "insertion_point a s \<longleftrightarrow> (case a of None \<Rightarrow> s = []
     | Some q \<Rightarrow> s \<noteq> [] \<and> fst (last s) = q \<and> q \<notin> seq_ids (butlast s))"

lemma rga_insert_point:
  assumes "insertion_point a s1" "\<And>i. i \<in> seq_ids s2 \<Longrightarrow> i < fst x"
  shows "rga_insert a x (s1 @ s2) = s1 @ x # s2"
proof (cases a)
  case None
  with assms show ?thesis by (simp add: insertion_point_def rga_insert_def rga_place_top)
next
  case (Some q)
  with assms(1) obtain b y where "s1 = b @ [y]" "fst y = q" "q \<notin> seq_ids b"
    by (cases s1 rule: rev_cases) (auto simp: insertion_point_def)
  with Some assms(2) rga_insert_after_top [of s2 x y b] show ?thesis by (simp add: rga_insert_def)
qed

fun chain_items :: "u64 \<Rightarrow> pubkey \<Rightarrow> nat \<Rightarrow> scalar list \<Rightarrow> rga_item list" where
  "chain_items base author off [] = []"
| "chain_items base author off (ch # chs) =
     (OpId (sat_add base (word_of_nat off)) author, ch, False) # chain_items base author (Suc off) chs"

lemma rga_drain_absent: "i \<notin> fst ` set (rs_orphans st) \<Longrightarrow> rga_drain [i] st = st"
  by (simp add: map_of_eq_None_iff [THEN iffD2])

lemma lamport_less: "oid_lamport i < oid_lamport j \<Longrightarrow> i < j" for i j :: op_id
  by (simp add: less_op_id_def op_id_key_def)

lemma sat_add_room: "unat (a :: u64) + unat b < 2 ^ 64 \<Longrightarrow> unat (sat_add a b) = unat a + unat b"
  by (simp add: unat_sat_add)

lemma rga_chain:
  assumes "rs_seq st = s1 @ s2" "insertion_point a s1"
    and "\<And>i. i \<in> rga_known st \<Longrightarrow> unat (oid_lamport i) < unat base + off"
    and "unat base + off + length chs < 2 ^ 64"
  shows "rs_seq (fold rga_apply (range_updates base author off a chs) st) = s1 @ chain_items base author off chs @ s2"
  using assms
proof (induction chs arbitrary: st s1 off a)
  case (Cons ch chs)
  let ?i = "OpId (sat_add base (word_of_nat off)) author"
  have un: "unat (word_of_nat off :: u64) = off" using Cons.prems(4) by (simp add: unat_of_nat)
  then have lam: "unat (oid_lamport ?i) = unat base + off"
    using sat_add_room [of base "word_of_nat off"] Cons.prems(4) by simp
  have below: "j < ?i" "j \<noteq> ?i" if "j \<in> rga_known st" for j
    using Cons.prems(3) [OF that] lam lamport_less [of j ?i] by (auto simp: word_less_nat_alt)
  have new: "?i \<notin> seq_ids (rs_seq st)" "?i \<notin> rs_pending st" "?i \<notin> orphan_ids_of (rs_orphans st)" "?i \<notin> fst ` set (rs_orphans st)"
    using below(2) by (auto simp: rga_known_def)
  let ?st = "rga_integrate ?i a ch st"
  have "j < ?i" if "j \<in> seq_ids s2" for j using that below(1) [of j] Cons.prems(1) by (simp add: rga_known_def image_Un)
  then have "rga_insert a (?i, ch, False) (s1 @ s2) = s1 @ (?i, ch, False) # s2"
    by (intro rga_insert_point Cons.prems(2)) simp
  then have seq: "rs_seq ?st = (s1 @ [(?i, ch, False)]) @ s2"
    using new(2) Cons.prems(1) by (simp add: rga_integrate_def)
  have ref: "q \<in> seq_ids (rs_seq st)" if "a = Some q" for q
    using Cons.prems(1,2) that by (cases s1 rule: rev_cases) (auto simp: insertion_point_def)
  have step: "rga_apply (UpInsert ?i a ch) st = ?st"
  proof -
    have "rga_drain [?i] ?st = ?st" by (rule rga_drain_absent) (use new(4) in \<open>simp add: rga_integrate_def\<close>)
    then show ?thesis using new(1,3) ref by (auto simp: rga_apply_insert_def split: option.split)
  qed
  have known: "rga_known ?st \<subseteq> insert ?i (rga_known st)"
    by (auto simp: rga_known_def rga_integrate_def)
  have "rs_seq (fold rga_apply (range_updates base author (Suc off) (Some ?i) chs) ?st) =
      (s1 @ [(?i, ch, False)]) @ chain_items base author (Suc off) chs @ s2"
  proof (rule Cons.IH [OF seq])
    show "insertion_point (Some ?i) (s1 @ [(?i, ch, False)])"
      using new(1) Cons.prems(1) by (simp add: insertion_point_def image_Un)
    show "unat (oid_lamport j) < unat base + Suc off" if "j \<in> rga_known ?st" for j
      using that known lam Cons.prems(3) [of j] by fastforce
  qed (use Cons.prems(4) in simp)
  then show ?case by (simp only: range_updates.simps Let_def fold_simps step) simp
qed simp

end
