(* ===== verification/Text_Props.thy ===== *)
theory Text_Props
  imports Text_Reads
begin

text \<open>
  What the text component promises: updates refine the flat sequence, replicas converge, reads agree
  with each other, range edits splice and cut, and applying nodes as they arrive gives what replaying
  them in order gives.
\<close>

section \<open>Splicing at a visible index\<close>

lemma splice_abs:
  assumes inv: "tp_inv p" and idx: "idx \<le> length (shown p)"
  defines "a \<equiv> if idx = 0 then None else id_at_visible_offset p (idx - 1)"
  shows "\<exists>s1 s2. rs_seq (tp_abs p) = s1 @ s2 \<and> insertion_point a s1
     \<and> map snd (rga_visible s1) = take idx (tp_visible_string p) \<and> map snd (rga_visible s2) = drop idx (tp_visible_string p)"
proof -
  note ix = tp_inv_parts [OF inv]
  have vis: "map snd (rga_visible (map (abs_item t) its)) = map i_ch (visible_of its)" for t its
    by (induction its) (simp_all add: rga_visible_def abs_item_def)
  have str: "tp_visible_string p = map i_ch (shown p)" by (rule shown_view [OF inv])
  show ?thesis
  proof (cases "idx = 0")
    case True
    then show ?thesis
      using vis [of "tp_actors p" "flat p"] str
      by (intro exI [of _ "[]"] exI [of _ "rs_seq (tp_abs p)"])
        (simp add: insertion_point_def a_def tp_abs_def shown_def rga_visible_def)
  next
    case False
    let ?off = "idx - 1"
    have off: "?off < length (shown p)" using False idx by simp
    obtain l where l: "loc_of_visible_offset p ?off = Some l" using loc_of_visible_offset_some [OF ix(2) off] by blast
    note li = loc_of_visible_offset_item [OF ix(2) off l]
    let ?i = "flat_idx p l" and ?abs = "map (abs_item (tp_actors p))"
    have i: "?i < length (flat p)" "flat p ! ?i = shown p ! ?off" using flat_idx_less item_at_flat li(1,2) by auto
    have s1: "take (Suc ?i) (flat p) = take ?i (flat p) @ [flat p ! ?i]" using i(1) by (simp add: take_Suc_conv_app_nth)
    have v1: "visible_of (take (Suc ?i) (flat p)) = take idx (shown p)"
      using li(2-4) i take_Suc_conv_app_nth [OF off] False by (simp add: s1)
    then have v2: "visible_of (drop (Suc ?i) (flat p)) = drop idx (shown p)"
      using visible_take_drop [of "flat p" "Suc ?i"] by (metis append_take_drop_id same_append_eq shown_def)
    have "a = Some (opid (tp_actors p) (i_id (shown p ! ?off)))"
      using False off by (simp add: a_def id_at_visible_offset_abs [OF inv])
    moreover have "opid (tp_actors p) (i_id (flat p ! ?i)) \<notin> seq_ids (?abs (take ?i (flat p)))"
    proof
      assume "opid (tp_actors p) (i_id (flat p ! ?i)) \<in> seq_ids (?abs (take ?i (flat p)))"
      then obtain j where j: "j < ?i" "opid (tp_actors p) (i_id (flat p ! ?i)) = opid (tp_actors p) (i_id (flat p ! j))"
        using i(1) by (auto simp: abs_item_def in_set_conv_nth)
      then have "i_id (flat p ! ?i) = i_id (flat p ! j)"
        using opid_eq_iff [OF ix(5)] names_cids(2) [OF ix(5)] i(1) by simp
      then show False
        using ix(3) i(1) j(1) nth_eq_iff_index_eq [of "map i_id (flat p)" ?i j] by (simp add: ids_ok_def)
    qed
    ultimately have "insertion_point a (?abs (take (Suc ?i) (flat p)))"
      using i(2) unfolding s1 by (simp add: insertion_point_def abs_item_def)
    moreover have "rs_seq (tp_abs p) = ?abs (take (Suc ?i) (flat p)) @ ?abs (drop (Suc ?i) (flat p))"
      by (simp add: tp_abs_def flip: map_append)
    ultimately show ?thesis using v1 v2 vis str by (metis drop_map take_map)
  qed
qed

lemma chain_items_visible: "map snd (rga_visible (chain_items base author off chs)) = chs"
  by (induction chs arbitrary: off) (simp_all add: rga_visible_def)

lemma rga_visible_append: "rga_visible (a @ b) = rga_visible a @ rga_visible b"
  by (simp add: rga_visible_def)

lemma visible_string_abs: "tp_inv p \<Longrightarrow> tp_visible_string p = map snd (rga_visible (rs_seq (tp_abs p)))"
  by (simp add: shown_view rga_visible_abs comp_def)

section \<open>Nodes\<close>

fun op_chars :: "string \<Rightarrow> op \<Rightarrow> nat" where
  "op_chars key (OpText (TextInsert k a c)) = (if k = key then 1 else 0)"
| "op_chars key (OpText (TextInsertRange k a cs)) = (if k = key then length cs else 0)"
| "op_chars key _ = 0"

definition node_chars :: "string \<Rightarrow> sync_node \<Rightarrow> nat" where
  "node_chars key n = sum_list (map (op_chars key) (tx_ops (n_tx n)))"

lemma apply_text_op_ok:
  assumes inv: "tp_inv p" and room: "tp_size p + op_chars key op \<le> MAX_ITEMS"
  shows "\<exists>q. apply_text_op tx key op p = Ret q \<and> tp_inv q \<and> tp_size q \<le> tp_size p + op_chars key op"
proof (cases "(key, op)" rule: op_chars.cases)
  case (1 key' k a c)
  with room apply_insert_abs [OF inv] show ?thesis by (fastforce simp: apply_text_op_def inv split: if_splits)
next
  case (2 key' k a cs)
  with room apply_range_insert_ok [OF inv] show ?thesis by (fastforce simp: apply_text_op_def inv split: if_splits)
qed (use inv apply_delete_abs [OF inv] apply_range_delete_ok [OF inv] in \<open>fastforce simp: apply_text_op_def split: if_splits\<close>)+

lemma fold_text_ops_ok:
  "tp_inv p \<Longrightarrow> tp_size p + sum_list (map (op_chars key) ops) \<le> MAX_ITEMS \<Longrightarrow>
   \<exists>q. fold_rust (apply_text_op tx key) ops p = Ret q \<and> tp_inv q \<and> tp_size q \<le> tp_size p + sum_list (map (op_chars key) ops)"
proof (induction ops arbitrary: p)
  case (Cons op ops)
  obtain p1 where p1: "apply_text_op tx key op p = Ret p1" "tp_inv p1" "tp_size p1 \<le> tp_size p + op_chars key op"
    using apply_text_op_ok [OF Cons.prems(1), of key op tx] Cons.prems(2) by auto
  moreover have "tp_size p1 + sum_list (map (op_chars key) ops) \<le> MAX_ITEMS" using p1(3) Cons.prems(2) by simp
  ultimately obtain q where "fold_rust (apply_text_op tx key) ops p1 = Ret q" "tp_inv q"
    "tp_size q \<le> tp_size p1 + sum_list (map (op_chars key) ops)" using Cons.IH by blast
  with p1 show ?case by auto
qed simp

lemma fold_nodes_ok:
  "tp_inv p \<Longrightarrow> tp_size p + sum_list (map (node_chars key) ns) \<le> MAX_ITEMS \<Longrightarrow>
   \<exists>q. fold_rust (\<lambda>n. apply_node n key) ns p = Ret q \<and> tp_inv q \<and> tp_size q \<le> tp_size p + sum_list (map (node_chars key) ns)"
proof (induction ns arbitrary: p)
  case (Cons n ns)
  obtain p1 where p1: "apply_node n key p = Ret p1" "tp_inv p1" "tp_size p1 \<le> tp_size p + node_chars key n"
    using fold_text_ops_ok [OF Cons.prems(1), of key "tx_ops (n_tx n)" "n_tx n"] Cons.prems(2)
    by (auto simp: apply_node_def node_chars_def)
  moreover have "tp_size p1 + sum_list (map (node_chars key) ns) \<le> MAX_ITEMS" using p1(3) Cons.prems(2) by simp
  ultimately obtain q where "fold_rust (\<lambda>n. apply_node n key) ns p1 = Ret q" "tp_inv q"
    "tp_size q \<le> tp_size p1 + sum_list (map (node_chars key) ns)" using Cons.IH by blast
  with p1 show ?case by auto
qed simp

lemma resolve_text_seq_ok:
  assumes "sum_list (map (node_chars key) ns) \<le> MAX_ITEMS"
  shows "\<exists>q. fold_rust (\<lambda>n. apply_node n key) (sort_key node_sort_key ns) tp_default = Ret q \<and> tp_inv q
     \<and> resolve_text_seq ns key = Ret (rga_visible (rs_seq (tp_abs q)))"
proof -
  have "sum_list (map (node_chars key) (sort_key node_sort_key ns)) = sum_list (map (node_chars key) ns)"
    by (metis mset_map mset_sort sum_mset_sum_list)
  then obtain q where "fold_rust (\<lambda>n. apply_node n key) (sort_key node_sort_key ns) tp_default = Ret q" "tp_inv q"
    using fold_nodes_ok [OF tp_default_ok(1), of key "sort_key node_sort_key ns"] assms tp_default_ok(2) by auto
  then show ?thesis by (simp add: resolve_text_seq_def resolve_seq_def build_visible_seq_pairs_abs)
qed

subsection \<open>Nodes without range operations\<close>

fun op_updates :: "transaction \<Rightarrow> string \<Rightarrow> op \<Rightarrow> projection_update_op list" where
  "op_updates tx key (OpText (TextInsert k a c)) = (if k = key then [UpInsert (OpId (tx_lamport tx) (tx_author tx)) a c] else [])"
| "op_updates tx key (OpText (TextDelete k t)) = (if k = key then [UpDelete t] else [])"
| "op_updates tx key _ = []"

fun range_op :: "string \<Rightarrow> op \<Rightarrow> bool" where
  "range_op key (OpText (TextInsertRange k a cs)) = (k = key)"
| "range_op key (OpText (TextDeleteRange k a n)) = (k = key)"
| "range_op key _ = False"

definition node_updates :: "string \<Rightarrow> sync_node \<Rightarrow> projection_update_op list" where
  "node_updates key n = concat (map (op_updates (n_tx n) key) (tx_ops (n_tx n)))"

lemma rbind_done: "rbind r (fold_rust f []) = r"
  by (cases r) simp_all

lemma apply_text_op_updates:
  "\<not> range_op key op \<Longrightarrow> apply_text_op tx key op p = fold_rust apply_update (op_updates tx key op) p"
  by (cases "(tx, key, op)" rule: op_updates.cases) (auto simp: apply_text_op_def rbind_done)

lemma apply_node_updates:
  assumes "\<forall>op \<in> set (tx_ops (n_tx n)). \<not> range_op key op"
  shows "apply_node n key p = fold_rust apply_update (node_updates key n) p"
proof -
  have "fold_rust (apply_text_op tx key) ops p = fold_rust apply_update (concat (map (op_updates tx key) ops)) p"
    if "\<forall>op \<in> set ops. \<not> range_op key op" for tx ops
    using that
  proof (induction ops arbitrary: p)
    case (Cons op ops)
    have "fold_rust (apply_text_op tx key) ops = fold_rust apply_update (concat (map (op_updates tx key) ops))"
      using Cons by (simp add: fun_eq_iff)
    with Cons.prems show ?case by (simp add: apply_text_op_updates fold_rust_append)
  qed simp
  with assms show ?thesis by (simp add: apply_node_def node_updates_def)
qed

lemma fold_nodes_updates:
  assumes "\<forall>n \<in> set ns. \<forall>op \<in> set (tx_ops (n_tx n)). \<not> range_op key op"
  shows "fold_rust (\<lambda>n. apply_node n key) ns p = apply_updates_coalesced (concat (map (node_updates key) ns)) p"
  unfolding apply_updates_fold using assms
proof (induction ns arbitrary: p)
  case (Cons n ns)
  have "fold_rust (\<lambda>n. apply_node n key) ns = fold_rust apply_update (concat (map (node_updates key) ns))"
    using Cons by (simp add: fun_eq_iff)
  with Cons.prems show ?case by (simp add: apply_node_updates fold_rust_append)
qed simp

lemma updates_converge:
  assumes "unique_ids (inserts_of us)" "set us = set vs" "length us \<le> MAX_ITEMS" "length vs \<le> MAX_ITEMS"
    and p: "tp_inv p" "tp_size p = 0" "tp_abs p = rga_init" and q: "tp_inv q" "tp_size q = 0" "tp_abs q = rga_init"
  shows "\<exists>p' q'. apply_updates_coalesced us p = Ret p' \<and> apply_updates_coalesced vs q = Ret q'
     \<and> tp_inv p' \<and> tp_inv q' \<and> rs_seq (tp_abs p') = rs_seq (tp_abs q')"
proof -
  obtain p' where "apply_updates_coalesced us p = Ret p'" "tp_inv p'" "tp_abs p' = fold rga_apply us rga_init"
    using apply_updates_abs [OF p(1), of us] assms(3) p by auto
  moreover obtain q' where "apply_updates_coalesced vs q = Ret q'" "tp_inv q'" "tp_abs q' = fold rga_apply vs rga_init"
    using apply_updates_abs [OF q(1), of vs] assms(4) q by auto
  ultimately show ?thesis using rga_converges [OF assms(1,2)] by simp
qed

section \<open>Properties\<close>

text \<open>C6: applying one update to a projection in a valid state, with room for a character, returns,
  keeps the state valid, and changes the flat sequence it stands for as the abstract operation does.\<close>

theorem text_update_refines:
  assumes "tp_inv p" "tp_size p < MAX_ITEMS"
  shows "\<exists>p'. apply_update u p = Ret p' \<and> tp_inv p' \<and> tp_size p' \<le> Suc (tp_size p) \<and> tp_abs p' = rga_apply u (tp_abs p)"
  using assms by (rule apply_update_abs)

theorem text_update_refines_witness:
  "\<exists>p'. apply_update (UpInsert (OpId 1 1) None 97) tp_default = Ret p' \<and> tp_inv p'
     \<and> rs_seq (tp_abs p') = [(OpId 1 1, 97, False)]"
  using text_update_refines [OF tp_default_ok(1), of "UpInsert (OpId 1 1) None 97"] tp_default_ok
  by (auto simp: MAX_ITEMS_def rga_apply_insert_def rga_integrate_def rga_insert_def rga_init_def orphan_ids_of_def)

text \<open>C1: two replicas that apply the same set of updates, in any order and with any repetition, both
  return, and show the same characters with the same identities, when each identifier names one insert.\<close>

theorem text_replicas_converge:
  assumes "unique_ids (inserts_of us)" "set us = set vs" "length us \<le> MAX_ITEMS" "length vs \<le> MAX_ITEMS"
  shows "\<exists>p q. apply_updates_coalesced us tp_default = Ret p \<and> apply_updates_coalesced vs tp_default = Ret q
     \<and> fst (resolve_seq p) = fst (resolve_seq q) \<and> fst (resolve_string p) = fst (resolve_string q)"
proof -
  obtain p q where "apply_updates_coalesced us tp_default = Ret p" "apply_updates_coalesced vs tp_default = Ret q"
    "tp_inv p" "tp_inv q" "rs_seq (tp_abs p) = rs_seq (tp_abs q)"
    using updates_converge [OF assms tp_default_ok tp_default_ok] by blast
  then show ?thesis
    by (simp add: resolve_seq_def resolve_string_def build_visible_seq_pairs_abs visible_string_abs)
qed

theorem text_replicas_converge_witness:
  "\<exists>p q. apply_updates_coalesced [UpInsert (OpId 1 1) None 97, UpInsert (OpId 2 2) (Some (OpId 1 1)) 98, UpDelete (OpId 1 1)] tp_default = Ret p
     \<and> apply_updates_coalesced [UpDelete (OpId 1 1), UpInsert (OpId 2 2) (Some (OpId 1 1)) 98, UpInsert (OpId 1 1) None 97] tp_default = Ret q
     \<and> fst (resolve_string p) = fst (resolve_string q)"
proof -
  have "unique_ids (inserts_of [UpInsert (OpId 1 1) None 97, UpInsert (OpId 2 2) (Some (OpId 1 1)) 98, UpDelete (OpId 1 1)])"
    by (simp add: unique_ids_def inserts_of_def op_insert_def)
  then show ?thesis
    using text_replicas_converge [of "[UpInsert (OpId 1 1) None 97, UpInsert (OpId 2 2) (Some (OpId 1 1)) 98, UpDelete (OpId 1 1)]"
        "[UpDelete (OpId 1 1), UpInsert (OpId 2 2) (Some (OpId 1 1)) 98, UpInsert (OpId 1 1) None 97]"]
    by (auto simp: MAX_ITEMS_def)
qed

text \<open>C9: in a valid state all reads agree: the string is the characters of the sequence, a range read
  is a slice of the string and never panics, the length and the identifier at an offset are those of the
  sequence, and turning an offset into an anchor and back gives the offset, clamped to the length.\<close>

theorem text_reads_agree:
  assumes "tp_inv p"
  shows "fst (resolve_string p) = map snd (fst (resolve_seq p))
    \<and> fst (resolve_string_range start n p) = Ret (take n (drop start (fst (resolve_string p))))
    \<and> visible_char_len p = length (fst (resolve_seq p))
    \<and> id_at_visible_offset p i = (if i < length (fst (resolve_seq p)) then Some (fst (fst (resolve_seq p) ! i)) else None)
    \<and> offset_for_anchor p (anchor_for_offset p i) = min i (visible_char_len p)"
  using assms resolve_string_range_abs [OF assms] anchor_roundtrip_abs [OF assms] id_at_visible_offset_abs [OF assms]
  by (simp add: resolve_seq_def resolve_string_def build_visible_seq_pairs_abs visible_string_abs visible_char_len_def
      shown_view(2) rga_visible_abs)

theorem text_reads_agree_witness:
  "fst (resolve_string_range 3 2 tp_default) = Ret [] \<and> offset_for_anchor tp_default (anchor_for_offset tp_default 5) = 0"
  using text_reads_agree [OF tp_default_ok(1), of 3 2 5] by (simp add: resolve_string_def visible_char_len_def tp_default_def)



text \<open>C11: deleting a range returns and cuts exactly the window of visible characters that starts at the
  anchor's index.\<close>

theorem range_delete_cuts:
  assumes "tp_inv p"
  shows "\<exists>q. apply_range_delete anchor n p = Ret q \<and> tp_inv q
     \<and> tp_visible_string q = take (resolve_anchor_index p anchor) (tp_visible_string p)
          @ drop (resolve_anchor_index p anchor + n) (tp_visible_string p)"
  using apply_range_delete_ok [OF assms, of anchor n] by (fastforce simp: shown_view(1) assms take_map drop_map)

theorem range_delete_cuts_witness:
  "\<exists>q. apply_range_delete Start 4 tp_default = Ret q \<and> tp_visible_string q = []"
  using range_delete_cuts [OF tp_default_ok(1), of Start 4] by (auto simp: tp_default_def)

text \<open>C12: replaying nodes never panics while they carry at most \<open>MAX_ITEMS\<close> characters for the key, and
  the result does not depend on the order in which the nodes are given.\<close>

theorem text_replay_total:
  assumes "sum_list (map (node_chars key) ns) \<le> MAX_ITEMS" "inj_on node_sort_key (set ns)" "mset ns = mset ms"
  shows "\<exists>s. resolve_text_seq ns key = Ret s \<and> resolve_text_seq ms key = Ret s \<and> resolve_text ns key = Ret (map snd s)"
proof -
  have "sort_key node_sort_key ns = sort_key node_sort_key ms"
    by (rule sort_key_inj_key_eq) (use assms(2,3) in simp_all)
  then have "resolve_text_seq ns key = resolve_text_seq ms key" by (simp add: resolve_text_seq_def)
  then show ?thesis using resolve_text_seq_ok [OF assms(1)] by (auto simp: resolve_text_def)
qed

definition sample_text_node :: "u64 \<Rightarrow> pubkey \<Rightarrow> op_id option \<Rightarrow> scalar \<Rightarrow> sync_node" where
  "sample_text_node l a after_id c = \<lparr>n_id = ucast l, n_tx = \<lparr>tx_author = a, tx_lamport = l, tx_wall_ms = 0,
     tx_ops = [OpText (TextInsert ''t'' after_id c)], tx_parents = []\<rparr>, n_sig = 0\<rparr>"

theorem text_replay_total_witness:
  "\<exists>s. resolve_text_seq [sample_text_node 1 1 None 97, sample_text_node 2 2 None 98] ''t'' = Ret s
     \<and> resolve_text_seq [sample_text_node 2 2 None 98, sample_text_node 1 1 None 97] ''t'' = Ret s"
proof -
  let ?ns = "[sample_text_node 1 1 None 97, sample_text_node 2 2 None 98]"
  have "sum_list (map (node_chars ''t'') ?ns) \<le> MAX_ITEMS"
    by (simp add: node_chars_def sample_text_node_def MAX_ITEMS_def)
  moreover have "inj_on node_sort_key (set ?ns)" by (simp add: inj_on_def node_sort_key_def sample_text_node_def)
  ultimately show ?thesis
    using text_replay_total [of "''t''" ?ns "[sample_text_node 2 2 None 98, sample_text_node 1 1 None 97]"] by auto
qed

text \<open>C5: for nodes without range operations on the key, in which each identifier names one insert,
  building the projection from the nodes in any order gives what replay in canonical order gives.\<close>

theorem incremental_equals_replay:
  assumes "\<forall>n \<in> set ns. \<forall>op \<in> set (tx_ops (n_tx n)). \<not> range_op key op"
    and "unique_ids (inserts_of (concat (map (node_updates key) ns)))"
    and "length (concat (map (node_updates key) ns)) \<le> MAX_ITEMS" "mset ns = mset ms"
  shows "\<exists>p. from_nodes ns key = Ret p \<and> resolve_text_seq ms key = Ret (fst (resolve_seq p))"
proof -
  let ?ms = "sort_key node_sort_key ms" and ?us = "\<lambda>ns. concat (map (node_updates key) ns)"
  let ?d = "tp_default\<lparr>tp_full_rebuild_count := 1\<rparr>"
  have m: "mset ?ms = mset ns" using assms(4) by simp
  have eq: "mset (?us ?ms) = mset (?us ns)" using m by (rule mset_concat_map_perm)
  have d: "tp_inv ?d" "tp_size ?d = 0" "tp_abs ?d = rga_init"
    using tp_inv_cong [of ?d tp_default] tp_default_ok by simp_all
  have "\<exists>p q. apply_updates_coalesced (?us ns) ?d = Ret p \<and> apply_updates_coalesced (?us ?ms) tp_default = Ret q
      \<and> tp_inv p \<and> tp_inv q \<and> rs_seq (tp_abs p) = rs_seq (tp_abs q)"
    by (rule updates_converge [OF assms(2) mset_eq_setD [OF eq, symmetric] assms(3) _ d tp_default_ok])
      (use mset_eq_length [OF eq] assms(3) in simp)
  then obtain p q where pq: "apply_updates_coalesced (?us ns) ?d = Ret p" "apply_updates_coalesced (?us ?ms) tp_default = Ret q"
    "tp_inv p" "tp_inv q" "rs_seq (tp_abs p) = rs_seq (tp_abs q)" by blast
  have "from_nodes ns key = Ret p" using pq(1) fold_nodes_updates [OF assms(1)] by (simp add: from_nodes_def)
  moreover have "\<forall>n \<in> set ?ms. \<forall>op \<in> set (tx_ops (n_tx n)). \<not> range_op key op" using assms(1) m mset_eq_setD by fastforce
  then have "resolve_text_seq ms key = Ret (fst (resolve_seq q))"
    using pq(2) fold_nodes_updates [of ?ms key] by (simp add: resolve_text_seq_def)
  ultimately show ?thesis using pq by (simp add: resolve_seq_def build_visible_seq_pairs_abs)
qed

theorem incremental_equals_replay_witness:
  "\<exists>p. from_nodes [sample_text_node 2 2 (Some (OpId 1 1)) 98, sample_text_node 1 1 None 97] ''t'' = Ret p
     \<and> resolve_text_seq [sample_text_node 1 1 None 97, sample_text_node 2 2 (Some (OpId 1 1)) 98] ''t'' = Ret (fst (resolve_seq p))"
  by (rule incremental_equals_replay)
    (auto simp: sample_text_node_def node_updates_def unique_ids_def inserts_of_def op_insert_def MAX_ITEMS_def)

lemma insert_default_shown:
  assumes "tp_inv p" "tp_size p = 0" "tp_abs p = rga_init"
  shows "\<exists>q. apply_insert (OpId l a) None c p = Ret q \<and> tp_inv q \<and> tp_visible_string q = [c]"
proof -
  obtain q where "apply_insert (OpId l a) None c p = Ret q" "tp_inv q" "tp_abs q = rga_apply_insert (OpId l a) None c rga_init"
    using apply_insert_abs [OF assms(1), of "OpId l a" None c] assms(2,3) by (auto simp: MAX_ITEMS_def)
  then show ?thesis
    by (simp add: visible_string_abs rga_apply_insert_def rga_integrate_def rga_insert_def rga_init_def orphan_ids_of_def rga_visible_def)
qed

text \<open>C40: a range delete resolves its anchor against the characters already present, so two replicas
  that receive a concurrent insert and range delete in different orders show different texts.\<close>

theorem range_delete_order_dependent:
  fixes l m :: u64 and a b :: pubkey
  defines "ins \<equiv> sample_text_node l a None 97"
    and "del \<equiv> \<lparr>n_id = 9, n_tx = \<lparr>tx_author = b, tx_lamport = m, tx_wall_ms = 0,
      tx_ops = [OpText (TextDeleteRange ''t'' Start 1)], tx_parents = []\<rparr>, n_sig = 0\<rparr>"
  shows "\<exists>p q. from_nodes [ins, del] ''t'' = Ret p \<and> from_nodes [del, ins] ''t'' = Ret q
     \<and> fst (resolve_string p) = [] \<and> fst (resolve_string q) = [97]"
proof -
  let ?d = "tp_default\<lparr>tp_full_rebuild_count := 1\<rparr>"
  have d: "tp_inv ?d" "tp_size ?d = 0" "tp_abs ?d = rga_init"
    using tp_inv_cong [of ?d tp_default] tp_default_ok by simp_all
  obtain p1 where p1: "apply_insert (OpId l a) None 97 ?d = Ret p1" "tp_inv p1" "tp_visible_string p1 = [97]"
    using insert_default_shown [OF d] by blast
  obtain p where p: "apply_range_delete Start 1 p1 = Ret p" "tp_visible_string p = []"
    using apply_range_delete_ok [OF p1(2), of Start 1] p1(2,3) shown_view(1)
    by (fastforce simp: resolve_anchor_index_def)
  let ?d2 = "?d\<lparr>tp_range_delete_ops_applied := sat_add 0 1\<rparr>"
  have "apply_range_delete Start 1 ?d = Ret ?d2"
    by (simp add: apply_range_delete_def resolve_anchor_index_def tp_default_def)
  moreover have "\<exists>q. apply_insert (OpId l a) None 97 ?d2 = Ret q \<and> tp_inv q \<and> tp_visible_string q = [97]"
    by (rule insert_default_shown) (use d in \<open>simp_all only: tp_inv_counters\<close>)
  ultimately show ?thesis
    using p1 p by (auto simp: from_nodes_def apply_node_def apply_text_op_def ins_def del_def sample_text_node_def resolve_string_def)
qed

end
