(* ===== verification/Text_Range.thy ===== *)
theory Text_Range
  imports Text_Props
begin

text \<open>
  Range edits (\<open>core/crdt/src/text_range.rs\<close>): the derived character identity, the range operation of
  the public interface, its lowering to a stream of character edits and their materialisation as
  operations. Lowering a range and applying the characters one by one shows what the projection's own
  range operations show.
\<close>

section \<open>Definitions\<close>

record text_char_id =
  tc_base :: op_id
  tc_offset :: u32

definition derive_text_char_id :: "op_id \<Rightarrow> u32 \<Rightarrow> text_char_id" where
  "derive_text_char_id base offset = \<lparr>tc_base = base, tc_offset = offset\<rparr>"

datatype text_range_op =
    RangeInsert string text_range_anchor "scalar list"
  | RangeDelete string text_range_anchor nat

datatype lowered_text_edit =
    InsertFirst string "op_id option" scalar
  | InsertNext string scalar
  | LoweredDelete string op_id

definition range_anchor_index :: "(op_id \<times> scalar) list \<Rightarrow> text_range_anchor \<Rightarrow> nat" where
  "range_anchor_index s anchor =
     (case anchor of
        Start \<Rightarrow> 0
      | End \<Rightarrow> length s
      | Offset i \<Rightarrow> min i (length s)
      | After i \<Rightarrow> (case position (\<lambda>(existing, _). existing = i) s of Some k \<Rightarrow> k + 1 | None \<Rightarrow> length s))"

fun lower_insert ::
  "(op_id \<times> scalar) list \<Rightarrow> string \<Rightarrow> text_range_anchor \<Rightarrow> scalar list \<Rightarrow> lowered_text_edit list" where
  "lower_insert s key anchor [] = []"
| "lower_insert s key anchor (first_ch # chars) =
     (let insertion_index = range_anchor_index s anchor;
          after_existing = (if insertion_index = 0 then None else Some (fst (s ! (insertion_index - 1))))
      in InsertFirst key after_existing first_ch # map (InsertNext key) chars)"

definition lower_delete ::
  "(op_id \<times> scalar) list \<Rightarrow> string \<Rightarrow> text_range_anchor \<Rightarrow> nat \<Rightarrow> lowered_text_edit list" where
  "lower_delete s key anchor len_chars =
     (if len_chars = 0 then []
      else let start = range_anchor_index s anchor; stop = min (start + len_chars) (length s)
           in map (\<lambda>(i, _). LoweredDelete key i) (take (stop - start) (drop start s)))"

fun lower_text_range_op :: "(op_id \<times> scalar) list \<Rightarrow> text_range_op \<Rightarrow> lowered_text_edit list" where
  "lower_text_range_op s (RangeInsert key anchor chs) = lower_insert s key anchor chs"
| "lower_text_range_op s (RangeDelete key anchor len_chars) = lower_delete s key anchor len_chars"

fun materialize_loop :: "pubkey \<Rightarrow> op_id option \<Rightarrow> u64 \<Rightarrow> lowered_text_edit list \<Rightarrow> text_op list" where
  "materialize_loop author previous_inserted next_lamport [] = []"
| "materialize_loop author previous_inserted next_lamport (InsertFirst key after_existing ch # edits) =
     TextInsert key after_existing ch
       # materialize_loop author (Some (OpId next_lamport author)) (sat_add next_lamport 1) edits"
| "materialize_loop author previous_inserted next_lamport (InsertNext key ch # edits) =
     TextInsert key previous_inserted ch
       # materialize_loop author (Some (OpId next_lamport author)) (sat_add next_lamport 1) edits"
| "materialize_loop author previous_inserted next_lamport (LoweredDelete key target # edits) =
     TextDelete key target # materialize_loop author previous_inserted next_lamport edits"

definition materialize_lowered_edits :: "lowered_text_edit list \<Rightarrow> pubkey \<Rightarrow> u64 \<Rightarrow> text_op list" where
  "materialize_lowered_edits edits author next_lamport = materialize_loop author None next_lamport edits"

section \<open>Anchors against the visible sequence\<close>

lemma visible_offset_item:
  assumes "tp_inv p" "visible_offset_of_id p c = Some off"
  shows "off < length (shown p)" "i_id (shown p ! off) = c"
proof -
  note ix = tp_inv_parts [OF assms(1)]
  obtain l where l: "loc_of_id p c = Some l" "\<not> i_deleted (item_at p l)" "off = visible_prefix_at p l"
    using assms(2) by (auto simp: visible_offset_of_id_def split: option.splits if_splits)
  have "c \<in> i_id ` set (flat p)" using l(1) loc_of_id_absent [OF ix(1,3)] by fastforce
  then have at: "at_item p l" "i_id (item_at p l) = c" using loc_of_id_present [OF ix(1,3)] l(1) by (metis option.inject)+
  have off: "off = length (visible_of (take (flat_idx p l) (flat p)))"
    using l(3) visible_prefix_flat [OF ix(2) at_item_gap(1) [OF at(1)]] by simp
  show "off < length (shown p)" by (rule visible_offset_le [OF assms])
  have "\<not> i_deleted (flat p ! flat_idx p l)" using l(2) item_at_flat [OF at(1)] by simp
  then have "shown p ! off = flat p ! flat_idx p l"
    using visible_take_nth [OF flat_idx_less [OF at(1)]] off by (simp add: shown_def)
  then show "i_id (shown p ! off) = c" using at(2) item_at_flat [OF at(1)] by simp
qed

lemma anchor_index_seq:
  assumes "tp_inv p"
  shows "resolve_anchor_index p anchor = range_anchor_index (rga_visible (rs_seq (tp_abs p))) anchor"
proof (cases anchor)
  case (After i)
  note ix = tp_inv_parts [OF assms]
  let ?s = "rga_visible (rs_seq (tp_abs p))"
  have len: "length ?s = length (shown p)" by (simp add: rga_visible_abs)
  have cid: "cid_ok (tp_actors p) (i_id (shown p ! k))" if "k < length (shown p)" for k
    using names_cids(2) [OF ix(5)] shown_in_flat [of "shown p ! k" p] that by simp
  show ?thesis
  proof (cases "position (\<lambda>(existing, _). existing = i) ?s")
    case None
    have "visible_offset_of_id p c = None" if "from_op_id_existing i (tp_actors p) = Some c" for c
    proof (rule ccontr)
      assume "visible_offset_of_id p c \<noteq> None"
      then obtain k where k: "k < length (shown p)" "i_id (shown p ! k) = c" using visible_offset_item [OF assms] by blast
      have "opid (tp_actors p) c = i"
        using that names_cids(1) [OF ix(5)] by (cases i) (auto simp: from_op_id_existing_def opid_def actors_ok_def)
      then have "?s ! k = (i, i_ch (shown p ! k))" using k by (simp add: rga_visible_abs)
      then have "(i, i_ch (shown p ! k)) \<in> set ?s" using k(1) len nth_mem [of k ?s] by simp
      then show False using None by (auto simp: position_None_iff)
    qed
    then show ?thesis
      using After None shown_view(2) [OF assms] len
      by (auto simp: resolve_anchor_index_def range_anchor_index_def split: option.split)
  next
    case (Some k)
    have k: "k < length (shown p)" "opid (tp_actors p) (i_id (shown p ! k)) = i"
      using position_SomeD [OF Some] by (auto simp: rga_visible_abs)
    then have "from_op_id_existing i (tp_actors p) = Some (i_id (shown p ! k))"
      using from_op_id_existing_opid [OF names_cids(1) [OF ix(5)] cid [OF k(1)]] by simp
    then show ?thesis
      using After Some loc_of_id_shown [OF assms k(1)] by (simp add: resolve_anchor_index_def range_anchor_index_def)
  qed
qed (use shown_view(2) [OF assms] in \<open>simp_all add: resolve_anchor_index_def range_anchor_index_def rga_visible_abs\<close>)

lemma range_anchor_index_le: "range_anchor_index s anchor \<le> length s"
  by (auto simp: range_anchor_index_def Suc_le_eq dest: position_SomeD split: text_range_anchor.split option.split)

section \<open>Character by character\<close>

definition text_tx :: "pubkey \<Rightarrow> u64 \<Rightarrow> text_op \<Rightarrow> transaction" where
  "text_tx author l t = \<lparr>tx_author = author, tx_lamport = l, tx_wall_ms = 0, tx_ops = [OpText t], tx_parents = []\<rparr>"

text \<open>Each operation in a transaction of its own, at consecutive clock values.\<close>

fun apply_singly :: "pubkey \<Rightarrow> u64 \<Rightarrow> string \<Rightarrow> text_op list \<Rightarrow> text_projection \<Rightarrow> text_projection rust" where
  "apply_singly author l key [] p = Ret p"
| "apply_singly author l key (t # ts) p =
     rbind (apply_text_op (text_tx author l t) key (OpText t) p) (apply_singly author (sat_add l 1) key ts)"

lemma sat_add_0 [simp]: "sat_add a 0 = a" for a :: u64
  using unsigned_less [of a, where ?'a = nat] by (simp add: word_unat_eq_iff unat_sat_add)

lemma sat_add_Suc:
  assumes "Suc off < 2 ^ 64"
  shows "sat_add (sat_add base (word_of_nat off)) 1 = (sat_add base (word_of_nat (Suc off)) :: u64)"
proof -
  have "unat (word_of_nat off :: u64) = off" "unat (word_of_nat (Suc off) :: u64) = Suc off"
    using assms by (simp_all add: unat_of_nat del: of_nat_Suc)
  then show ?thesis by (simp add: word_unat_eq_iff unat_sat_add del: of_nat_Suc)
qed

lemma apply_singly_inserts:
  assumes "off + length chs < 2 ^ 64" "l = sat_add base (word_of_nat off)"
  shows "apply_singly author l key (materialize_loop author prev l (map (InsertNext key) chs)) p =
    apply_updates_coalesced (range_updates base author off prev chs) p"
  using assms
proof (induction chs arbitrary: off l prev p)
  case (Cons ch chs)
  have "apply_singly author (sat_add l 1) key (materialize_loop author (Some (OpId l author)) (sat_add l 1) (map (InsertNext key) chs))
      = apply_updates_coalesced (range_updates base author (Suc off) (Some (OpId l author)) chs)"
    using Cons.IH [of "Suc off" "sat_add l 1"] Cons.prems sat_add_Suc [of off base] by (simp add: fun_eq_iff)
  then show ?case using Cons.prems(2) by (simp add: apply_updates_fold Let_def apply_text_op_def text_tx_def)
qed (simp add: apply_updates_fold)

lemma range_delete_loop_abs:
  "tp_inv p \<Longrightarrow> start + k \<le> length (shown p) \<Longrightarrow> \<exists>q. range_delete_loop k start p = Ret q \<and> tp_inv q
     \<and> tp_abs q = fold rga_apply_delete (map (\<lambda>it. opid (tp_actors p) (i_id it)) (take k (drop start (shown p)))) (tp_abs p)"
proof (induction k arbitrary: p)
  case (Suc k)
  obtain l p1 where p1: "loc_of_visible_offset p start = Some l" "delete_known (i_id (item_at p l)) p = Ret p1" "tp_inv p1"
    "shown p1 = take start (shown p) @ drop (Suc start) (shown p)" "tp_actors p1 = tp_actors p"
    "tp_abs p1 = rga_apply_delete (opid (tp_actors p) (i_id (shown p ! start))) (tp_abs p)"
    using delete_shown [OF Suc.prems(1), of start] Suc.prems(2) by auto
  have len: "start + k \<le> length (shown p1)" using Suc.prems(2) p1(4) by simp
  note p1
  moreover have "drop start (shown p) = shown p ! start # drop start (shown p1)"
    using Suc.prems(2) p1(4) by (simp add: Cons_nth_drop_Suc)
  moreover obtain q where "range_delete_loop k start p1 = Ret q" "tp_inv q"
    "tp_abs q = fold rga_apply_delete (map (\<lambda>it. opid (tp_actors p1) (i_id it)) (take k (drop start (shown p1)))) (tp_abs p1)"
    using Suc.IH [OF p1(3)] len by blast
  ultimately show ?case by simp
qed simp

lemma apply_range_delete_abs:
  assumes "tp_inv p"
  defines "s \<equiv> rga_visible (rs_seq (tp_abs p))"
  shows "\<exists>q. apply_range_delete anchor n p = Ret q \<and> tp_inv q
     \<and> tp_abs q = fold rga_apply_delete (map fst (take n (drop (range_anchor_index s anchor) s))) (tp_abs p)"
proof (cases "n = 0")
  case True
  with assms(1) show ?thesis by (simp add: apply_range_delete_def)
next
  case False
  let ?p = "p\<lparr>tp_range_delete_ops_applied := sat_add (tp_range_delete_ops_applied p) 1\<rparr>"
  let ?start = "resolve_anchor_index p anchor"
  let ?k = "min n (length (shown p) - ?start)"
  have st: "range_anchor_index s anchor = ?start" unfolding s_def by (rule anchor_index_seq [OF assms(1), symmetric])
  have sh: "shown ?p = shown p" by (simp add: shown_def tp_inv_counters)
  have "?start + ?k \<le> length (shown ?p)" using resolve_anchor_index_le [OF assms(1), of anchor] sh by auto
  then obtain q where q: "range_delete_loop ?k ?start ?p = Ret q" "tp_inv q"
    "tp_abs q = fold rga_apply_delete (map (\<lambda>it. opid (tp_actors p) (i_id it)) (take ?k (drop ?start (shown p)))) (tp_abs p)"
    using range_delete_loop_abs [of ?p ?start ?k] sh assms(1) by (auto simp: tp_inv_counters)
  have "map fst (take n (drop ?start s)) = map (\<lambda>it. opid (tp_actors p) (i_id it)) (take n (drop ?start (shown p)))"
    by (simp add: s_def rga_visible_abs comp_def flip: take_map drop_map)
  also have "take n (drop ?start (shown p)) = take ?k (drop ?start (shown p))"
    by (metis length_drop min.commute take_all_iff take_take nle_le min_def)
  finally have "map fst (take n (drop ?start s)) = map (\<lambda>it. opid (tp_actors p) (i_id it)) (take ?k (drop ?start (shown p)))" .
  moreover have "apply_range_delete anchor n p = range_delete_loop ?k ?start ?p"
    using False shown_view(2) [OF assms(1)] by (simp add: apply_range_delete_def Let_def resolve_anchor_index_counters)
  ultimately show ?thesis using q by (simp add: st)
qed

lemma apply_singly_deletes:
  "tp_inv p \<Longrightarrow> \<exists>q. apply_singly author l key (materialize_loop author prev nl (map (LoweredDelete key) is)) p = Ret q
     \<and> tp_inv q \<and> tp_abs q = fold rga_apply_delete is (tp_abs p)"
proof (induction "is" arbitrary: p l)
  case (Cons i "is")
  obtain p1 where p1: "apply_delete i p = Ret p1" "tp_inv p1" "tp_abs p1 = rga_apply_delete i (tp_abs p)"
    using apply_delete_abs [OF Cons.prems] by blast
  from Cons.IH [OF p1(2), of "sat_add l 1"] p1 show ?case by (auto simp: apply_text_op_def text_tx_def)
qed simp

fun range_text_op :: "text_range_op \<Rightarrow> text_op" where
  "range_text_op (RangeInsert key anchor chs) = TextInsertRange key anchor chs"
| "range_text_op (RangeDelete key anchor n) = TextDeleteRange key anchor n"

lemma lower_insert_next:
  assumes "chs \<noteq> []"
  shows "materialize_lowered_edits (lower_insert s key anchor chs) author l = materialize_loop author
     (let k = range_anchor_index s anchor in if k = 0 then None else Some (fst (s ! (k - 1)))) l (map (InsertNext key) chs)"
  using assms by (cases chs) (simp_all add: materialize_lowered_edits_def Let_def)

lemma lower_delete_ids:
  "lower_delete s key anchor n = map (LoweredDelete key) (map fst (take n (drop (range_anchor_index s anchor) s)))"
proof -
  let ?k = "range_anchor_index s anchor"
  have "take (min (?k + n) (length s) - ?k) (drop ?k s) = take n (drop ?k s)"
    by (simp add: min_def)
  then show ?thesis by (simp add: lower_delete_def Let_def comp_def case_prod_unfold)
qed

lemma anchor_after_seq:
  assumes "tp_inv p"
  defines "s \<equiv> rga_visible (rs_seq (tp_abs p))"
  shows "resolve_anchor_after_visible p anchor =
     (let k = range_anchor_index s anchor in if k = 0 then None else Some (fst (s ! (k - 1))))"
proof -
  have "length (shown p) = length s" by (simp add: s_def rga_visible_abs)
  then show ?thesis
    using range_anchor_index_le [of s anchor] anchor_index_seq [OF assms(1), of anchor] id_at_visible_offset_abs [OF assms(1)]
    by (auto simp: resolve_anchor_after_visible_def Let_def s_def rga_visible_abs)
qed

section \<open>Properties\<close>

text \<open>C13: lowering a range edit against the visible sequence and applying the materialised character
  operations one transaction at a time returns and shows what applying the range operation shows.\<close>

theorem range_lowering_equivalent:
  assumes inv: "tp_inv p" and room: "tp_size p + op_chars key (OpText (range_text_op rop)) \<le> MAX_ITEMS"
    and key: "text_op_key (range_text_op rop) = key"
  shows "\<exists>q r. apply_text_op (text_tx author l (range_text_op rop)) key (OpText (range_text_op rop)) p = Ret q
     \<and> apply_singly author l key
         (materialize_lowered_edits (lower_text_range_op (fst (resolve_seq p)) rop) author l) p = Ret r
     \<and> fst (resolve_seq r) = fst (resolve_seq q)"
proof -
  let ?s = "rga_visible (rs_seq (tp_abs p))"
  have s: "fst (resolve_seq q) = rga_visible (rs_seq (tp_abs q))" if "tp_inv q" for q
    using that by (simp add: resolve_seq_def build_visible_seq_pairs_abs)
  show ?thesis
  proof (cases rop)
    case (RangeInsert k anchor chs)
    then have room': "tp_size p + length chs \<le> MAX_ITEMS" "k = key" using room key by simp_all
    obtain q where q: "apply_range_insert l author anchor chs p = Ret q" "tp_inv q"
      "tp_abs q = fold rga_apply (range_updates l author 0 (resolve_anchor_after_visible p anchor) chs) (tp_abs p)"
      using apply_range_insert_ok [OF inv room'(1)] by blast
    have "length chs < 2 ^ 64" using room'(1) by (simp add: MAX_ITEMS_def)
    then have "chs \<noteq> [] \<Longrightarrow> apply_singly author l key (materialize_lowered_edits (lower_insert ?s key anchor chs) author l) p =
        apply_updates_coalesced (range_updates l author 0 (resolve_anchor_after_visible p anchor) chs) p"
      using apply_singly_inserts [of 0 chs l l] by (simp add: lower_insert_next anchor_after_seq [OF inv])
    moreover have "apply_singly author l key (materialize_lowered_edits (lower_insert ?s key anchor []) author l) p = Ret p"
      by (simp add: materialize_lowered_edits_def)
    moreover obtain r where "apply_updates_coalesced (range_updates l author 0 (resolve_anchor_after_visible p anchor) chs) p = Ret r"
      "tp_inv r" "tp_abs r = tp_abs q"
      using apply_updates_abs [OF inv, of "range_updates l author 0 (resolve_anchor_after_visible p anchor) chs"] room' q(3) by auto
    ultimately show ?thesis
      using q RangeInsert room'(2) inv by (cases "chs = []") (auto simp: apply_text_op_def text_tx_def s)
  next
    case (RangeDelete k anchor n)
    let ?is = "map fst (take n (drop (range_anchor_index ?s anchor) ?s))"
    obtain q where q: "apply_range_delete anchor n p = Ret q" "tp_inv q" "tp_abs q = fold rga_apply_delete ?is (tp_abs p)"
      using apply_range_delete_abs [OF inv] by blast
    obtain r where "apply_singly author l key (materialize_loop author None l (map (LoweredDelete key) ?is)) p = Ret r"
      "tp_inv r" "tp_abs r = tp_abs q"
      using apply_singly_deletes [OF inv, of author l key None l ?is] q(3) by auto
    with q RangeDelete key show ?thesis
      by (simp add: apply_text_op_def s inv materialize_lowered_edits_def lower_delete_ids)
  qed
qed

theorem range_lowering_equivalent_witness:
  "\<exists>q r. apply_text_op (text_tx 3 5 (TextInsertRange ''t'' Start [97, 98])) ''t'' (OpText (TextInsertRange ''t'' Start [97, 98])) tp_default = Ret q
     \<and> apply_singly 3 5 ''t'' [TextInsert ''t'' None 97, TextInsert ''t'' (Some (OpId 5 3)) 98] tp_default = Ret r
     \<and> fst (resolve_seq r) = fst (resolve_seq q)"
  using range_lowering_equivalent [OF tp_default_ok(1), of "''t''" "RangeInsert ''t'' Start [97, 98]" 3 5] tp_default_ok(2)
  by (simp add: MAX_ITEMS_def materialize_lowered_edits_def range_anchor_index_def)

end
