(* ===== verification/Frac_Idx.thy ===== *)
theory Frac_Idx
  imports Op_Node
begin

text \<open>
  Fractional-index positions (\<open>FracIdx\<close> of \<open>core/crdt/src/list.rs\<close>): base-62 strings in
  lexicographic order and \<open>between\<close>, which makes a new position between two neighbours. Every
  panic of the source is the value \<^const>\<open>Panic\<close>; arithmetic on \<open>u32\<close> digits is the release build's.
\<close>

section \<open>Definitions\<close>

definition ALPHABET :: string where
  "ALPHABET = ''0123456789ABCDEFGHIJKLMNOPQRSTUVWXYZabcdefghijklmnopqrstuvwxyz''"

definition RADIX :: nat where
  "RADIX = 62"

definition REBALANCE_THRESHOLD :: nat where
  "REBALANCE_THRESHOLD = 128"

definition frac_val :: "char \<Rightarrow> nat rust" where
  "frac_val c = (let v = of_char c :: nat in
     if 48 \<le> v \<and> v \<le> 57 then Ret (v - 48)
     else if 65 \<le> v \<and> v \<le> 90 then Ret (v - 65 + 10)
     else if 97 \<le> v \<and> v \<le> 122 then Ret (v - 97 + 36)
     else Panic)"

definition frac_ch :: "nat \<Rightarrow> char" where
  "frac_ch v = ALPHABET ! v"

fun between_unbounded_above :: "string \<Rightarrow> string rust" where
  "between_unbounded_above [] = Ret [frac_ch (RADIX div 2)]"
| "between_unbounded_above (b # rest) =
     (case frac_val b of
        Panic \<Rightarrow> Panic
      | Ret d \<Rightarrow> if d < RADIX - 1 then Ret [frac_ch ((d + RADIX) div 2)]
                else map_rust (\<lambda>out. b # out) (between_unbounded_above rest))"

text \<open>In the release build \<open>rb - la\<close> wraps when \<open>rb < la\<close>, and is then at least 2.\<close>

fun between_bounded :: "string \<Rightarrow> string \<Rightarrow> string rust" where
  "between_bounded (a # left) (b # right) =
     (case frac_val a of
        Panic \<Rightarrow> Panic
      | Ret la \<Rightarrow> (case frac_val b of
          Panic \<Rightarrow> Panic
        | Ret rb \<Rightarrow>
            if la = rb then map_rust (\<lambda>out. frac_ch la # out) (between_bounded left right)
            else if rb < la \<or> 2 \<le> rb - la then Ret [frac_ch ((la + rb) div 2)]
            else map_rust (\<lambda>tail. frac_ch la # tail) (between_unbounded_above left)))"
| "between_bounded [] (b # right) =
     (case frac_val b of
        Panic \<Rightarrow> Panic
      | Ret rb \<Rightarrow>
          if 2 \<le> rb then Ret [frac_ch (rb div 2)]
          else if rb = 0 then map_rust (\<lambda>tail. frac_ch 0 # tail) (between_bounded [] right)
          else Ret [frac_ch 0, frac_ch (RADIX div 2)])"
| "between_bounded (a # left) [] = Panic"
| "between_bounded [] [] = Panic"

definition between_raw :: "string \<Rightarrow> string option \<Rightarrow> string rust" where
  "between_raw left right =
     (case right of None \<Rightarrow> between_unbounded_above left | Some r \<Rightarrow> between_bounded left r)"

definition between :: "frac_idx option \<Rightarrow> frac_idx option \<Rightarrow> frac_idx rust" where
  "between left right =
     (case (left, right) of
        (Some l, Some r) \<Rightarrow> if l < r then between_raw l (Some r) else Panic
      | _ \<Rightarrow> between_raw (case left of None \<Rightarrow> [] | Some l \<Rightarrow> l) right)"

definition frac_first :: frac_idx where
  "frac_first = ''V''"

definition frac_before :: "frac_idx \<Rightarrow> frac_idx rust" where
  "frac_before right = between None (Some right)"

definition frac_after :: "frac_idx \<Rightarrow> frac_idx rust" where
  "frac_after left = between (Some left) None"

section \<open>Digits\<close>

definition base62 :: "string \<Rightarrow> bool" where
  "base62 s \<longleftrightarrow> (\<forall>c \<in> set s. frac_val c \<noteq> Panic)"

definition frac_ok :: "frac_idx \<Rightarrow> bool" where
  "frac_ok s \<longleftrightarrow> s \<noteq> [] \<and> base62 s \<and> last s \<noteq> frac_ch 0"

lemma base62_simps [simp]:
  "base62 []" "base62 (c # s) \<longleftrightarrow> frac_val c \<noteq> Panic \<and> base62 s"
  "base62 (s @ t) \<longleftrightarrow> base62 s \<and> base62 t"
  by (auto simp: base62_def)

lemma ALPHABET_codes: "map of_char ALPHABET = [48..<58] @ [65..<91] @ ([97..<123] :: nat list)"
  by (simp add: ALPHABET_def upt_rec [of "numeral _" "numeral _"])

lemma length_ALPHABET [simp]: "length ALPHABET = 62"
  by (simp add: ALPHABET_def)

lemma nth_code_ranges:
  "v < 62 \<Longrightarrow> ([a..<a + 10] @ [b..<b + 26] @ [c..<c + 26]) ! v
     = (if v < 10 then a + v else if v < 36 then b + (v - 10) else c + (v - 36))"
  by (cases "v < 10"; cases "v < 36") (auto simp: nth_append)

lemma of_char_frac_ch:
  assumes "v < 62"
  shows "of_char (frac_ch v) = (if v < 10 then 48 + v else if v < 36 then 55 + v else 61 + v :: nat)"
proof -
  have "of_char (frac_ch v) = (map of_char ALPHABET :: nat list) ! v"
    using assms by (simp add: frac_ch_def)
  also have "\<dots> = ([48..<48 + 10] @ [65..<65 + 26] @ [97..<97 + 26]) ! v"
    by (simp only: ALPHABET_codes) simp
  finally show ?thesis
    using assms unfolding nth_code_ranges [OF assms] by auto
qed

lemma frac_val_ch [simp]: "v < 62 \<Longrightarrow> frac_val (frac_ch v) = Ret v"
  by (simp add: frac_val_def Let_def of_char_frac_ch)

lemma of_char_eqD: "of_char a = (of_char b :: nat) \<Longrightarrow> a = b"
  by (metis char_of_char)

lemma frac_val_RetD:
  assumes "frac_val c = Ret v"
  shows "v < 62" "frac_ch v = c"
proof -
  show v: "v < 62"
    using assms by (auto simp: frac_val_def Let_def split: if_splits)
  have "of_char (frac_ch v) = (of_char c :: nat)"
    using assms unfolding of_char_frac_ch [OF v]
    by (auto simp: frac_val_def Let_def split: if_splits)
  then show "frac_ch v = c" by (rule of_char_eqD)
qed

lemma frac_digit_cases:
  assumes "frac_val c \<noteq> Panic"
  obtains v where "v < 62" "c = frac_ch v"
  using assms frac_val_RetD by (metis rust.exhaust)

lemma frac_ch_less [simp]: "v < 62 \<Longrightarrow> w < 62 \<Longrightarrow> frac_ch v < frac_ch w \<longleftrightarrow> v < w"
  by (auto simp: less_char_def of_char_frac_ch)

lemma frac_ch_eq [simp]: "v < 62 \<Longrightarrow> w < 62 \<Longrightarrow> frac_ch v = frac_ch w \<longleftrightarrow> v = w"
  by (metis frac_val_ch rust.inject)

section \<open>Positions between two neighbours\<close>

lemma frac_ok_Cons: "frac_ok s \<Longrightarrow> frac_val c \<noteq> Panic \<Longrightarrow> frac_ok (c # s)"
  by (simp add: frac_ok_def)

lemma frac_ok_single: "0 < v \<Longrightarrow> v < 62 \<Longrightarrow> frac_ok [frac_ch v]"
  by (simp add: frac_ok_def)

lemma between_unbounded_above_ok:
  "base62 left \<Longrightarrow> \<exists>m. between_unbounded_above left = Ret m \<and> frac_ok m \<and> left < m
     \<and> length m \<le> length left + 1"
proof (induction left)
  case Nil
  then show ?case by (simp add: RADIX_def frac_ok_single)
next
  case (Cons b left)
  then obtain m where m: "between_unbounded_above left = Ret m" "frac_ok m" "left < m"
    "length m \<le> length left + 1" by auto
  from Cons.prems obtain v where "v < 62" "b = frac_ch v"
    by (auto elim: frac_digit_cases)
  moreover have "v < (v + 62) div 2" if "v < 61"
    using that by linarith
  ultimately show ?case
    using m by (simp add: RADIX_def frac_ok_single frac_ok_Cons)
qed

lemma between_bounded_ok:
  "base62 left \<Longrightarrow> base62 right \<Longrightarrow> left < right \<Longrightarrow> between_bounded left right = Ret m
   \<Longrightarrow> frac_ok m \<and> left < m \<and> m < right \<and> length m \<le> max (length left) (length right) + 1"
proof (induction left right arbitrary: m rule: between_bounded.induct)
  case (1 a left b right)
  obtain v w where vw: "v < 62" "a = frac_ch v" "w < 62" "b = frac_ch w"
    using "1.prems"(1,2) by (metis base62_simps(2) frac_digit_cases)
  consider "v = w" | "v < w" "2 \<le> w - v" | "v < w" "\<not> 2 \<le> w - v"
    using "1.prems"(3) vw by fastforce
  then show ?case
  proof cases
    case 1
    with vw "1.prems" obtain t where t: "between_bounded left right = Ret t" "m = frac_ch v # t"
      and lr: "base62 left" "base62 right" "left < right" by auto
    from "1.IH" [of v w, OF _ _ _ lr t(1)] 1 vw t(2) show ?thesis
      by (simp add: frac_ok_Cons)
  next
    case 2
    with vw "1.prems"(4) have m: "m = [frac_ch ((v + w) div 2)]" by simp
    have "v < (v + w) div 2" "(v + w) div 2 < w" using 2 by linarith+
    with vw show ?thesis by (simp add: m frac_ok_single)
  next
    case 3
    obtain t where t: "between_unbounded_above left = Ret t" "frac_ok t" "left < t"
      "length t \<le> length left + 1"
      using "1.prems"(1) between_unbounded_above_ok [of left] by auto
    with 3 vw "1.prems"(4) have "m = frac_ch v # t" by simp
    with 3 vw t show ?thesis by (simp add: frac_ok_Cons)
  qed
next
  case (2 b right)
  from 2(3) obtain w where w: "w < 62" "b = frac_ch w"
    by (auto elim!: frac_digit_cases)
  consider "w = 0" | "w = 1" | "2 \<le> w" by linarith
  then show ?case
  proof cases
    case 1
    then obtain t where t: "between_bounded [] right = Ret t" "m = frac_ch 0 # t"
      using "2.prems"(4) w by auto
    then have lt: "[] < right" by (cases right) auto
    have "base62 right" using "2.prems"(2) by simp
    from "2.IH" [of w, OF _ _ _ _ this lt t(1)] 1 w t(2) show ?thesis
      by (simp add: frac_ok_Cons)
  next
    case 2
    with w "2.prems"(4) have m: "m = [frac_ch 0, frac_ch 31]" by (simp add: RADIX_def)
    with 2 w show ?thesis by (simp add: frac_ok_def)
  next
    case 3
    with w "2.prems"(4) have m: "m = [frac_ch (w div 2)]" by simp
    have "0 < w div 2" "w div 2 < w" using 3 by linarith+
    with w show ?thesis by (simp add: m frac_ok_single)
  qed
qed simp_all

lemma between_bounded_Panic_iff:
  "base62 left \<Longrightarrow> base62 right \<Longrightarrow> left < right \<Longrightarrow>
   between_bounded left right = Panic \<longleftrightarrow> (\<exists>k. right = left @ replicate (Suc k) (frac_ch 0))"
proof (induction left right rule: between_bounded.induct)
  case (1 a left b right)
  obtain v w where vw: "v < 62" "a = frac_ch v" "w < 62" "b = frac_ch w"
    using "1.prems"(1,2) by (metis base62_simps(2) frac_digit_cases)
  show ?case
    using vw 1 between_unbounded_above_ok [of left] by (cases "v = w") auto
next
  case (2 b right)
  from 2(3) obtain w where w: "w < 62" "b = frac_ch w"
    by (auto elim!: frac_digit_cases)
  have zeros: "(\<exists>k. right = replicate k (frac_ch 0)) \<longleftrightarrow>
      right = [] \<or> (\<exists>k. right = replicate (Suc k) (frac_ch 0))"
    by (metis replicate_0 not0_implies_Suc)
  show ?case
  proof (cases "w = 0")
    case True
    with w 2 have "between_bounded [] right = Panic \<longleftrightarrow>
        right = [] \<or> (\<exists>k. right = replicate (Suc k) (frac_ch 0))"
      by (cases right) auto
    with w True zeros show ?thesis by simp
  next
    case False
    with w show ?thesis by auto
  qed
qed simp_all

definition opt_below :: "frac_idx option \<Rightarrow> frac_idx \<Rightarrow> bool" where
  "opt_below l m \<longleftrightarrow> (case l of None \<Rightarrow> True | Some a \<Rightarrow> a < m)"

definition opt_above :: "frac_idx \<Rightarrow> frac_idx option \<Rightarrow> bool" where
  "opt_above m r \<longleftrightarrow> (case r of None \<Rightarrow> True | Some b \<Rightarrow> m < b)"

definition opt_len :: "frac_idx option \<Rightarrow> nat" where
  "opt_len l = (case l of None \<Rightarrow> 0 | Some a \<Rightarrow> length a)"

lemma between_ok:
  assumes "pred_option base62 l" "pred_option frac_ok r"
    and "\<And>a b. l = Some a \<Longrightarrow> r = Some b \<Longrightarrow> a < b"
  shows "\<exists>m. between l r = Ret m \<and> frac_ok m \<and> opt_below l m \<and> opt_above m r
           \<and> length m \<le> max (opt_len l) (opt_len r) + 1"
proof (cases r)
  case None
  then show ?thesis
    using assms between_unbounded_above_ok [of "case l of None \<Rightarrow> [] | Some a \<Rightarrow> a"]
    by (auto simp: between_def between_raw_def opt_below_def opt_above_def opt_len_def split: option.splits)
next
  case (Some b)
  define a where "a = (case l of None \<Rightarrow> [] | Some a \<Rightarrow> a)"
  have b: "frac_ok b" "base62 b" "b \<noteq> []" using assms Some by (auto simp: frac_ok_def)
  have a: "base62 a" "a < b"
    using assms Some b by (auto simp: a_def neq_Nil_conv split: option.splits)
  have "between_bounded a b \<noteq> Panic"
    using a b between_bounded_Panic_iff [of a b] by (auto simp: frac_ok_def last_append simp del: replicate_Suc)
  then obtain m where m: "between_bounded a b = Ret m" by (cases "between_bounded a b") auto
  moreover have "between l r = between_bounded a b"
    using a Some by (auto simp: between_def between_raw_def a_def split: option.splits)
  ultimately show ?thesis
    using between_bounded_ok [OF a(1) b(2) a(2) m] Some
    by (auto simp: opt_below_def opt_above_def opt_len_def a_def split: option.splits)
qed

section \<open>Editing sessions\<close>

text \<open>
  The position lists a client can build from the empty list by inserting, at any place,
  a position made by \<open>between\<close> from the two neighbours there, and by deleting any position.
\<close>

definition opt_last :: "'a list \<Rightarrow> 'a option" where
  "opt_last xs = (if xs = [] then None else Some (last xs))"

definition opt_hd :: "'a list \<Rightarrow> 'a option" where
  "opt_hd xs = (if xs = [] then None else Some (hd xs))"

inductive frac_session :: "frac_idx list \<Rightarrow> bool" where
  fs_empty: "frac_session []"
| fs_insert: "frac_session (xs @ ys) \<Longrightarrow> between (opt_last xs) (opt_hd ys) = Ret m
     \<Longrightarrow> frac_session (xs @ m # ys)"
| fs_delete: "frac_session (xs @ p # ys) \<Longrightarrow> frac_session (xs @ ys)"

lemma strict_sorted_neighbours:
  assumes "sorted_wrt (<) (xs @ ys)" "opt_last xs = Some a" "opt_hd ys = Some b"
  shows "a < (b :: 'a::linorder)"
  using assms by (auto simp: sorted_wrt_append opt_last_def opt_hd_def split: if_splits)

lemma between_neighbours_ok:
  assumes "sorted_wrt (<) (xs @ ys)" "\<forall>p \<in> set (xs @ ys). frac_ok p"
  shows "\<exists>m. between (opt_last xs) (opt_hd ys) = Ret m \<and> frac_ok m
           \<and> opt_below (opt_last xs) m \<and> opt_above m (opt_hd ys)"
proof -
  have "pred_option base62 (opt_last xs)" "pred_option frac_ok (opt_hd ys)"
    using assms(2) by (auto simp: opt_last_def opt_hd_def frac_ok_def)
  then show ?thesis
    using between_ok [of "opt_last xs" "opt_hd ys"] strict_sorted_neighbours [OF assms(1)] by blast
qed

lemma sorted_insert_between:
  assumes "sorted_wrt (<) (xs @ ys)" "opt_below (opt_last xs) m" "opt_above m (opt_hd ys)"
  shows "sorted_wrt (<) (xs @ m # ys)"
proof -
  have "x < m" if "x \<in> set xs" for x
  proof -
    have "x = last xs \<or> x < last xs"
      using that assms(1) by (induction xs rule: rev_induct) (auto simp: sorted_wrt_append)
    with that assms(2) show ?thesis by (auto simp: opt_below_def opt_last_def split: if_splits)
  qed
  moreover have "m < y" if "y \<in> set ys" for y
    using that assms(1,3) by (cases ys) (auto simp: opt_above_def opt_hd_def sorted_wrt_append)
  ultimately show ?thesis using assms(1) by (auto simp: sorted_wrt_append)
qed

lemma frac_session_inv:
  "frac_session ps \<Longrightarrow> sorted_wrt (<) ps \<and> (\<forall>p \<in> set ps. frac_ok p)"
proof (induction rule: frac_session.induct)
  case (fs_insert xs ys m)
  then obtain m' where "between (opt_last xs) (opt_hd ys) = Ret m'" "frac_ok m'"
    "opt_below (opt_last xs) m'" "opt_above m' (opt_hd ys)"
    using between_neighbours_ok by blast
  with fs_insert sorted_insert_between show ?case by auto
qed (auto simp: sorted_wrt_append)

section \<open>Properties\<close>

text \<open>C26: for valid neighbours in order, \<open>between\<close> returns (never panics) a valid position strictly
  between them, at most one digit longer than the longer neighbour.\<close>

theorem between_strict:
  assumes "pred_option base62 l" "pred_option frac_ok r"
    and "\<And>a b. l = Some a \<Longrightarrow> r = Some b \<Longrightarrow> a < b"
  shows "\<exists>m. between l r = Ret m \<and> frac_ok m \<and> opt_below l m \<and> opt_above m r
           \<and> length m \<le> max (opt_len l) (opt_len r) + 1"
  using assms by (rule between_ok)

theorem between_strict_witness:
  "\<exists>m. between (Some ''V'') (Some ''V1'') = Ret m \<and> frac_ok m \<and> ''V'' < m \<and> m < ''V1'' \<and> length m \<le> 3"
proof -
  have "base62 ''V''" "frac_ok ''V1''" "''V'' < ''V1''"
    by (simp_all add: frac_ok_def frac_val_def frac_ch_def ALPHABET_def)
  then have "\<exists>m. between (Some ''V'') (Some ''V1'') = Ret m \<and> frac_ok m \<and> opt_below (Some ''V'') m
      \<and> opt_above m (Some ''V1'') \<and> length m \<le> max (opt_len (Some ''V'')) (opt_len (Some ''V1'')) + 1"
    by (intro between_strict) auto
  then show ?thesis by (simp add: opt_below_def opt_above_def opt_len_def numeral_3_eq_3)
qed

text \<open>C27: \<open>between\<close> panics on two neighbours in order exactly when the right one is the left one
  followed by zeros, which leaves no position in between.\<close>

theorem between_panics_iff:
  assumes "base62 l" "base62 r" "l < r"
  shows "between (Some l) (Some r) = Panic \<longleftrightarrow> (\<exists>k. r = l @ replicate (Suc k) (frac_ch 0))"
  using between_bounded_Panic_iff [OF assms] assms(3) by (simp add: between_def between_raw_def)

theorem between_panics_iff_witness: "between (Some ''V'') (Some ''V00'') = Panic"
proof -
  have "base62 ''V''" "base62 ''V00''" "''V'' < ''V00''"
    by (simp_all add: frac_val_def)
  moreover have "''V00'' = ''V'' @ replicate (Suc 1) (frac_ch 0)"
    by (simp add: frac_ch_def ALPHABET_def)
  ultimately show ?thesis using between_panics_iff by blast
qed

text \<open>C27: starting from an empty list, any sequence of insertions between neighbours and removals
  keeps the positions strictly increasing, and the next insertion, at any place, succeeds.\<close>

theorem frac_session_never_stuck:
  assumes "frac_session (xs @ ys)"
  shows "sorted_wrt (<) (xs @ ys) \<and> (\<exists>m. between (opt_last xs) (opt_hd ys) = Ret m \<and> frac_session (xs @ m # ys))"
  using frac_session_inv [OF assms] between_neighbours_ok [of xs ys] frac_session.fs_insert [OF assms] by blast

theorem frac_session_never_stuck_witness:
  "\<exists>m. between (opt_last [''V'']) (opt_hd []) = Ret m \<and> frac_session [''V'', m]"
proof -
  have "between (opt_last []) (opt_hd []) = Ret ''V''"
    by (simp add: opt_last_def opt_hd_def between_def between_raw_def frac_ch_def ALPHABET_def RADIX_def)
  then have "frac_session ([''V''] @ [])"
    using frac_session.fs_insert [of "[]" "[]" "''V''"] frac_session.fs_empty by simp
  from frac_session_never_stuck [OF this] show ?thesis by simp
qed

end
