(* ===== verification/List_Seq.thy ===== *)
theory List_Seq
  imports Frac_Idx "HOL-Library.AList"
begin

text \<open>
  List resolution (\<open>resolve_list_seq\<close> of \<open>core/crdt/src/list.rs\<close>): per item, position by highest
  priority, absorbing deletes, and the visible items in position order. The \<open>HashMap\<close> of item states
  is an association list; its iteration order does not reach the result, which is sorted
  by a total key.
\<close>

section \<open>Definitions\<close>

record item_state =
  it_position :: "frac_idx option"
  it_pos_priority :: prio
  it_saw_insert :: bool
  it_deleted :: bool

definition item_default :: item_state where
  "item_default = \<lparr>it_position = None, it_pos_priority = (0, 0), it_saw_insert = False, it_deleted = False\<rparr>"

type_synonym list_items = "(item_id \<times> item_state) list"

definition item_entry :: "list_items \<Rightarrow> item_id \<Rightarrow> item_state" where
  "item_entry items i = (case map_of items i of None \<Rightarrow> item_default | Some st \<Rightarrow> st)"

definition item_modify :: "item_id \<Rightarrow> (item_state \<Rightarrow> item_state) \<Rightarrow> list_items \<Rightarrow> list_items" where
  "item_modify i f items = AList.update i (f (item_entry items i)) items"

definition set_position :: "frac_idx \<Rightarrow> prio \<Rightarrow> item_state \<Rightarrow> item_state" where
  "set_position p prio st =
     (if it_pos_priority st < prio then st\<lparr>it_position := Some p, it_pos_priority := prio\<rparr> else st)"

fun list_seq_op :: "string \<Rightarrow> prio \<Rightarrow> op \<Rightarrow> list_items \<Rightarrow> list_items" where
  "list_seq_op list_key prio (OpList (ListInsert k item_id pos)) items =
     (if k = list_key
      then item_modify item_id (\<lambda>st. set_position pos prio (st\<lparr>it_saw_insert := True\<rparr>)) items
      else items)"
| "list_seq_op list_key prio (OpList (ListMove k item_id pos)) items =
     (if k = list_key then item_modify item_id (set_position pos prio) items else items)"
| "list_seq_op list_key prio (OpList (ListDelete k item_id)) items =
     (if k = list_key then item_modify item_id (\<lambda>st. st\<lparr>it_deleted := True\<rparr>) items else items)"
| "list_seq_op list_key prio _ items = items"

definition list_seq_node :: "string \<Rightarrow> sync_node \<Rightarrow> list_items \<Rightarrow> list_items" where
  "list_seq_node list_key n items = fold (list_seq_op list_key (n_prio n)) (tx_ops (n_tx n)) items"

definition item_visible :: "item_state \<Rightarrow> frac_idx option" where
  "item_visible st = (if \<not> it_saw_insert st \<or> it_deleted st then None else it_position st)"

definition list_visible :: "list_items \<Rightarrow> (item_id \<times> frac_idx) list" where
  "list_visible items =
     List.map_filter (\<lambda>(i, st). map_option (\<lambda>p. (i, p)) (item_visible st)) items"

definition resolve_list_seq :: "sync_node list \<Rightarrow> string \<Rightarrow> (item_id \<times> frac_idx) list" where
  "resolve_list_seq nodes list_key =
     sort_key (\<lambda>(i, p). (p, i)) (list_visible (fold (list_seq_node list_key) nodes []))"

section \<open>One item\<close>

fun item_step :: "string \<Rightarrow> item_id \<Rightarrow> prio \<Rightarrow> op \<Rightarrow> item_state \<Rightarrow> item_state" where
  "item_step key i prio (OpList (ListInsert k j p)) st =
     (if k = key \<and> j = i then set_position p prio (st\<lparr>it_saw_insert := True\<rparr>) else st)"
| "item_step key i prio (OpList (ListMove k j p)) st =
     (if k = key \<and> j = i then set_position p prio st else st)"
| "item_step key i prio (OpList (ListDelete k j)) st =
     (if k = key \<and> j = i then st\<lparr>it_deleted := True\<rparr> else st)"
| "item_step key i prio _ st = st"

lemma item_entry_Nil [simp]: "item_entry [] i = item_default"
  by (simp add: item_entry_def)

lemma item_entry_modify [simp]:
  "item_entry (item_modify j f items) i = (if i = j then f (item_entry items i) else item_entry items i)"
  by (simp add: item_entry_def item_modify_def update_conv')

lemma distinct_item_modify [simp]:
  "distinct (map fst items) \<Longrightarrow> distinct (map fst (item_modify j f items))"
  by (simp add: item_modify_def distinct_update)

lemma item_entry_list_seq_op:
  "item_entry (list_seq_op key prio op items) i = item_step key i prio op (item_entry items i)"
  by (cases "(key, prio, op, items)" rule: list_seq_op.cases) auto

lemma distinct_list_seq_op: "distinct (map fst items) \<Longrightarrow> distinct (map fst (list_seq_op key prio op items))"
  by (cases "(key, prio, op, items)" rule: list_seq_op.cases) auto

definition item_node :: "string \<Rightarrow> item_id \<Rightarrow> sync_node \<Rightarrow> item_state \<Rightarrow> item_state" where
  "item_node key i n st = fold (item_step key i (n_prio n)) (tx_ops (n_tx n)) st"

lemma item_entry_list_seq_node:
  "item_entry (list_seq_node key n items) i = item_node key i n (item_entry items i)"
proof -
  have "item_entry (fold (list_seq_op key pr) ops items) i
      = fold (item_step key i pr) ops (item_entry items i)" for pr ops
    by (induction ops arbitrary: items) (simp_all add: item_entry_list_seq_op)
  then show ?thesis by (simp add: list_seq_node_def item_node_def)
qed

lemma item_entry_fold:
  "item_entry (fold (list_seq_node key) ns items) i = fold (item_node key i) ns (item_entry items i)"
  by (induction ns arbitrary: items) (simp_all add: item_entry_list_seq_node)

lemma distinct_list_seq_fold:
  "distinct (map fst items) \<Longrightarrow> distinct (map fst (fold (list_seq_node key) ns items))"
  by (rule fold_inv, assumption, unfold list_seq_node_def, rule fold_inv)
    (auto simp: distinct_list_seq_op)

section \<open>Position as a register\<close>

definition pos_put :: "prio \<times> frac_idx \<Rightarrow> prio \<times> frac_idx option \<Rightarrow> prio \<times> frac_idx option" where
  "pos_put c s = (if fst s < fst c then (fst c, Some (snd c)) else s)"

interpretation position_register: lww_register fst fst "\<lambda>c. (fst c, Some (snd c))" pos_put
  by unfold_locales (auto simp: pos_put_def)

definition item_register :: "item_state \<Rightarrow> prio \<times> frac_idx option" where
  "item_register st = (it_pos_priority st, it_position st)"

fun op_position :: "string \<Rightarrow> item_id \<Rightarrow> op \<Rightarrow> frac_idx option" where
  "op_position key i (OpList (ListInsert k j p)) = (if k = key \<and> j = i then Some p else None)"
| "op_position key i (OpList (ListMove k j p)) = (if k = key \<and> j = i then Some p else None)"
| "op_position key i _ = None"

definition node_positions :: "string \<Rightarrow> item_id \<Rightarrow> sync_node \<Rightarrow> frac_idx list" where
  "node_positions key i n = List.map_filter (op_position key i) (tx_ops (n_tx n))"

definition node_inserts :: "string \<Rightarrow> item_id \<Rightarrow> sync_node \<Rightarrow> bool" where
  "node_inserts key i n \<longleftrightarrow> (\<exists>p. OpList (ListInsert key i p) \<in> set (tx_ops (n_tx n)))"

definition node_deletes :: "string \<Rightarrow> item_id \<Rightarrow> sync_node \<Rightarrow> bool" where
  "node_deletes key i n \<longleftrightarrow> OpList (ListDelete key i) \<in> set (tx_ops (n_tx n))"

lemma set_position_fields [simp]:
  "it_saw_insert (set_position p prio st) = it_saw_insert st"
  "it_deleted (set_position p prio st) = it_deleted st"
  "item_register (set_position p prio st) = pos_put (prio, p) (item_register st)"
  by (auto simp: set_position_def item_register_def pos_put_def)

lemma item_register_flags [simp]:
  "item_register (st\<lparr>it_saw_insert := b\<rparr>) = item_register st"
  "item_register (st\<lparr>it_deleted := b\<rparr>) = item_register st"
  by (simp_all add: item_register_def)

lemma item_step_saw:
  "it_saw_insert (item_step key i prio op st) \<longleftrightarrow> it_saw_insert st \<or> (\<exists>p. op = OpList (ListInsert key i p))"
  by (cases "(key, i, prio, op, st)" rule: item_step.cases) auto

lemma item_step_deleted:
  "it_deleted (item_step key i prio op st) \<longleftrightarrow> it_deleted st \<or> op = OpList (ListDelete key i)"
  by (cases "(key, i, prio, op, st)" rule: item_step.cases) auto

lemma item_step_register:
  "item_register (item_step key i prio op st) =
     (case op_position key i op of None \<Rightarrow> item_register st | Some p \<Rightarrow> pos_put (prio, p) (item_register st))"
  by (cases "(key, i, prio, op, st)" rule: item_step.cases) auto

lemma item_node_flags:
  "it_saw_insert (item_node key i n st) \<longleftrightarrow> it_saw_insert st \<or> node_inserts key i n"
  "it_deleted (item_node key i n st) \<longleftrightarrow> it_deleted st \<or> node_deletes key i n"
proof -
  have "it_saw_insert (fold (item_step key i pr) ops st) \<longleftrightarrow>
      it_saw_insert st \<or> (\<exists>p. OpList (ListInsert key i p) \<in> set ops)" for pr ops
    by (induction ops arbitrary: st) (auto simp: item_step_saw)
  then show "it_saw_insert (item_node key i n st) \<longleftrightarrow> it_saw_insert st \<or> node_inserts key i n"
    by (simp add: item_node_def node_inserts_def)
  have "it_deleted (fold (item_step key i pr) ops st) \<longleftrightarrow>
      it_deleted st \<or> OpList (ListDelete key i) \<in> set ops" for pr ops
    by (induction ops arbitrary: st) (auto simp: item_step_deleted)
  then show "it_deleted (item_node key i n st) \<longleftrightarrow> it_deleted st \<or> node_deletes key i n"
    by (simp add: item_node_def node_deletes_def)
qed

lemma item_node_register:
  "item_register (item_node key i n st) =
     fold pos_put (map (Pair (n_prio n)) (node_positions key i n)) (item_register st)"
proof -
  have "item_register (fold (item_step key i pr) ops st) =
      fold pos_put (map (Pair pr) (List.map_filter (op_position key i) ops)) (item_register st)" for pr ops
    by (induction ops arbitrary: st) (auto simp: item_step_register split: option.splits)
  then show ?thesis by (simp add: item_node_def node_positions_def)
qed

lemma fold_item_node:
  "it_saw_insert (fold (item_node key i) ns st) \<longleftrightarrow> it_saw_insert st \<or> (\<exists>n \<in> set ns. node_inserts key i n)"
  "it_deleted (fold (item_node key i) ns st) \<longleftrightarrow> it_deleted st \<or> (\<exists>n \<in> set ns. node_deletes key i n)"
  "item_register (fold (item_node key i) ns st) =
     fold (\<lambda>n. fold pos_put (map (Pair (n_prio n)) (node_positions key i n))) ns (item_register st)"
  by (induction ns arbitrary: st) (auto simp: item_node_flags item_node_register)

lemma item_state_eqI:
  assumes "it_saw_insert a \<longleftrightarrow> it_saw_insert b" "it_deleted a \<longleftrightarrow> it_deleted b"
    "item_register a = item_register b"
  shows "a = (b :: item_state)"
  using assms by (cases a; cases b) (simp add: item_register_def)

lemma fold_item_node_set:
  assumes "inj_on (\<lambda>n. n_prio n) (set ns)" "set ns = set ms"
  shows "fold (item_node key i) ns st = fold (item_node key i) ms st"
proof (rule item_state_eqI)
  show "item_register (fold (item_node key i) ns st) = item_register (fold (item_node key i) ms st)"
    unfolding fold_item_node
    by (rule position_register.fold_put_groups_set [where np = "\<lambda>n. n_prio n"]) (use assms in auto)
qed (simp_all add: fold_item_node assms(2))

section \<open>The visible items\<close>

definition visible_items :: "(item_id \<Rightarrow> item_state) \<Rightarrow> (frac_idx \<times> item_id) set" where
  "visible_items f = {(p, i). item_visible (f i) = Some p}"

lemma item_visible_default [simp]: "item_visible item_default = None"
  by (simp add: item_visible_def item_default_def)

lemma set_list_visible:
  assumes "distinct (map fst items)"
  shows "(i, p) \<in> set (list_visible items) \<longleftrightarrow> item_visible (item_entry items i) = Some p"
proof -
  have "(i, p) \<in> set (list_visible items) \<longleftrightarrow> (\<exists>st. (i, st) \<in> set items \<and> item_visible st = Some p)"
    by (force simp: list_visible_def set_mapfilter)
  also have "\<dots> \<longleftrightarrow> (\<exists>st. map_of items i = Some st \<and> item_visible st = Some p)"
    using assms by simp
  also have "\<dots> \<longleftrightarrow> item_visible (item_entry items i) = Some p"
    by (simp add: item_entry_def split: option.split)
  finally show ?thesis .
qed

lemma distinct_list_visible:
  "distinct (map fst items) \<Longrightarrow> distinct (map fst (list_visible items))"
proof (induction items)
  case (Cons it items)
  have "fst ` set (list_visible items) \<subseteq> fst ` set items"
    by (force simp: list_visible_def set_mapfilter)
  with Cons show ?case
    by (cases it) (auto simp: list_visible_def List.map_filter_simps split: option.split)
qed (simp add: list_visible_def List.map_filter_simps)

lemma sort_key_swap_canonical:
  assumes "distinct xs"
  shows "sort_key (\<lambda>(i, p). (p, i)) xs = map prod.swap (sorted_list_of_set (prod.swap ` set xs))"
proof (rule map_sorted_distinct_set_unique [where f = "\<lambda>(i, p). (p, i)"])
  show "inj_on (\<lambda>(i, p). (p, i)) (set (sort_key (\<lambda>(i, p). (p, i)) xs)
      \<union> set (map prod.swap (sorted_list_of_set (prod.swap ` set xs))))"
    by (auto simp: inj_on_def)
  have swap: "(\<lambda>(i, p). (p, i)) \<circ> prod.swap = id" by (auto simp: fun_eq_iff)
  show "sorted (map (\<lambda>(i, p). (p, i)) (map prod.swap (sorted_list_of_set (prod.swap ` set xs))))"
    "distinct (map (\<lambda>(i, p). (p, i)) (map prod.swap (sorted_list_of_set (prod.swap ` set xs))))"
    by (simp_all add: swap)
  show "distinct (map (\<lambda>(i, p). (p, i)) (sort_key (\<lambda>(i, p). (p, i)) xs))"
    using assms by (auto simp: distinct_map inj_on_def)
  show "set (sort_key (\<lambda>(i, p). (p, i)) xs) = set (map prod.swap (sorted_list_of_set (prod.swap ` set xs)))"
    by (force simp: image_image)
qed simp

lemma resolve_list_seq_canonical:
  "resolve_list_seq ns key =
     map prod.swap (sorted_list_of_set (visible_items (\<lambda>i. fold (item_node key i) ns item_default)))"
proof -
  let ?items = "fold (list_seq_node key) ns []"
  have d: "distinct (map fst ?items)" by (rule distinct_list_seq_fold) simp
  have "distinct (list_visible ?items)"
    using distinct_list_visible [OF d] by (simp add: distinct_map)
  moreover have "prod.swap ` set (list_visible ?items) = visible_items (\<lambda>i. fold (item_node key i) ns item_default)"
    using set_list_visible [OF d] by (force simp: visible_items_def item_entry_fold)
  ultimately show ?thesis by (simp add: resolve_list_seq_def sort_key_swap_canonical)
qed

lemma finite_visible_items: "finite (visible_items (\<lambda>i. fold (item_node key i) ns item_default))"
proof -
  let ?items = "fold (list_seq_node key) ns []"
  have d: "distinct (map fst ?items)" by (rule distinct_list_seq_fold) simp
  have "visible_items (\<lambda>i. fold (item_node key i) ns item_default) \<subseteq> prod.swap ` set (list_visible ?items)"
    using set_list_visible [OF d] by (force simp: visible_items_def item_entry_fold)
  then show ?thesis by (rule finite_subset) simp
qed

lemma set_resolve_list_seq:
  "(i, p) \<in> set (resolve_list_seq ns key) \<longleftrightarrow> item_visible (fold (item_node key i) ns item_default) = Some p"
proof -
  have "(i, p) \<in> set (resolve_list_seq ns key) \<longleftrightarrow>
      (p, i) \<in> visible_items (\<lambda>i. fold (item_node key i) ns item_default)"
    unfolding resolve_list_seq_canonical set_map set_sorted_list_of_set [OF finite_visible_items]
    by simp
  then show ?thesis by (simp add: visible_items_def)
qed

lemma item_visible_Some:
  "item_visible st = Some p \<longleftrightarrow> it_saw_insert st \<and> \<not> it_deleted st \<and> snd (item_register st) = Some p"
  by (auto simp: item_visible_def item_register_def)

section \<open>Properties\<close>

text \<open>Where no two nodes share a (lamport, author) pair, the resolved list depends only on the set
  of nodes: replicas that hold the same nodes, in any order and with any repetition, agree.\<close>

theorem resolve_list_seq_converges:
  assumes "inj_on (\<lambda>n. n_prio n) (set ns)" "set ns = set ms"
  shows "resolve_list_seq ns key = resolve_list_seq ms key"
  unfolding resolve_list_seq_canonical using fold_item_node_set [OF assms] by simp

text \<open>Two nodes: item 7 inserted by one author and moved, later, by another.\<close>

definition sample_insert :: sync_node where
  "sample_insert = \<lparr>n_id = 1, n_tx = \<lparr>tx_author = 1, tx_lamport = 1, tx_wall_ms = 0,
     tx_ops = [OpList (ListInsert ''l'' 7 ''V'')], tx_parents = []\<rparr>, n_sig = 0\<rparr>"

definition sample_move :: sync_node where
  "sample_move = \<lparr>n_id = 2, n_tx = \<lparr>tx_author = 2, tx_lamport = 2, tx_wall_ms = 0,
     tx_ops = [OpList (ListMove ''l'' 7 ''k'')], tx_parents = [1]\<rparr>, n_sig = 0\<rparr>"

theorem resolve_list_seq_converges_witness:
  "resolve_list_seq [sample_insert, sample_move] ''l'' = resolve_list_seq [sample_move, sample_insert] ''l''
   \<and> resolve_list_seq [sample_insert, sample_move] ''l'' = [(7, ''k'')]"
proof
  show "resolve_list_seq [sample_insert, sample_move] ''l'' = resolve_list_seq [sample_move, sample_insert] ''l''"
    by (rule resolve_list_seq_converges) (auto simp: inj_on_def sample_insert_def sample_move_def)
  show "resolve_list_seq [sample_insert, sample_move] ''l'' = [(7, ''k'')]"
    by (simp add: resolve_list_seq_def sample_insert_def sample_move_def list_seq_node_def item_modify_def
        item_entry_def item_default_def set_position_def list_visible_def item_visible_def List.map_filter_simps)
qed

text \<open>C28: an item is in the resolved list, at a position, exactly when some node inserts it, no node
  deletes it, and the position is the first one that the node of greatest (lamport, author) among
  those that position it gives; each item occurs once, in the order of (position, item).\<close>

theorem resolve_list_seq_spec:
  assumes "w \<in> set ns" "node_positions key i w \<noteq> []" "(0, 0) < n_prio w"
    and "\<And>n. n \<in> set ns \<Longrightarrow> node_positions key i n \<noteq> [] \<Longrightarrow> n \<noteq> w \<Longrightarrow> n_prio n < n_prio w"
  shows "((i, p) \<in> set (resolve_list_seq ns key) \<longleftrightarrow>
      (\<exists>n \<in> set ns. node_inserts key i n) \<and> (\<forall>n \<in> set ns. \<not> node_deletes key i n)
      \<and> p = hd (node_positions key i w))
    \<and> sorted_wrt (<) (map prod.swap (resolve_list_seq ns key))"
proof -
  let ?st = "fold (item_node key i) ns item_default"
  have "item_register ?st = (\<lambda>c. (fst c, Some (snd c))) (hd (map (Pair (n_prio w)) (node_positions key i w)))"
    unfolding fold_item_node
    by (rule position_register.fold_put_groups_winner [where np = "\<lambda>n. n_prio n"])
      (use assms in \<open>auto simp: item_register_def item_default_def\<close>)
  then have "snd (item_register ?st) = Some (hd (node_positions key i w))"
    using assms(2) by (simp add: list.map_sel)
  then have "(i, p) \<in> set (resolve_list_seq ns key) \<longleftrightarrow>
      (\<exists>n \<in> set ns. node_inserts key i n) \<and> (\<forall>n \<in> set ns. \<not> node_deletes key i n)
      \<and> p = hd (node_positions key i w)"
    unfolding set_resolve_list_seq item_visible_Some fold_item_node by (auto simp: item_default_def)
  moreover have "sorted_wrt (<) (map prod.swap (resolve_list_seq ns key))"
    unfolding resolve_list_seq_canonical by (simp add: comp_def)
  ultimately show ?thesis by blast
qed

theorem resolve_list_seq_spec_witness:
  "(7, ''k'') \<in> set (resolve_list_seq [sample_insert, sample_move] ''l'')
   \<and> (7, ''V'') \<notin> set (resolve_list_seq [sample_insert, sample_move] ''l'')"
proof -
  have w: "node_positions ''l'' 7 sample_move = [''k'']"
    by (simp add: node_positions_def sample_move_def List.map_filter_simps)
  have "(7, p) \<in> set (resolve_list_seq [sample_insert, sample_move] ''l'') \<longleftrightarrow> p = ''k''" for p
    using resolve_list_seq_spec [of sample_move "[sample_insert, sample_move]" "''l''" 7 p] w
    by (auto simp: sample_insert_def sample_move_def node_inserts_def node_deletes_def)
  then show ?thesis by simp
qed

end
