(* ===== verification/Conflicts.thy ===== *)
theory Conflicts
  imports List_Seq "HOL-Library.Multiset" "HOL-Library.Option_ord"
begin

text \<open>
  Conflict surfacing (\<open>core/crdt/src/conflicts.rs\<close>): which map writes, moves and inserts lost
  the last-writer-wins race against another author. The iteration order of the \<open>HashMap\<close> of
  list items is the argument \<open>it\<close>, of which only \<open>mset (it xs) = mset xs\<close> is known.
\<close>

section \<open>Events\<close>

datatype conflict_kind = MapOverwrite | ListMoveLost | ListDeleteWon

datatype conflict_op =
    CSet bytes
  | CDelete
  | CSetBlob hash
  | CListMove item_id
  | CListInsert item_id
  | CListDelete item_id

record conflict_event =
  ce_kind :: conflict_kind
  ce_key :: string
  ce_winner_author :: pubkey
  ce_winner_lamport :: u64
  ce_winner_op :: conflict_op
  ce_loser_author :: pubkey
  ce_loser_lamport :: u64
  ce_loser_op :: conflict_op

type_synonym conflict_fingerprint = "conflict_kind \<times> string \<times> u64 \<times> pubkey \<times> u64 \<times> pubkey"

definition fingerprint :: "conflict_event \<Rightarrow> conflict_fingerprint" where
  "fingerprint e = (ce_kind e, ce_key e, ce_winner_lamport e, ce_winner_author e,
                    ce_loser_lamport e, ce_loser_author e)"

section \<open>Map keys\<close>

record map_entry =
  me_lamport :: u64
  me_author :: pubkey
  me_op :: conflict_op

fun map_op_to_conflict :: "map_op \<Rightarrow> conflict_op option" where
  "map_op_to_conflict (MapSet key v) = Some (CSet v)"
| "map_op_to_conflict (MapDelete key) = Some CDelete"
| "map_op_to_conflict (MapSetBlob key blob_hash) = Some (CSetBlob blob_hash)"

definition map_entry_default :: map_entry where
  "map_entry_default = \<lparr>me_lamport = 0, me_author = 0, me_op = CDelete\<rparr>"

definition map_winner_op :: "transaction \<Rightarrow> op \<Rightarrow> (string \<rightharpoonup> map_entry) \<Rightarrow> (string \<rightharpoonup> map_entry)" where
  "map_winner_op tx op winners =
     (case op of
        OpMap mop \<Rightarrow>
          (case map_op_to_conflict mop of
             None \<Rightarrow> winners
           | Some cop \<Rightarrow>
               let key = map_op_key mop;
                   entry = (case winners key of None \<Rightarrow> map_entry_default | Some e \<Rightarrow> e)
               in winners(key \<mapsto>
                    if (me_lamport entry, me_author entry) < (tx_lamport tx, tx_author tx)
                    then \<lparr>me_lamport = tx_lamport tx, me_author = tx_author tx, me_op = cop\<rparr>
                    else entry))
      | _ \<Rightarrow> winners)"

definition map_winners :: "sync_node list \<Rightarrow> (string \<rightharpoonup> map_entry)" where
  "map_winners nodes = fold (\<lambda>n. fold (map_winner_op (n_tx n)) (tx_ops (n_tx n))) nodes Map.empty"

definition map_loser :: "(string \<rightharpoonup> map_entry) \<Rightarrow> transaction \<Rightarrow> op \<Rightarrow> conflict_event option" where
  "map_loser winners tx op =
     (case op of
        OpMap mop \<Rightarrow>
          (case map_op_to_conflict mop of
             None \<Rightarrow> None
           | Some cop \<Rightarrow>
               (case winners (map_op_key mop) of
                  None \<Rightarrow> None
                | Some winner \<Rightarrow>
                    if me_lamport winner = tx_lamport tx \<and> me_author winner = tx_author tx then None
                    else if me_author winner = tx_author tx then None
                    else Some \<lparr>ce_kind = MapOverwrite, ce_key = map_op_key mop,
                               ce_winner_author = me_author winner, ce_winner_lamport = me_lamport winner,
                               ce_winner_op = me_op winner, ce_loser_author = tx_author tx,
                               ce_loser_lamport = tx_lamport tx, ce_loser_op = cop\<rparr>))
      | _ \<Rightarrow> None)"

definition detect_map_conflicts :: "sync_node list \<Rightarrow> conflict_event list \<Rightarrow> conflict_event list" where
  "detect_map_conflicts nodes out =
     (let winners = map_winners nodes in
      out @ concat (map (\<lambda>n. List.map_filter (map_loser winners (n_tx n)) (tx_ops (n_tx n))) nodes))"

section \<open>List items\<close>

record list_item_state =
  li_pos_winner :: "(u64 \<times> pubkey \<times> conflict_op) option"
  li_delete_winner :: "(u64 \<times> pubkey) option"
  li_pos_ops :: "(u64 \<times> pubkey \<times> conflict_op) list"

definition list_item_default :: list_item_state where
  "list_item_default = \<lparr>li_pos_winner = None, li_delete_winner = None, li_pos_ops = []\<rparr>"

type_synonym list_item_key = "string \<times> item_id"
type_synonym conflict_items = "(list_item_key \<times> list_item_state) list"

definition beats_pos :: "prio \<Rightarrow> (u64 \<times> pubkey \<times> conflict_op) option \<Rightarrow> bool" where
  "beats_pos prio w = (case w of None \<Rightarrow> True | Some (l, a, _) \<Rightarrow> (l, a) < prio)"

definition beats_delete :: "prio \<Rightarrow> (u64 \<times> pubkey) option \<Rightarrow> bool" where
  "beats_delete prio w = (case w of None \<Rightarrow> True | Some (l, a) \<Rightarrow> (l, a) < prio)"

definition li_position :: "prio \<Rightarrow> conflict_op \<Rightarrow> list_item_state \<Rightarrow> list_item_state" where
  "li_position prio cop st =
     (let st1 = st\<lparr>li_pos_ops := li_pos_ops st @ [(fst prio, snd prio, cop)]\<rparr> in
      if beats_pos prio (li_pos_winner st1)
      then st1\<lparr>li_pos_winner := Some (fst prio, snd prio, cop)\<rparr> else st1)"

definition li_delete :: "prio \<Rightarrow> list_item_state \<Rightarrow> list_item_state" where
  "li_delete prio st =
     (if beats_delete prio (li_delete_winner st) then st\<lparr>li_delete_winner := Some prio\<rparr> else st)"

definition conflict_item_modify ::
  "list_item_key \<Rightarrow> (list_item_state \<Rightarrow> list_item_state) \<Rightarrow> conflict_items \<Rightarrow> conflict_items" where
  "conflict_item_modify k f items =
     AList.update k (f (case map_of items k of None \<Rightarrow> list_item_default | Some st \<Rightarrow> st)) items"

fun conflict_list_op :: "transaction \<Rightarrow> op \<Rightarrow> conflict_items \<Rightarrow> conflict_items" where
  "conflict_list_op tx (OpList (ListInsert k i p)) items =
     conflict_item_modify (k, i) (li_position (tx_lamport tx, tx_author tx) (CListInsert i)) items"
| "conflict_list_op tx (OpList (ListMove k i p)) items =
     conflict_item_modify (k, i) (li_position (tx_lamport tx, tx_author tx) (CListMove i)) items"
| "conflict_list_op tx (OpList (ListDelete k i)) items =
     conflict_item_modify (k, i) (li_delete (tx_lamport tx, tx_author tx)) items"
| "conflict_list_op tx _ items = items"

definition conflict_items_of :: "sync_node list \<Rightarrow> conflict_items" where
  "conflict_items_of nodes = fold (\<lambda>n. fold (conflict_list_op (n_tx n)) (tx_ops (n_tx n))) nodes []"

definition list_conflict_key :: "string \<Rightarrow> item_id \<Rightarrow> string" where
  "list_conflict_key k i = k @ ''#'' @ item_id_to_hex i"

definition item_conflicts :: "list_item_key \<times> list_item_state \<Rightarrow> conflict_event list" where
  "item_conflicts e = (case e of ((k, i), st) \<Rightarrow>
     (case (li_pos_winner st, li_delete_winner st) of
        (Some _, Some (dl, da)) \<Rightarrow>
          List.map_filter (\<lambda>(pl, pa, pop).
            if pa = da then None
            else Some \<lparr>ce_kind = ListDeleteWon, ce_key = list_conflict_key k i,
                       ce_winner_author = da, ce_winner_lamport = dl, ce_winner_op = CListDelete i,
                       ce_loser_author = pa, ce_loser_lamport = pl, ce_loser_op = pop\<rparr>) (li_pos_ops st)
      | (Some (wl, wa, wop), None) \<Rightarrow>
          List.map_filter (\<lambda>(pl, pa, pop).
            if pl = wl \<and> pa = wa then None
            else if pa = wa then None
            else Some \<lparr>ce_kind = ListMoveLost, ce_key = list_conflict_key k i,
                       ce_winner_author = wa, ce_winner_lamport = wl, ce_winner_op = wop,
                       ce_loser_author = pa, ce_loser_lamport = pl, ce_loser_op = pop\<rparr>) (li_pos_ops st)
      | _ \<Rightarrow> []))"

definition detect_list_conflicts ::
  "(conflict_items \<Rightarrow> conflict_items) \<Rightarrow> sync_node list \<Rightarrow> conflict_event list \<Rightarrow> conflict_event list" where
  "detect_list_conflicts it nodes out = out @ concat (map item_conflicts (it (conflict_items_of nodes)))"

definition conflict_sort_key :: "conflict_event \<Rightarrow> u64 \<times> pubkey \<times> u64 \<times> pubkey" where
  "conflict_sort_key e = (ce_winner_lamport e, ce_winner_author e, ce_loser_lamport e, ce_loser_author e)"

definition detect_conflicts ::
  "(conflict_items \<Rightarrow> conflict_items) \<Rightarrow> sync_node list \<Rightarrow> conflict_event list" where
  "detect_conflicts it nodes =
     sort_key conflict_sort_key (detect_list_conflicts it nodes (detect_map_conflicts nodes []))"

section \<open>Winners per map key\<close>

definition entry_put :: "map_entry \<Rightarrow> map_entry \<Rightarrow> map_entry" where
  "entry_put c e = (if (me_lamport e, me_author e) < (me_lamport c, me_author c) then c else e)"

interpretation entry_register: lww_register
    "\<lambda>c. (me_lamport c, me_author c)" "\<lambda>e. (me_lamport e, me_author e)" id entry_put
  by unfold_locales (auto simp: entry_put_def)

fun op_entry :: "transaction \<Rightarrow> string \<Rightarrow> op \<Rightarrow> map_entry option" where
  "op_entry tx key (OpMap mop) = (if map_op_key mop = key
     then Some \<lparr>me_lamport = tx_lamport tx, me_author = tx_author tx, me_op = the (map_op_to_conflict mop)\<rparr>
     else None)"
| "op_entry tx key _ = None"

definition node_entries :: "string \<Rightarrow> sync_node \<Rightarrow> map_entry list" where
  "node_entries key n = List.map_filter (op_entry (n_tx n) key) (tx_ops (n_tx n))"

definition entry_at :: "(string \<rightharpoonup> map_entry) \<Rightarrow> string \<Rightarrow> map_entry" where
  "entry_at w key = (case w key of None \<Rightarrow> map_entry_default | Some e \<Rightarrow> e)"

lemma map_op_to_conflict_neq [simp]: "map_op_to_conflict mop \<noteq> None"
  by (cases mop) auto

lemma map_winner_op_at:
  "entry_at (map_winner_op tx op w) key =
     (case op_entry tx key op of None \<Rightarrow> entry_at w key | Some c \<Rightarrow> entry_put c (entry_at w key))"
  "map_winner_op tx op w key = None \<longleftrightarrow> w key = None \<and> op_entry tx key op = None"
  by (cases op; auto simp: map_winner_op_def entry_at_def entry_put_def Let_def split: option.split)+

lemma map_winner_node_at:
  "entry_at (fold (map_winner_op tx) ops w) key =
     fold entry_put (List.map_filter (op_entry tx key) ops) (entry_at w key)"
  "fold (map_winner_op tx) ops w key = None \<longleftrightarrow> w key = None \<and> List.map_filter (op_entry tx key) ops = []"
  by (induction ops arbitrary: w) (auto simp: map_winner_op_at List.map_filter_simps split: option.splits)

lemma map_winners_at:
  "entry_at (map_winners ns) key = fold (\<lambda>n. fold entry_put (node_entries key n)) ns map_entry_default"
  "map_winners ns key = None \<longleftrightarrow> (\<forall>n \<in> set ns. node_entries key n = [])"
proof -
  have "entry_at (fold (\<lambda>n. fold (map_winner_op (n_tx n)) (tx_ops (n_tx n))) ns w) key =
      fold (\<lambda>n. fold entry_put (node_entries key n)) ns (entry_at w key)" for w
    by (induction ns arbitrary: w) (simp_all add: map_winner_node_at node_entries_def)
  from this [of Map.empty]
  show "entry_at (map_winners ns) key = fold (\<lambda>n. fold entry_put (node_entries key n)) ns map_entry_default"
    by (simp add: map_winners_def entry_at_def)
  have "fold (\<lambda>n. fold (map_winner_op (n_tx n)) (tx_ops (n_tx n))) ns w key = None \<longleftrightarrow>
      w key = None \<and> (\<forall>n \<in> set ns. node_entries key n = [])" for w
    by (induction ns arbitrary: w) (auto simp: map_winner_node_at node_entries_def)
  from this [of Map.empty]
  show "map_winners ns key = None \<longleftrightarrow> (\<forall>n \<in> set ns. node_entries key n = [])"
    by (simp add: map_winners_def)
qed

lemma node_entries_prio:
  "c \<in> set (node_entries key n) \<Longrightarrow> (me_lamport c, me_author c) = n_prio n"
proof -
  have "op_entry tx key op = Some c \<Longrightarrow> (me_lamport c, me_author c) = (tx_lamport tx, tx_author tx)" for tx op
    by (cases op) (auto split: if_splits)
  then show "c \<in> set (node_entries key n) \<Longrightarrow> ?thesis"
    by (auto simp: node_entries_def set_mapfilter)
qed

lemma map_winners_set:
  assumes "inj_on (\<lambda>n. n_prio n) (set ns)" "set ns = set ms"
  shows "map_winners ns = map_winners ms"
proof
  fix key
  have "entry_at (map_winners ns) key = entry_at (map_winners ms) key"
    unfolding map_winners_at
    by (rule entry_register.fold_put_groups_set [where np = "\<lambda>n. n_prio n"])
      (use assms node_entries_prio in auto)
  moreover have "map_winners ns key = None \<longleftrightarrow> map_winners ms key = None"
    by (simp add: map_winners_at assms(2))
  ultimately show "map_winners ns key = map_winners ms key"
    by (cases "map_winners ns key"; cases "map_winners ms key") (auto simp: entry_at_def)
qed

lemma map_winners_max:
  assumes "w \<in> set ns" "node_entries key w \<noteq> []" "(0, 0) < n_prio w"
    and "\<And>n. n \<in> set ns \<Longrightarrow> node_entries key n \<noteq> [] \<Longrightarrow> n \<noteq> w \<Longrightarrow> n_prio n < n_prio w"
  shows "map_winners ns key = Some (hd (node_entries key w))"
proof -
  have "entry_at (map_winners ns) key = id (hd (node_entries key w))"
    unfolding map_winners_at
    by (rule entry_register.fold_put_groups_winner [where np = "\<lambda>n. n_prio n"])
      (use assms node_entries_prio in \<open>auto simp: map_entry_default_def\<close>)
  moreover have "map_winners ns key \<noteq> None" using assms map_winners_at(2) by blast
  ultimately show ?thesis by (auto simp: entry_at_def)
qed

section \<open>Order independence up to permutation\<close>

lemma detect_map_conflicts_perm:
  assumes "inj_on (\<lambda>n. n_prio n) (set ns)" "mset ns = mset ms"
  shows "mset (detect_map_conflicts ns []) = mset (detect_map_conflicts ms [])"
  using map_winners_set [OF assms(1) mset_eq_setD [OF assms(2)]]
  by (simp add: detect_map_conflicts_def Let_def mset_concat_map_perm [OF assms(2)])

subsection \<open>List items\<close>

definition pos_winner_put ::
  "u64 \<times> pubkey \<times> conflict_op \<Rightarrow> (u64 \<times> pubkey \<times> conflict_op) option \<Rightarrow> (u64 \<times> pubkey \<times> conflict_op) option" where
  "pos_winner_put c w = (if beats_pos (fst c, fst (snd c)) w then Some c else w)"

definition del_winner_put :: "prio \<Rightarrow> prio option \<Rightarrow> prio option" where
  "del_winner_put c w = (if beats_delete c w then Some c else w)"

interpretation pos_winner_register: lww_register
    "\<lambda>c. Some (fst c, fst (snd c))" "map_option (\<lambda>c. (fst c, fst (snd c)))" Some pos_winner_put
  by unfold_locales
    (auto simp: pos_winner_put_def beats_pos_def less_eq_option_def less_option_def split: option.splits)

interpretation del_winner_register: lww_register Some id Some del_winner_put
  by unfold_locales
    (auto simp: del_winner_put_def beats_delete_def less_eq_option_def less_option_def split: option.splits)

fun op_pos :: "transaction \<Rightarrow> list_item_key \<Rightarrow> op \<Rightarrow> (u64 \<times> pubkey \<times> conflict_op) option" where
  "op_pos tx key (OpList (ListInsert k i p)) =
     (if (k, i) = key then Some (tx_lamport tx, tx_author tx, CListInsert i) else None)"
| "op_pos tx key (OpList (ListMove k i p)) =
     (if (k, i) = key then Some (tx_lamport tx, tx_author tx, CListMove i) else None)"
| "op_pos tx key _ = None"

fun op_del :: "transaction \<Rightarrow> list_item_key \<Rightarrow> op \<Rightarrow> prio option" where
  "op_del tx key (OpList (ListDelete k i)) = (if (k, i) = key then Some (tx_lamport tx, tx_author tx) else None)"
| "op_del tx key _ = None"

definition node_pos :: "list_item_key \<Rightarrow> sync_node \<Rightarrow> (u64 \<times> pubkey \<times> conflict_op) list" where
  "node_pos key n = List.map_filter (op_pos (n_tx n) key) (tx_ops (n_tx n))"

definition node_dels :: "list_item_key \<Rightarrow> sync_node \<Rightarrow> prio list" where
  "node_dels key n = List.map_filter (op_del (n_tx n) key) (tx_ops (n_tx n))"

definition conflict_at :: "conflict_items \<Rightarrow> list_item_key \<Rightarrow> list_item_state" where
  "conflict_at items k = (case map_of items k of None \<Rightarrow> list_item_default | Some st \<Rightarrow> st)"

lemma conflict_at_modify:
  "conflict_at (conflict_item_modify j f items) k =
     (if k = j then f (conflict_at items k) else conflict_at items k)"
  "fst ` set (conflict_item_modify j f items) = insert j (fst ` set items)"
  "distinct (map fst items) \<Longrightarrow> distinct (map fst (conflict_item_modify j f items))"
  by (simp_all add: conflict_at_def conflict_item_modify_def update_conv' distinct_update dom_update)

lemma conflict_list_op_at:
  "li_pos_ops (conflict_at (conflict_list_op tx op items) k) =
     li_pos_ops (conflict_at items k) @ (case op_pos tx k op of None \<Rightarrow> [] | Some c \<Rightarrow> [c])"
  "li_pos_winner (conflict_at (conflict_list_op tx op items) k) =
     (case op_pos tx k op of None \<Rightarrow> li_pos_winner (conflict_at items k)
      | Some c \<Rightarrow> pos_winner_put c (li_pos_winner (conflict_at items k)))"
  "li_delete_winner (conflict_at (conflict_list_op tx op items) k) =
     (case op_del tx k op of None \<Rightarrow> li_delete_winner (conflict_at items k)
      | Some c \<Rightarrow> del_winner_put c (li_delete_winner (conflict_at items k)))"
  "k \<in> fst ` set (conflict_list_op tx op items) \<longleftrightarrow>
     k \<in> fst ` set items \<or> op_pos tx k op \<noteq> None \<or> op_del tx k op \<noteq> None"
  "distinct (map fst items) \<Longrightarrow> distinct (map fst (conflict_list_op tx op items))"
  by (cases "(tx, op, items)" rule: conflict_list_op.cases;
      auto simp: conflict_at_modify li_position_def li_delete_def Let_def pos_winner_put_def del_winner_put_def)+

lemma conflict_node_at:
  "li_pos_ops (conflict_at (fold (conflict_list_op tx) ops items) k) =
     li_pos_ops (conflict_at items k) @ List.map_filter (op_pos tx k) ops"
  "li_pos_winner (conflict_at (fold (conflict_list_op tx) ops items) k) =
     fold pos_winner_put (List.map_filter (op_pos tx k) ops) (li_pos_winner (conflict_at items k))"
  "li_delete_winner (conflict_at (fold (conflict_list_op tx) ops items) k) =
     fold del_winner_put (List.map_filter (op_del tx k) ops) (li_delete_winner (conflict_at items k))"
  "k \<in> fst ` set (fold (conflict_list_op tx) ops items) \<longleftrightarrow>
     k \<in> fst ` set items \<or> List.map_filter (op_pos tx k) ops \<noteq> [] \<or> List.map_filter (op_del tx k) ops \<noteq> []"
  "distinct (map fst items) \<Longrightarrow> distinct (map fst (fold (conflict_list_op tx) ops items))"
  by (induction ops arbitrary: items)
    (auto simp: conflict_list_op_at List.map_filter_simps split: option.splits)

lemma conflict_items_of_at:
  "li_pos_ops (conflict_at (conflict_items_of ns) k) = concat (map (node_pos k) ns)"
  "li_pos_winner (conflict_at (conflict_items_of ns) k) = fold (\<lambda>n. fold pos_winner_put (node_pos k n)) ns None"
  "li_delete_winner (conflict_at (conflict_items_of ns) k) = fold (\<lambda>n. fold del_winner_put (node_dels k n)) ns None"
  "k \<in> fst ` set (conflict_items_of ns) \<longleftrightarrow> (\<exists>n \<in> set ns. node_pos k n \<noteq> [] \<or> node_dels k n \<noteq> [])"
  "distinct (map fst (conflict_items_of ns))"
proof -
  let ?F = "fold (\<lambda>n. fold (conflict_list_op (n_tx n)) (tx_ops (n_tx n)))"
  have "li_pos_ops (conflict_at (?F ns items) k) = li_pos_ops (conflict_at items k) @ concat (map (node_pos k) ns)
     \<and> li_pos_winner (conflict_at (?F ns items) k)
       = fold (\<lambda>n. fold pos_winner_put (node_pos k n)) ns (li_pos_winner (conflict_at items k))
     \<and> li_delete_winner (conflict_at (?F ns items) k)
       = fold (\<lambda>n. fold del_winner_put (node_dels k n)) ns (li_delete_winner (conflict_at items k))
     \<and> (k \<in> fst ` set (?F ns items) \<longleftrightarrow>
          k \<in> fst ` set items \<or> (\<exists>n \<in> set ns. node_pos k n \<noteq> [] \<or> node_dels k n \<noteq> []))
     \<and> (distinct (map fst items) \<longrightarrow> distinct (map fst (?F ns items)))" for items
    by (induction ns arbitrary: items) (auto simp: conflict_node_at node_pos_def node_dels_def)
  from this [of "[]"] show
    "li_pos_ops (conflict_at (conflict_items_of ns) k) = concat (map (node_pos k) ns)"
    "li_pos_winner (conflict_at (conflict_items_of ns) k) = fold (\<lambda>n. fold pos_winner_put (node_pos k n)) ns None"
    "li_delete_winner (conflict_at (conflict_items_of ns) k) = fold (\<lambda>n. fold del_winner_put (node_dels k n)) ns None"
    "k \<in> fst ` set (conflict_items_of ns) \<longleftrightarrow> (\<exists>n \<in> set ns. node_pos k n \<noteq> [] \<or> node_dels k n \<noteq> [])"
    "distinct (map fst (conflict_items_of ns))"
    by (auto simp: conflict_items_of_def conflict_at_def list_item_default_def)
qed

lemma node_pos_prio: "c \<in> set (node_pos k n) \<Longrightarrow> (fst c, fst (snd c)) = n_prio n"
proof -
  have "op_pos tx k op = Some c \<Longrightarrow> (fst c, fst (snd c)) = (tx_lamport tx, tx_author tx)" for tx op
    by (cases "(tx, k, op)" rule: op_pos.cases) (auto split: if_splits)
  then show "c \<in> set (node_pos k n) \<Longrightarrow> ?thesis"
    by (auto simp: node_pos_def set_mapfilter)
qed

lemma node_dels_prio: "c \<in> set (node_dels k n) \<Longrightarrow> c = n_prio n"
proof -
  have "op_del tx k op = Some c \<Longrightarrow> c = (tx_lamport tx, tx_author tx)" for tx op
    by (cases "(tx, k, op)" rule: op_del.cases) (auto split: if_splits)
  then show "c \<in> set (node_dels k n) \<Longrightarrow> ?thesis"
    by (auto simp: node_dels_def set_mapfilter)
qed

lemma mset_map_filter: "mset xs = mset ys \<Longrightarrow> mset (List.map_filter f xs) = mset (List.map_filter f ys)"
  by (simp add: List.map_filter_def)

lemma item_conflicts_cong:
  assumes "li_pos_winner s = li_pos_winner t" "li_delete_winner s = li_delete_winner t"
    "mset (li_pos_ops s) = mset (li_pos_ops t)"
  shows "mset (item_conflicts (k, s)) = mset (item_conflicts (k, t))"
  using assms(1,2) mset_map_filter [OF assms(3)]
  by (cases k) (auto simp: item_conflicts_def split: option.split)

lemma conflict_items_mset:
  "mset (conflict_items_of ns) =
     image_mset (\<lambda>k. (k, conflict_at (conflict_items_of ns) k)) (mset_set (fst ` set (conflict_items_of ns)))"
proof -
  have "mset items = image_mset (\<lambda>k. (k, conflict_at items k)) (mset_set (fst ` set items))"
    if "distinct (map fst items)" for items
  proof -
    have "map (\<lambda>k. (k, conflict_at items k)) (map fst items) = items"
      using that by (auto simp: comp_def conflict_at_def intro!: map_idI)
    then have "mset items = image_mset (\<lambda>k. (k, conflict_at items k)) (mset (map fst items))"
      by (metis mset_map)
    with that show ?thesis by (simp add: mset_set_set flip: set_map)
  qed
  with conflict_items_of_at(5) show ?thesis by blast
qed

lemma detect_list_conflicts_perm:
  assumes inj: "inj_on (\<lambda>n. n_prio n) (set ns)" and m: "mset ns = mset ms"
    and it: "\<And>xs. mset (it xs) = mset xs" and it': "\<And>xs. mset (it' xs) = mset xs"
  shows "mset (detect_list_conflicts it ns []) = mset (detect_list_conflicts it' ms [])"
proof -
  have s: "set ns = set ms" using m by (rule mset_eq_setD)
  have keys: "fst ` set (conflict_items_of ns) = fst ` set (conflict_items_of ms)"
    by (rule set_eqI) (simp only: conflict_items_of_at(4) s)
  have ev: "mset (item_conflicts (k, conflict_at (conflict_items_of ns) k)) =
      mset (item_conflicts (k, conflict_at (conflict_items_of ms) k))" for k
  proof (rule item_conflicts_cong)
    show "li_pos_winner (conflict_at (conflict_items_of ns) k) = li_pos_winner (conflict_at (conflict_items_of ms) k)"
      unfolding conflict_items_of_at
      by (rule pos_winner_register.fold_put_groups_set [where np = "\<lambda>n. Some (n_prio n)"])
        (use inj s node_pos_prio in \<open>auto simp: inj_on_def\<close>)
    show "li_delete_winner (conflict_at (conflict_items_of ns) k) =
        li_delete_winner (conflict_at (conflict_items_of ms) k)"
      unfolding conflict_items_of_at
      by (rule del_winner_register.fold_put_groups_set [where np = "\<lambda>n. Some (n_prio n)"])
        (use inj s node_dels_prio in \<open>auto simp: inj_on_def\<close>)
  qed (simp add: conflict_items_of_at mset_concat_map_perm [OF m])
  have "mset (detect_list_conflicts j xs []) =
      sum_mset (image_mset (\<lambda>k. mset (item_conflicts (k, conflict_at (conflict_items_of xs) k)))
        (mset_set (fst ` set (conflict_items_of xs))))" if "\<And>ys. mset (j ys) = mset ys" for j xs
    using arg_cong [OF conflict_items_mset, of "\<lambda>m. sum_mset (image_mset (\<lambda>x. mset (item_conflicts x)) m)" xs]
    by (simp add: detect_list_conflicts_def mset_concat_map that image_mset.compositionality comp_def)
  with it it' show ?thesis by (simp add: keys ev)
qed

lemma detect_conflicts_perm:
  assumes "inj_on (\<lambda>n. n_prio n) (set ns)" "mset ns = mset ms"
    and "\<And>xs. mset (it xs) = mset xs" "\<And>xs. mset (it' xs) = mset xs"
  shows "mset (detect_conflicts it ns) = mset (detect_conflicts it' ms)"
  using detect_map_conflicts_perm [OF assms(1,2)] detect_list_conflicts_perm [OF assms]
  by (simp add: detect_conflicts_def detect_list_conflicts_def)

section \<open>Properties\<close>

text \<open>Where no two nodes share a (lamport, author) pair, the events reported, counted with
  repetition, depend neither on the order of the nodes nor on the iteration order of the item table.\<close>

theorem detect_conflicts_order_independent:
  assumes "inj_on (\<lambda>n. n_prio n) (set ns)" "mset ns = mset ms"
    and "\<And>xs. mset (it xs) = mset xs" "\<And>xs. mset (it' xs) = mset xs"
  shows "mset (detect_conflicts it ns) = mset (detect_conflicts it' ms)"
  using assms by (rule detect_conflicts_perm)

text \<open>Two authors set one key at the same time.\<close>

definition sample_write :: "pubkey \<Rightarrow> sync_node" where
  "sample_write a = \<lparr>n_id = a, n_tx = \<lparr>tx_author = a, tx_lamport = 1, tx_wall_ms = 0,
     tx_ops = [OpMap (MapSet ''k'' [])], tx_parents = []\<rparr>, n_sig = 0\<rparr>"

theorem detect_conflicts_order_independent_witness:
  "mset (detect_conflicts id [sample_write 1, sample_write 2]) = mset (detect_conflicts rev [sample_write 2, sample_write 1])
   \<and> length (detect_conflicts id [sample_write 1, sample_write 2]) = 1"
proof
  show "mset (detect_conflicts id [sample_write 1, sample_write 2]) = mset (detect_conflicts rev [sample_write 2, sample_write 1])"
    by (rule detect_conflicts_order_independent) (simp_all add: inj_on_def sample_write_def)
  show "length (detect_conflicts id [sample_write 1, sample_write 2]) = 1"
    by (simp add: detect_conflicts_def detect_map_conflicts_def detect_list_conflicts_def conflict_items_of_def
        map_winners_def map_winner_op_def map_loser_def sample_write_def map_entry_default_def Let_def List.map_filter_simps)
qed

text \<open>An event of a map key names, as its winner, the write of greatest (lamport, author) among
  all writes of that key, and as its loser a write of another author.\<close>

theorem map_conflict_names_winner:
  assumes "w \<in> set ns" "node_entries key w \<noteq> []" "(0, 0) < n_prio w"
    and "\<And>n. n \<in> set ns \<Longrightarrow> node_entries key n \<noteq> [] \<Longrightarrow> n \<noteq> w \<Longrightarrow> n_prio n < n_prio w"
    and "ev \<in> set (detect_map_conflicts ns [])" "ce_key ev = key"
  shows "ce_winner_lamport ev = tx_lamport (n_tx w) \<and> ce_winner_author ev = tx_author (n_tx w)
    \<and> ce_winner_op ev = me_op (hd (node_entries key w)) \<and> ce_loser_author ev \<noteq> ce_winner_author ev"
proof -
  have win: "map_winners ns key = Some (hd (node_entries key w))"
    by (rule map_winners_max) (use assms in auto)
  have hd: "me_lamport (hd (node_entries key w)) = tx_lamport (n_tx w)" "me_author (hd (node_entries key w)) = tx_author (n_tx w)"
    using node_entries_prio [of "hd (node_entries key w)" key w] assms(2) by simp_all
  have "\<exists>n \<in> set ns. \<exists>op \<in> set (tx_ops (n_tx n)). map_loser (map_winners ns) (n_tx n) op = Some ev"
    using assms(5) by (simp add: detect_map_conflicts_def Let_def set_mapfilter)
  then obtain n :: sync_node and op where "map_loser (map_winners ns) (n_tx n) op = Some ev" by blast
  with assms(6) win hd show ?thesis
    by (auto simp: map_loser_def Let_def split: op.splits option.splits if_splits)
qed

theorem map_conflict_names_winner_witness:
  "\<exists>ev. detect_map_conflicts [sample_write 1, sample_write 2] [] = [ev] \<and> ce_winner_author ev = 2"
proof -
  let ?ns = "[sample_write 1, sample_write 2]"
  obtain ev where ev: "detect_map_conflicts ?ns [] = [ev]" "ce_key ev = ''k''"
    by (simp add: detect_map_conflicts_def map_winners_def map_winner_op_def map_loser_def sample_write_def
        map_entry_default_def Let_def List.map_filter_simps)
  have "node_entries ''k'' (sample_write 2) \<noteq> []"
    by (simp add: node_entries_def sample_write_def List.map_filter_simps)
  then have "ce_winner_author ev = tx_author (n_tx (sample_write 2))"
    using map_conflict_names_winner [of "sample_write 2" ?ns "''k''" ev] ev by (auto simp: sample_write_def)
  with ev show ?thesis by (simp add: sample_write_def)
qed

end
