(* ===== verification/State_Caches.thy ===== *)
theory State_Caches
  imports Conflicts
begin

text \<open>
  The materialised views of the graph (\<open>StateCaches\<close> in \<open>core/crdt/src/graph.rs\<close>): the winner per
  map key over all nodes and over the confirmed ones, the list items with their ordered visible
  set, the referenced blobs, and the stream of conflicts noticed as nodes arrive. The properties say
  that each view is what a replay of the admitted nodes computes.
\<close>

section \<open>Data\<close>

record map_winner =
  mw_lamport :: u64
  mw_author :: pubkey
  mw_value :: "bytes option"
  mw_is_blob :: bool

definition conflict_op_of :: "map_winner \<Rightarrow> conflict_op" where
  "conflict_op_of w =
     (case (mw_value w, mw_is_blob w) of
        (None, _) \<Rightarrow> CDelete
      | (Some v, True) \<Rightarrow> CSetBlob (if length v = 32 then of_be v else 0)
      | (Some v, False) \<Rightarrow> CSet v)"

record list_item_cache =
  lc_position :: "frac_idx option"
  lc_pos_priority :: prio
  lc_saw_insert :: bool
  lc_deleted :: bool

definition list_item_cache_default :: list_item_cache where
  "list_item_cache_default = \<lparr>lc_position = None, lc_pos_priority = (0, 0), lc_saw_insert = False, lc_deleted = False\<rparr>"

definition lc_is_visible :: "list_item_cache \<Rightarrow> bool" where
  "lc_is_visible c \<longleftrightarrow> lc_saw_insert c \<and> \<not> lc_deleted c \<and> lc_position c \<noteq> None"

record list_cache_state =
  lcs_items :: "item_id \<rightharpoonup> list_item_cache"
  lcs_visible :: "(frac_idx \<times> item_id) set"

definition list_cache_default :: list_cache_state where
  "list_cache_default = \<lparr>lcs_items = Map.empty, lcs_visible = {}\<rparr>"

record list_conflict_state =
  lcf_pos_winner :: "(u64 \<times> pubkey \<times> conflict_op) option"
  lcf_delete_winner :: "(u64 \<times> pubkey) option"
  lcf_pos_ops :: "(u64 \<times> pubkey \<times> conflict_op) list"

definition list_conflict_default :: list_conflict_state where
  "list_conflict_default = \<lparr>lcf_pos_winner = None, lcf_delete_winner = None, lcf_pos_ops = []\<rparr>"

definition LIST_CONFLICT_POS_OPS_CAP :: nat where
  "LIST_CONFLICT_POS_OPS_CAP = 64"

definition PENDING_CONFLICTS_CAP :: nat where
  "PENDING_CONFLICTS_CAP = 16384"

record state_caches =
  sc_map_all :: "string \<rightharpoonup> map_winner"
  sc_map_canonical :: "string \<rightharpoonup> map_winner"
  sc_lists :: "string \<rightharpoonup> list_cache_state"
  sc_blob_hashes :: "hash set"
  sc_conflict_stream_enabled :: bool
  sc_pending_conflicts :: "conflict_event list"
  sc_list_conflict_state :: "string \<times> item_id \<rightharpoonup> list_conflict_state"

definition state_caches_default :: state_caches where
  "state_caches_default = \<lparr>sc_map_all = Map.empty, sc_map_canonical = Map.empty, sc_lists = Map.empty,
     sc_blob_hashes = {}, sc_conflict_stream_enabled = False, sc_pending_conflicts = [],
     sc_list_conflict_state = Map.empty\<rparr>"

section \<open>Map keys\<close>

abbreviation mw_prio :: "map_winner \<Rightarrow> prio" where
  "mw_prio w \<equiv> (mw_lamport w, mw_author w)"

definition lww_update :: "string \<Rightarrow> map_winner \<Rightarrow> (string \<rightharpoonup> map_winner) \<Rightarrow> (string \<rightharpoonup> map_winner)" where
  "lww_update key candidate cache =
     (case cache key of
        Some current \<Rightarrow> if mw_prio current < mw_prio candidate then cache(key \<mapsto> candidate) else cache
      | None \<Rightarrow> cache(key \<mapsto> candidate))"

definition push_pending_conflict :: "conflict_event \<Rightarrow> conflict_event list \<Rightarrow> conflict_event list" where
  "push_pending_conflict event pending =
     (if PENDING_CONFLICTS_CAP \<le> length pending
      then drop (length pending + 1 - PENDING_CONFLICTS_CAP) pending else pending) @ [event]"

fun map_candidate :: "transaction \<Rightarrow> map_op \<Rightarrow> map_winner" where
  "map_candidate tx (MapSet key v) =
     \<lparr>mw_lamport = tx_lamport tx, mw_author = tx_author tx, mw_value = Some v, mw_is_blob = False\<rparr>"
| "map_candidate tx (MapDelete key) =
     \<lparr>mw_lamport = tx_lamport tx, mw_author = tx_author tx, mw_value = None, mw_is_blob = False\<rparr>"
| "map_candidate tx (MapSetBlob key blob_hash) =
     \<lparr>mw_lamport = tx_lamport tx, mw_author = tx_author tx, mw_value = Some (be_bytes 32 blob_hash), mw_is_blob = True\<rparr>"

fun map_op_blobs :: "map_op \<Rightarrow> hash set" where
  "map_op_blobs (MapSetBlob key blob_hash) = {blob_hash}"
| "map_op_blobs _ = {}"

definition map_overwrite :: "string \<Rightarrow> map_winner \<Rightarrow> map_winner \<Rightarrow> conflict_event" where
  "map_overwrite key winner loser =
     \<lparr>ce_kind = MapOverwrite, ce_key = key,
      ce_winner_author = mw_author winner, ce_winner_lamport = mw_lamport winner, ce_winner_op = conflict_op_of winner,
      ce_loser_author = mw_author loser, ce_loser_lamport = mw_lamport loser, ce_loser_op = conflict_op_of loser\<rparr>"

definition stream_map_conflict :: "string \<Rightarrow> map_winner \<Rightarrow> state_caches \<Rightarrow> state_caches" where
  "stream_map_conflict key candidate sc =
     (if sc_conflict_stream_enabled sc then
        (case sc_map_all sc key of
           Some current \<Rightarrow>
             if mw_author current \<noteq> mw_author candidate then
               let event = (if mw_prio current < mw_prio candidate then map_overwrite key candidate current
                            else map_overwrite key current candidate)
               in sc\<lparr>sc_pending_conflicts := push_pending_conflict event (sc_pending_conflicts sc)\<rparr>
             else sc
         | None \<Rightarrow> sc)
      else sc)"

definition update_map_op :: "transaction \<Rightarrow> bool \<Rightarrow> map_op \<Rightarrow> state_caches \<Rightarrow> state_caches" where
  "update_map_op tx canonical mop sc0 =
     (let key = map_op_key mop; candidate = map_candidate tx mop;
          sc1 = sc0\<lparr>sc_blob_hashes := map_op_blobs mop \<union> sc_blob_hashes sc0\<rparr>;
          sc2 = stream_map_conflict key candidate sc1;
          sc3 = sc2\<lparr>sc_map_all := lww_update key candidate (sc_map_all sc2)\<rparr>
      in if canonical then sc3\<lparr>sc_map_canonical := lww_update key candidate (sc_map_canonical sc3)\<rparr> else sc3)"

section \<open>Lists\<close>

fun list_op_item :: "list_op \<Rightarrow> item_id" where
  "list_op_item (ListInsert k i p) = i"
| "list_op_item (ListMove k i p) = i"
| "list_op_item (ListDelete k i) = i"

definition visible_position :: "list_item_cache \<Rightarrow> frac_idx option" where
  "visible_position c = (if lc_is_visible c then lc_position c else None)"

definition lc_place :: "frac_idx \<Rightarrow> prio \<Rightarrow> list_item_cache \<Rightarrow> list_item_cache" where
  "lc_place pos prio c =
     (if lc_pos_priority c < prio then c\<lparr>lc_position := Some pos, lc_pos_priority := prio\<rparr> else c)"

fun update_list_item :: "prio \<Rightarrow> list_op \<Rightarrow> list_item_cache \<Rightarrow> list_item_cache" where
  "update_list_item prio (ListInsert k i pos) c = lc_place pos prio (c\<lparr>lc_saw_insert := True\<rparr>)"
| "update_list_item prio (ListMove k i pos) c = lc_place pos prio c"
| "update_list_item prio (ListDelete k i) c = c\<lparr>lc_deleted := True\<rparr>"

definition update_list_cache ::
  "list_op \<Rightarrow> prio \<Rightarrow> (string \<rightharpoonup> list_cache_state) \<Rightarrow> (string \<rightharpoonup> list_cache_state)" where
  "update_list_cache lop prio list_map =
     (let list_key = list_op_key lop; i = list_op_item lop;
          cache = (case list_map list_key of Some c \<Rightarrow> c | None \<Rightarrow> list_cache_default);
          entry = (case lcs_items cache i of Some e \<Rightarrow> e | None \<Rightarrow> list_item_cache_default);
          entry' = update_list_item prio lop entry;
          was = visible_position entry; now = visible_position entry';
          vis1 = (if was \<noteq> now then (case was of Some old_pos \<Rightarrow> lcs_visible cache - {(old_pos, i)} | None \<Rightarrow> lcs_visible cache)
                  else lcs_visible cache);
          vis2 = (if was \<noteq> now then (case now of Some new_pos \<Rightarrow> insert (new_pos, i) vis1 | None \<Rightarrow> vis1) else vis1)
      in list_map(list_key \<mapsto> cache\<lparr>lcs_items := (lcs_items cache)(i \<mapsto> entry'), lcs_visible := vis2\<rparr>))"

section \<open>The list conflict stream\<close>

definition list_event ::
  "conflict_kind \<Rightarrow> string \<Rightarrow> item_id \<Rightarrow> u64 \<times> pubkey \<times> conflict_op \<Rightarrow> u64 \<times> pubkey \<times> conflict_op \<Rightarrow> conflict_event" where
  "list_event kind list_key i winner loser =
     \<lparr>ce_kind = kind, ce_key = list_conflict_key list_key i,
      ce_winner_author = fst (snd winner), ce_winner_lamport = fst winner, ce_winner_op = snd (snd winner),
      ce_loser_author = fst (snd loser), ce_loser_lamport = fst loser, ce_loser_op = snd (snd loser)\<rparr>"

definition position_event ::
  "string \<Rightarrow> item_id \<Rightarrow> u64 \<times> pubkey \<times> conflict_op \<Rightarrow> list_conflict_state \<Rightarrow> conflict_event option" where
  "position_event list_key i new st = (case new of (lamport, author, cop) \<Rightarrow>
     (case lcf_delete_winner st of
        Some (dl, da) \<Rightarrow>
          if da \<noteq> author then Some (list_event ListDeleteWon list_key i (dl, da, CListDelete i) new) else None
      | None \<Rightarrow>
          (case lcf_pos_winner st of
             Some (wl, wa, wop) \<Rightarrow>
               if wa \<noteq> author then
                 Some (if (wl, wa) < (lamport, author) then list_event ListMoveLost list_key i new (wl, wa, wop)
                       else list_event ListMoveLost list_key i (wl, wa, wop) new)
               else None
           | None \<Rightarrow> None)))"

definition note_position ::
  "string \<Rightarrow> item_id \<Rightarrow> conflict_op \<Rightarrow> prio \<Rightarrow> state_caches \<Rightarrow> state_caches" where
  "note_position list_key i cop prio sc =
     (let new = (fst prio, snd prio, cop);
          st = (case sc_list_conflict_state sc (list_key, i) of Some s \<Rightarrow> s | None \<Rightarrow> list_conflict_default);
          event = position_event list_key i new st;
          st1 = (if length (lcf_pos_ops st) < LIST_CONFLICT_POS_OPS_CAP
                 then st\<lparr>lcf_pos_ops := lcf_pos_ops st @ [new]\<rparr> else st);
          st2 = (if beats_pos prio (lcf_pos_winner st1) then st1\<lparr>lcf_pos_winner := Some new\<rparr> else st1);
          sc1 = sc\<lparr>sc_list_conflict_state := (sc_list_conflict_state sc)((list_key, i) \<mapsto> st2)\<rparr>
      in case event of
           Some ev \<Rightarrow> sc1\<lparr>sc_pending_conflicts := push_pending_conflict ev (sc_pending_conflicts sc1)\<rparr>
         | None \<Rightarrow> sc1)"

definition delete_events :: "string \<Rightarrow> item_id \<Rightarrow> prio \<Rightarrow> list_conflict_state \<Rightarrow> conflict_event list" where
  "delete_events list_key i prio st =
     (if lcf_delete_winner st = None then
        List.map_filter (\<lambda>(pl, pa, pop). if pa = snd prio then None
          else Some (list_event ListDeleteWon list_key i (fst prio, snd prio, CListDelete i) (pl, pa, pop))) (lcf_pos_ops st)
      else [])"

definition note_delete :: "string \<Rightarrow> item_id \<Rightarrow> prio \<Rightarrow> state_caches \<Rightarrow> state_caches" where
  "note_delete list_key i prio sc =
     (let st = (case sc_list_conflict_state sc (list_key, i) of Some s \<Rightarrow> s | None \<Rightarrow> list_conflict_default);
          events = delete_events list_key i prio st;
          st1 = (if beats_delete prio (lcf_delete_winner st) then st\<lparr>lcf_delete_winner := Some prio\<rparr> else st)
      in sc\<lparr>sc_list_conflict_state := (sc_list_conflict_state sc)((list_key, i) \<mapsto> st1),
            sc_pending_conflicts := fold push_pending_conflict events (sc_pending_conflicts sc)\<rparr>)"

fun update_list_conflict_state :: "list_op \<Rightarrow> prio \<Rightarrow> state_caches \<Rightarrow> state_caches" where
  "update_list_conflict_state (ListInsert list_key i pos) prio sc =
     (if sc_conflict_stream_enabled sc then note_position list_key i (CListInsert i) prio sc else sc)"
| "update_list_conflict_state (ListMove list_key i pos) prio sc =
     (if sc_conflict_stream_enabled sc then note_position list_key i (CListMove i) prio sc else sc)"
| "update_list_conflict_state (ListDelete list_key i) prio sc =
     (if sc_conflict_stream_enabled sc then note_delete list_key i prio sc else sc)"

section \<open>One node\<close>

definition update_cache_op :: "transaction \<Rightarrow> bool \<Rightarrow> op \<Rightarrow> state_caches \<Rightarrow> state_caches" where
  "update_cache_op tx canonical op sc =
     (case op of
        OpMap mop \<Rightarrow> update_map_op tx canonical mop sc
      | OpList lop \<Rightarrow>
          let prio = (tx_lamport tx, tx_author tx); sc1 = update_list_conflict_state lop prio sc
          in sc1\<lparr>sc_lists := update_list_cache lop prio (sc_lists sc1)\<rparr>
      | OpText _ \<Rightarrow> sc)"

definition update_state_caches :: "sync_node \<Rightarrow> bool \<Rightarrow> state_caches \<Rightarrow> state_caches" where
  "update_state_caches node canonical sc =
     (if n_prio node = (0, 0) then sc
      else fold (update_cache_op (n_tx node) canonical) (tx_ops (n_tx node)) sc)"

section \<open>Reads\<close>

definition winner_values :: "(string \<rightharpoonup> map_winner) \<Rightarrow> (string \<rightharpoonup> bytes)" where
  "winner_values m = (\<lambda>k. case m k of Some w \<Rightarrow> mw_value w | None \<Rightarrow> None)"

definition winners_with_meta :: "(string \<rightharpoonup> map_winner) \<Rightarrow> (string \<rightharpoonup> u64 \<times> pubkey \<times> bytes \<times> bool)" where
  "winners_with_meta m =
     (\<lambda>k. case m k of Some w \<Rightarrow> map_option (\<lambda>v. (mw_lamport w, mw_author w, v, mw_is_blob w)) (mw_value w) | None \<Rightarrow> None)"

definition cached_list :: "(string \<rightharpoonup> list_cache_state) \<Rightarrow> string \<Rightarrow> (item_id \<times> frac_idx) list" where
  "cached_list list_map list_key =
     (case list_map list_key of
        Some cache \<Rightarrow> map (\<lambda>(pos, i). (i, pos)) (sorted_list_of_set (lcs_visible cache))
      | None \<Rightarrow> [])"

section \<open>The replay the caches stand for\<close>

fun replay_op :: "transaction \<Rightarrow> op \<Rightarrow> (string \<rightharpoonup> u64 \<times> pubkey \<times> bytes option) \<Rightarrow> (string \<rightharpoonup> u64 \<times> pubkey \<times> bytes option)" where
  "replay_op tx (OpMap mop) per_key =
     (let key = map_op_key mop;
          entry = (case per_key key of Some e \<Rightarrow> e | None \<Rightarrow> (0, 0, None))
      in per_key(key \<mapsto>
           if (fst entry, fst (snd entry)) < (tx_lamport tx, tx_author tx)
           then (tx_lamport tx, tx_author tx,
                 case mop of MapSet k v \<Rightarrow> Some v | MapDelete k \<Rightarrow> None | MapSetBlob k h \<Rightarrow> Some (be_bytes 32 h))
           else entry))"
| "replay_op tx (OpList l) per_key = per_key"
| "replay_op tx (OpText t) per_key = per_key"

definition replay_map :: "sync_node list \<Rightarrow> (string \<rightharpoonup> bytes)" where
  "replay_map nodes =
     (\<lambda>key. case fold (\<lambda>n. fold (replay_op (n_tx n)) (tx_ops (n_tx n))) nodes Map.empty key of
        Some (_, _, v) \<Rightarrow> v | None \<Rightarrow> None)"

section \<open>Views\<close>

text \<open>
  A view is kept by an update per arrival; what it shows is a function of the state that each
  arrival advances on its own, whatever else the state holds.
\<close>

locale materialised_view =
  fixes upd :: "'n \<Rightarrow> 's \<Rightarrow> 's" and view :: "'s \<Rightarrow> 'v" and step :: "'n \<Rightarrow> 'v \<Rightarrow> 'v"
  assumes view_upd: "view (upd n s) = step n (view s)"
begin

lemma view_fold: "view (fold upd ns s) = fold step ns (view s)"
  by (induction ns arbitrary: s) (simp_all add: view_upd)

end

lemma stream_map_conflict_frame [frame_simps]:
  "sc_map_all (stream_map_conflict key w sc) = sc_map_all sc"
  "sc_map_canonical (stream_map_conflict key w sc) = sc_map_canonical sc"
  "sc_lists (stream_map_conflict key w sc) = sc_lists sc"
  "sc_blob_hashes (stream_map_conflict key w sc) = sc_blob_hashes sc"
  "sc_conflict_stream_enabled (stream_map_conflict key w sc) = sc_conflict_stream_enabled sc"
  "sc_list_conflict_state (stream_map_conflict key w sc) = sc_list_conflict_state sc"
  by (auto simp: stream_map_conflict_def Let_def split: option.split)

lemma list_conflict_frame [frame_simps]:
  "sc_map_all (update_list_conflict_state lop prio sc) = sc_map_all sc"
  "sc_map_canonical (update_list_conflict_state lop prio sc) = sc_map_canonical sc"
  "sc_lists (update_list_conflict_state lop prio sc) = sc_lists sc"
  "sc_blob_hashes (update_list_conflict_state lop prio sc) = sc_blob_hashes sc"
  "sc_conflict_stream_enabled (update_list_conflict_state lop prio sc) = sc_conflict_stream_enabled sc"
  by (cases lop; auto simp: note_position_def note_delete_def Let_def split: option.split)+

lemma update_cache_op_fields [cache_simps]:
  "sc_map_all (update_cache_op tx c op sc) =
     (case op of OpMap m \<Rightarrow> lww_update (map_op_key m) (map_candidate tx m) (sc_map_all sc) | _ \<Rightarrow> sc_map_all sc)"
  "sc_map_canonical (update_cache_op tx c op sc) =
     (case op of OpMap m \<Rightarrow> if c then lww_update (map_op_key m) (map_candidate tx m) (sc_map_canonical sc) else sc_map_canonical sc
      | _ \<Rightarrow> sc_map_canonical sc)"
  "sc_lists (update_cache_op tx c op sc) =
     (case op of OpList l \<Rightarrow> update_list_cache l (tx_lamport tx, tx_author tx) (sc_lists sc) | _ \<Rightarrow> sc_lists sc)"
  "sc_blob_hashes (update_cache_op tx c op sc) =
     (case op of OpMap m \<Rightarrow> map_op_blobs m \<union> sc_blob_hashes sc | _ \<Rightarrow> sc_blob_hashes sc)"
  "sc_conflict_stream_enabled (update_cache_op tx c op sc) = sc_conflict_stream_enabled sc"
  by (simp_all add: update_cache_op_def update_map_op_def Let_def frame_simps split: op.split)

abbreviation arrive :: "sync_node \<times> bool \<Rightarrow> state_caches \<Rightarrow> state_caches" where
  "arrive a sc \<equiv> update_state_caches (fst a) (snd a) sc"

subsection \<open>Map winners\<close>

type_synonym write_entry = "u64 \<times> pubkey \<times> bytes option"

abbreviation we_prio :: "write_entry \<Rightarrow> prio" where
  "we_prio e \<equiv> (fst e, fst (snd e))"

definition write_put :: "write_entry \<Rightarrow> write_entry \<Rightarrow> write_entry" where
  "write_put c e = (if we_prio e < we_prio c then c else e)"

interpretation write_register: lww_register we_prio we_prio id write_put
  by unfold_locales (auto simp: write_put_def)

fun op_write :: "transaction \<Rightarrow> string \<Rightarrow> op \<Rightarrow> write_entry option" where
  "op_write tx key (OpMap m) = (if map_op_key m = key
     then Some (tx_lamport tx, tx_author tx, mw_value (map_candidate tx m)) else None)"
| "op_write tx key _ = None"

definition node_writes :: "string \<Rightarrow> sync_node \<Rightarrow> write_entry list" where
  "node_writes key n = List.map_filter (op_write (n_tx n) key) (tx_ops (n_tx n))"

abbreviation replay_node :: "string \<Rightarrow> sync_node \<Rightarrow> write_entry \<Rightarrow> write_entry" where
  "replay_node key n \<equiv> fold write_put (node_writes key n)"

definition winner_entry :: "map_winner option \<Rightarrow> write_entry" where
  "winner_entry w = (case w of None \<Rightarrow> (0, 0, None) | Some w \<Rightarrow> (mw_lamport w, mw_author w, mw_value w))"

lemma map_candidate_prio [simp]: "mw_lamport (map_candidate tx m) = tx_lamport tx" "mw_author (map_candidate tx m) = tx_author tx"
  by (cases m; simp)+

lemma node_writes_prio: "w \<in> set (node_writes key n) \<Longrightarrow> we_prio w = n_prio n"
proof -
  have "op_write tx key op = Some w \<Longrightarrow> we_prio w = (tx_lamport tx, tx_author tx)" for tx op
    by (cases op) (auto split: if_splits)
  then show "w \<in> set (node_writes key n) \<Longrightarrow> ?thesis" by (auto simp: node_writes_def set_mapfilter)
qed

lemma winner_entry_lww:
  assumes "(0, 0) < (tx_lamport tx, tx_author tx)"
  shows "winner_entry (lww_update k (map_candidate tx m) cache key) =
     (if k = key then write_put (tx_lamport tx, tx_author tx, mw_value (map_candidate tx m)) (winner_entry (cache key))
      else winner_entry (cache key))"
  using assms by (auto simp: lww_update_def winner_entry_def write_put_def split: option.split)

lemma winner_entry_ops:
  assumes "(0, 0) < (tx_lamport tx, tx_author tx)"
  shows "winner_entry (sc_map_all (fold (update_cache_op tx c) ops sc) key) =
      fold write_put (List.map_filter (op_write tx key) ops) (winner_entry (sc_map_all sc key))"
    "winner_entry (sc_map_canonical (fold (update_cache_op tx c) ops sc) key) =
      (if c then fold write_put (List.map_filter (op_write tx key) ops) (winner_entry (sc_map_canonical sc key))
       else winner_entry (sc_map_canonical sc key))"
proof -
  have all: "winner_entry (sc_map_all (update_cache_op tx c op sc) key) =
      (case op_write tx key op of None \<Rightarrow> winner_entry (sc_map_all sc key) | Some w \<Rightarrow> write_put w (winner_entry (sc_map_all sc key)))" for op sc
    by (cases op) (simp_all add: cache_simps winner_entry_lww [OF assms])
  have can: "winner_entry (sc_map_canonical (update_cache_op tx b op sc) key) =
      (case op_write tx key op of None \<Rightarrow> winner_entry (sc_map_canonical sc key)
        | Some w \<Rightarrow> if b then write_put w (winner_entry (sc_map_canonical sc key)) else winner_entry (sc_map_canonical sc key))" for b op sc
    by (cases op) (simp_all add: cache_simps winner_entry_lww [OF assms])
  show "winner_entry (sc_map_all (fold (update_cache_op tx c) ops sc) key) =
      fold write_put (List.map_filter (op_write tx key) ops) (winner_entry (sc_map_all sc key))"
    by (induction ops arbitrary: sc) (simp_all add: List.map_filter_simps all split: option.split)
  show "winner_entry (sc_map_canonical (fold (update_cache_op tx c) ops sc) key) =
      (if c then fold write_put (List.map_filter (op_write tx key) ops) (winner_entry (sc_map_canonical sc key))
       else winner_entry (sc_map_canonical sc key))"
    by (induction ops arbitrary: sc) (simp_all add: List.map_filter_simps can split: option.split)
qed

lemma prio_zero_least: "(0, 0) \<le> (p :: prio)" "p \<noteq> (0, 0) \<Longrightarrow> (0, 0) < (p :: prio)"
  by (cases p; auto simp: less_eq_prod_def less_prod_def word_coorder.not_eq_extremum)+

lemma replay_node_zero: "n_prio n = (0, 0) \<Longrightarrow> replay_node key n e = e"
  by (rule write_register.fold_put_le) (metis node_writes_prio prio_zero_least(1))

interpretation speculative_view: materialised_view arrive
    "\<lambda>sc key. winner_entry (sc_map_all sc key)" "\<lambda>a f key. replay_node key (fst a) (f key)"
proof
  fix a sc
  show "(\<lambda>key. winner_entry (sc_map_all (arrive a sc) key)) = (\<lambda>key. replay_node key (fst a) (winner_entry (sc_map_all sc key)))"
    using replay_node_zero winner_entry_ops(1) prio_zero_least(2)
    by (auto simp: update_state_caches_def node_writes_def fun_eq_iff)
qed

interpretation canonical_view: materialised_view arrive
    "\<lambda>sc key. winner_entry (sc_map_canonical sc key)"
    "\<lambda>a f key. if snd a then replay_node key (fst a) (f key) else f key"
proof
  fix a sc
  show "(\<lambda>key. winner_entry (sc_map_canonical (arrive a sc) key)) =
      (\<lambda>key. if snd a then replay_node key (fst a) (winner_entry (sc_map_canonical sc key)) else winner_entry (sc_map_canonical sc key))"
    using replay_node_zero winner_entry_ops(2) prio_zero_least(2)
    by (auto simp: update_state_caches_def node_writes_def fun_eq_iff)
qed

lemma replay_map_entries:
  "replay_map ns key = snd (snd (fold (replay_node key) ns (0, 0, None)))"
proof -
  define at :: "(string \<rightharpoonup> write_entry) \<Rightarrow> write_entry"
    where "at m = (case m key of Some e \<Rightarrow> e | None \<Rightarrow> (0, 0, None))" for m
  have one: "at (replay_op tx op m) = (case op_write tx key op of None \<Rightarrow> at m | Some w \<Rightarrow> write_put w (at m))" for tx op m
    by (cases op; cases "map_op_key (case op of OpMap mop \<Rightarrow> mop | _ \<Rightarrow> MapDelete key) = key")
      (auto simp: at_def write_put_def Let_def split: map_op.split)
  have "at (fold (replay_op tx) ops m) = fold write_put (List.map_filter (op_write tx key) ops) (at m)" for tx ops m
    by (induction ops arbitrary: m) (simp_all add: one List.map_filter_simps split: option.split)
  then have "at (fold (\<lambda>n. fold (replay_op (n_tx n)) (tx_ops (n_tx n))) ns m) = fold (replay_node key) ns (at m)" for m
    by (induction ns arbitrary: m) (simp_all add: node_writes_def)
  from this [of Map.empty] show ?thesis
    by (simp add: replay_map_def at_def case_prod_unfold split: option.splits)
qed

lemma fold_pointwise: "fold (\<lambda>a f key. g key a (f key)) as f key = fold (g key) as (f key)"
  by (induction as arbitrary: f) simp_all

lemma fold_filter_if: "fold (\<lambda>a x. if P a then g a x else x) as x = fold g (filter P as) x"
  by (induction as arbitrary: x) simp_all

lemma winner_values_entry: "winner_values m key = snd (snd (winner_entry (m key)))"
  by (simp add: winner_values_def winner_entry_def split: option.split)

lemma map_cache_replay:
  "winner_values (sc_map_all (fold arrive as state_caches_default)) = replay_map (map fst as)"
  "winner_values (sc_map_canonical (fold arrive as state_caches_default)) = replay_map (map fst (filter snd as))"
proof -
  have e: "(\<lambda>key. winner_entry (sc_map_all state_caches_default key)) = (\<lambda>key. (0, 0, None))"
    "(\<lambda>key. winner_entry (sc_map_canonical state_caches_default key)) = (\<lambda>key. (0, 0, None))"
    by (simp_all add: winner_entry_def state_caches_default_def)
  show "winner_values (sc_map_all (fold arrive as state_caches_default)) = replay_map (map fst as)"
    using speculative_view.view_fold [of as state_caches_default]
    by (simp add: fun_eq_iff winner_values_entry e fold_pointwise [of "\<lambda>key a. replay_node key (fst a)"]
        replay_map_entries fold_map comp_def)
  show "winner_values (sc_map_canonical (fold arrive as state_caches_default)) = replay_map (map fst (filter snd as))"
    using canonical_view.view_fold [of as state_caches_default]
    by (simp add: fun_eq_iff winner_values_entry e
        fold_pointwise [of "\<lambda>key a e. if snd a then replay_node key (fst a) e else e"]
        replay_map_entries fold_map comp_def fold_filter_if)
qed

lemma replay_map_set:
  assumes "inj_on (\<lambda>n. n_prio n) (set ns)" "set ns = set ms"
  shows "replay_map ns = replay_map ms"
proof
  fix key
  have "fold (replay_node key) ns e = fold (replay_node key) ms e" for e
    by (rule write_register.fold_put_groups_set [where np = "\<lambda>n. n_prio n"])
      (use assms node_writes_prio in auto)
  then show "replay_map ns key = replay_map ms key" by (simp add: replay_map_entries)
qed

lemma replay_map_max:
  assumes "w \<in> set ns" "node_writes key w \<noteq> []" "(0, 0) < n_prio w"
    and "\<And>n. n \<in> set ns \<Longrightarrow> node_writes key n \<noteq> [] \<Longrightarrow> n \<noteq> w \<Longrightarrow> n_prio n < n_prio w"
  shows "replay_map ns key = snd (snd (hd (node_writes key w)))"
proof -
  have "fold (replay_node key) ns (0, 0, None) = id (hd (node_writes key w))"
    by (rule write_register.fold_put_groups_winner [where np = "\<lambda>n. n_prio n"]) (use assms node_writes_prio in auto)
  then show ?thesis by (simp add: replay_map_entries)
qed

subsection \<open>Lists\<close>

definition as_item :: "list_item_cache \<Rightarrow> item_state" where
  "as_item c = \<lparr>it_position = lc_position c, it_pos_priority = lc_pos_priority c,
     it_saw_insert = lc_saw_insert c, it_deleted = lc_deleted c\<rparr>"

definition cache_item :: "list_cache_state \<Rightarrow> item_id \<Rightarrow> list_item_cache" where
  "cache_item c i = (case lcs_items c i of Some e \<Rightarrow> e | None \<Rightarrow> list_item_cache_default)"

definition list_at :: "(string \<rightharpoonup> list_cache_state) \<Rightarrow> string \<Rightarrow> list_cache_state" where
  "list_at m key = (case m key of Some c \<Rightarrow> c | None \<Rightarrow> list_cache_default)"

definition list_item_at :: "state_caches \<Rightarrow> string \<Rightarrow> item_id \<Rightarrow> item_state" where
  "list_item_at sc key i = as_item (cache_item (list_at (sc_lists sc) key) i)"

definition lists_ok :: "(string \<rightharpoonup> list_cache_state) \<Rightarrow> bool" where
  "lists_ok m \<longleftrightarrow> (\<forall>key. lcs_visible (list_at m key) = visible_items (\<lambda>i. as_item (cache_item (list_at m key) i)))"

lemma visible_position_item: "visible_position c = item_visible (as_item c)"
  by (auto simp: visible_position_def lc_is_visible_def item_visible_def as_item_def)

lemma update_list_item_step:
  "as_item (update_list_item prio lop c) = item_step (list_op_key lop) (list_op_item lop) prio (OpList lop) (as_item c)"
  by (cases lop) (simp_all add: as_item_def lc_place_def set_position_def)

lemma item_step_other:
  "(list_op_key lop, list_op_item lop) \<noteq> (key, i) \<Longrightarrow> item_step key i prio (OpList lop) st = st"
  by (cases lop) auto

lemma update_list_cache_at:
  "as_item (cache_item (list_at (update_list_cache lop prio m) key) i) =
     item_step key i prio (OpList lop) (as_item (cache_item (list_at m key) i))"
proof (cases "(list_op_key lop, list_op_item lop) = (key, i)")
  case True
  then show ?thesis
    using update_list_item_step [of prio lop "cache_item (list_at m key) i"]
    by (simp add: update_list_cache_def Let_def list_at_def cache_item_def)
next
  case False
  then have "cache_item (list_at (update_list_cache lop prio m) key) i = cache_item (list_at m key) i"
    by (auto simp: update_list_cache_def Let_def list_at_def cache_item_def)
  with False show ?thesis by (simp add: item_step_other)
qed

lemma lists_ok_update:
  assumes "lists_ok m"
  shows "lists_ok (update_list_cache lop prio m)"
  unfolding lists_ok_def
proof
  fix key
  let ?k = "list_op_key lop" and ?i = "list_op_item lop" and ?m = "update_list_cache lop prio m"
  have vis: "(p, j) \<in> lcs_visible (list_at m key) \<longleftrightarrow> visible_position (cache_item (list_at m key) j) = Some p" for p j
    using assms by (simp add: lists_ok_def visible_items_def visible_position_item)
  show "lcs_visible (list_at ?m key) = visible_items (\<lambda>j. as_item (cache_item (list_at ?m key) j))"
  proof (cases "key = ?k")
    case True
    let ?c = "cache_item (list_at m key) ?i"
    let ?c' = "update_list_item prio lop ?c"
    have items: "cache_item (list_at ?m key) j = (if j = ?i then ?c' else cache_item (list_at m key) j)" for j
      using True by (simp add: update_list_cache_def Let_def list_at_def cache_item_def)
    have new: "lcs_visible (list_at ?m key) =
        (if visible_position ?c \<noteq> visible_position ?c'
         then (case visible_position ?c' of Some p \<Rightarrow> insert (p, ?i) | None \<Rightarrow> id)
           (case visible_position ?c of Some p \<Rightarrow> lcs_visible (list_at m key) - {(p, ?i)} | None \<Rightarrow> lcs_visible (list_at m key))
         else lcs_visible (list_at m key))"
      using True by (simp add: update_list_cache_def Let_def list_at_def cache_item_def split: option.split)
    have "(p, j) \<in> lcs_visible (list_at ?m key) \<longleftrightarrow> visible_position (cache_item (list_at ?m key) j) = Some p" for p j
      unfolding new items by (cases "visible_position ?c"; cases "visible_position ?c'") (auto simp: vis)
    then show ?thesis by (auto simp: visible_items_def visible_position_item)
  next
    case False
    then have "list_at ?m key = list_at m key" by (simp add: update_list_cache_def Let_def list_at_def)
    with assms show ?thesis by (simp add: lists_ok_def)
  qed
qed

lemma lists_ok_arrive: "lists_ok (sc_lists sc) \<Longrightarrow> lists_ok (sc_lists (arrive a sc))"
proof -
  have "lists_ok (sc_lists sc) \<Longrightarrow> lists_ok (sc_lists (fold (update_cache_op tx c) ops sc))" for tx c ops
    by (rule fold_inv) (auto simp: cache_simps lists_ok_update split: op.split)
  then show "lists_ok (sc_lists sc) \<Longrightarrow> ?thesis" by (simp add: update_state_caches_def)
qed

interpretation list_view: materialised_view arrive list_item_at
    "\<lambda>a f key i. if n_prio (fst a) = (0, 0) then f key i else item_node key i (fst a) (f key i)"
proof
  fix a sc
  have one: "list_item_at (update_cache_op tx c op sc) key i =
      item_step key i (tx_lamport tx, tx_author tx) op (list_item_at sc key i)" for tx c op sc key i
    by (cases op) (simp_all add: list_item_at_def cache_simps update_list_cache_at)
  have "list_item_at (fold (update_cache_op tx c) ops sc) key i =
      fold (item_step key i (tx_lamport tx, tx_author tx)) ops (list_item_at sc key i)" for tx c ops key i
    by (induction ops arbitrary: sc) (simp_all add: one)
  then show "list_item_at (arrive a sc) =
      (\<lambda>key i. if n_prio (fst a) = (0, 0) then list_item_at sc key i else item_node key i (fst a) (list_item_at sc key i))"
    by (auto simp: update_state_caches_def item_node_def fun_eq_iff)
qed

lemma fold_pointwise2: "fold (\<lambda>a f key i. g key i a (f key i)) as f key i = fold (g key i) as (f key i)"
  by (induction as arbitrary: f) simp_all

definition counted :: "sync_node list \<Rightarrow> sync_node list" where
  "counted ns = filter (\<lambda>n. n_prio n \<noteq> (0, 0)) ns"

lemma cached_list_visible:
  assumes "lists_ok m"
  shows "cached_list m key = map prod.swap (sorted_list_of_set (visible_items (\<lambda>i. as_item (cache_item (list_at m key) i))))"
proof -
  have "(\<lambda>(pos, i). (i, pos)) = (prod.swap :: frac_idx \<times> item_id \<Rightarrow> _)" by (auto simp: fun_eq_iff)
  moreover have "m key = None \<Longrightarrow> visible_items (\<lambda>i. as_item (cache_item (list_at m key) i)) = {}"
    by (simp add: visible_items_def list_at_def cache_item_def list_cache_default_def list_item_cache_default_def
        as_item_def item_visible_def)
  moreover have "m key = Some c \<Longrightarrow> lcs_visible c = visible_items (\<lambda>i. as_item (cache_item (list_at m key) i))" for c
    using assms [unfolded lists_ok_def, rule_format, of key] by (simp add: list_at_def)
  ultimately show ?thesis by (auto simp: cached_list_def split: option.split)
qed

lemma lists_ok_fold: "lists_ok (sc_lists (fold arrive as state_caches_default))"
proof -
  have "lists_ok (sc_lists state_caches_default)"
    by (simp add: lists_ok_def state_caches_default_def list_at_def list_cache_default_def cache_item_def
        list_item_cache_default_def visible_items_def as_item_def item_visible_def)
  then show ?thesis by (rule fold_inv) (rule lists_ok_arrive)
qed

lemma list_cache_replay:
  "cached_list (sc_lists (fold arrive as state_caches_default)) key = resolve_list_seq (counted (map fst as)) key"
proof -
  let ?g = "\<lambda>key i a f. if n_prio (fst a) = (0, 0) then f else item_node key i (fst a) f"
  have "list_item_at state_caches_default key i = item_default" for i
    by (simp add: list_item_at_def state_caches_default_def list_at_def list_cache_default_def cache_item_def
        list_item_cache_default_def as_item_def item_default_def)
  moreover have "fold (?g key i) as f = fold (item_node key i) (counted (map fst as)) f" for i f
    by (induction as arbitrary: f) (simp_all add: counted_def)
  ultimately have "list_item_at (fold arrive as state_caches_default) key i =
      fold (item_node key i) (counted (map fst as)) item_default" for i
    unfolding list_view.view_fold fold_pointwise2 [of ?g] by simp
  then show ?thesis
    unfolding resolve_list_seq_canonical cached_list_visible [OF lists_ok_fold] by (simp add: list_item_at_def)
qed

subsection \<open>Blobs\<close>

definition node_blobs :: "sync_node \<Rightarrow> hash set" where
  "node_blobs n = {h. \<exists>key. OpMap (MapSetBlob key h) \<in> set (tx_ops (n_tx n))}"

interpretation blob_view: materialised_view arrive sc_blob_hashes
    "\<lambda>a B. if n_prio (fst a) = (0, 0) then B else node_blobs (fst a) \<union> B"
proof
  fix a sc
  have "sc_blob_hashes (fold (update_cache_op tx c) ops sc) = {h. \<exists>key. OpMap (MapSetBlob key h) \<in> set ops} \<union> sc_blob_hashes sc" for tx c ops
  proof (induction ops arbitrary: sc)
    case (Cons op ops)
    have "sc_blob_hashes (update_cache_op tx c op sc) = {h. \<exists>key. op = OpMap (MapSetBlob key h)} \<union> sc_blob_hashes sc"
      by (cases op; cases "case op of OpMap m \<Rightarrow> m | _ \<Rightarrow> MapDelete []") (auto simp: cache_simps)
    with Cons show ?case by auto
  qed simp
  then show "sc_blob_hashes (arrive a sc) = (if n_prio (fst a) = (0, 0) then sc_blob_hashes sc else node_blobs (fst a) \<union> sc_blob_hashes sc)"
    by (simp add: update_state_caches_def node_blobs_def)
qed

lemma blob_cache_replay:
  "sc_blob_hashes (fold arrive as state_caches_default) = (\<Union>n \<in> set (counted (map fst as)). node_blobs n)"
proof -
  have "fold (\<lambda>a B. if n_prio (fst a) = (0, 0) then B else node_blobs (fst a) \<union> B) as B =
      (\<Union>n \<in> set (counted (map fst as)). node_blobs n) \<union> B" for B
    by (induction as arbitrary: B) (auto simp: counted_def)
  then show ?thesis using blob_view.view_fold [of as state_caches_default] by (simp add: state_caches_default_def)
qed

section \<open>The conflict stream\<close>

fun op_label :: "op \<Rightarrow> (string \<times> conflict_op) option" where
  "op_label (OpMap m) = Some (map_op_key m, the (map_op_to_conflict m))"
| "op_label (OpList (ListInsert k i p)) = Some (list_conflict_key k i, CListInsert i)"
| "op_label (OpList (ListMove k i p)) = Some (list_conflict_key k i, CListMove i)"
| "op_label (OpList (ListDelete k i)) = Some (list_conflict_key k i, CListDelete i)"
| "op_label (OpText t) = None"

definition names_op :: "sync_node set \<Rightarrow> string \<Rightarrow> prio \<Rightarrow> conflict_op \<Rightarrow> bool" where
  "names_op N key prio cop \<longleftrightarrow> (\<exists>n \<in> N. n_prio n = prio \<and> (\<exists>op \<in> set (tx_ops (n_tx n)). op_label op = Some (key, cop)))"

text \<open>An event is sound when both operations are in the graph, their authors differ, and, unless a
  delete absorbed a position, the winner has the greater priority.\<close>

definition event_sound :: "sync_node set \<Rightarrow> conflict_event \<Rightarrow> bool" where
  "event_sound N e \<longleftrightarrow>
     names_op N (ce_key e) (ce_winner_lamport e, ce_winner_author e) (ce_winner_op e)
     \<and> names_op N (ce_key e) (ce_loser_lamport e, ce_loser_author e) (ce_loser_op e)
     \<and> ce_winner_author e \<noteq> ce_loser_author e
     \<and> (ce_kind e \<noteq> ListDeleteWon \<longrightarrow>
          (ce_loser_lamport e, ce_loser_author e) < (ce_winner_lamport e, ce_winner_author e))"

definition item_stream_ok :: "sync_node set \<Rightarrow> string \<Rightarrow> item_id \<Rightarrow> list_conflict_state \<Rightarrow> bool" where
  "item_stream_ok N k i st \<longleftrightarrow>
     (\<forall>l a c. lcf_pos_winner st = Some (l, a, c) \<longrightarrow> names_op N (list_conflict_key k i) (l, a) c)
     \<and> (\<forall>p. lcf_delete_winner st = Some p \<longrightarrow> names_op N (list_conflict_key k i) p (CListDelete i))
     \<and> (\<forall>(l, a, c) \<in> set (lcf_pos_ops st). names_op N (list_conflict_key k i) (l, a) c)"

definition stream_ok :: "sync_node set \<Rightarrow> state_caches \<Rightarrow> bool" where
  "stream_ok N sc \<longleftrightarrow>
     (\<forall>e \<in> set (sc_pending_conflicts sc). event_sound N e)
     \<and> length (sc_pending_conflicts sc) \<le> PENDING_CONFLICTS_CAP
     \<and> (\<forall>key w. sc_map_all sc key = Some w \<longrightarrow> names_op N key (mw_prio w) (conflict_op_of w))
     \<and> (\<forall>k i st. sc_list_conflict_state sc (k, i) = Some st \<longrightarrow> item_stream_ok N k i st)"

lemma names_op_mono: "names_op N key prio c \<Longrightarrow> N \<subseteq> M \<Longrightarrow> names_op M key prio c"
  by (auto simp: names_op_def)

lemma stream_ok_mono: "stream_ok N sc \<Longrightarrow> N \<subseteq> M \<Longrightarrow> stream_ok M sc"
  unfolding stream_ok_def item_stream_ok_def event_sound_def
  by (intro conjI allI ballI impI) (blast intro: names_op_mono)+

lemma push_pending_length: "length (push_pending_conflict e es) \<le> PENDING_CONFLICTS_CAP"
  by (simp add: push_pending_conflict_def PENDING_CONFLICTS_CAP_def)

lemma push_pending_set: "set (push_pending_conflict e es) \<subseteq> insert e (set es)"
  by (auto simp: push_pending_conflict_def dest: in_set_dropD)

lemma stream_ok_push:
  "stream_ok N sc \<Longrightarrow> event_sound N e \<Longrightarrow> es = sc_pending_conflicts sc
   \<Longrightarrow> stream_ok N (sc\<lparr>sc_pending_conflicts := push_pending_conflict e es\<rparr>)"
  using push_pending_set push_pending_length by (fastforce simp: stream_ok_def)

lemma stream_ok_push_all:
  assumes "stream_ok N sc" "\<forall>e \<in> set es. event_sound N e"
  shows "stream_ok N (sc\<lparr>sc_pending_conflicts := fold push_pending_conflict es (sc_pending_conflicts sc)\<rparr>)"
  using assms
proof (induction es arbitrary: sc)
  case (Cons e es)
  from Cons.IH [OF stream_ok_push [OF Cons.prems(1) _ refl], of e] Cons.prems(2) show ?case by simp
qed simp

lemma stream_ok_item:
  "stream_ok N sc \<Longrightarrow> item_stream_ok N k i st
   \<Longrightarrow> stream_ok N (sc\<lparr>sc_list_conflict_state := (sc_list_conflict_state sc)((k, i) \<mapsto> st)\<rparr>)"
  by (simp add: stream_ok_def)

lemma conflict_op_of_candidate: "conflict_op_of (map_candidate tx m) = the (map_op_to_conflict m)"
  by (cases m) (simp_all add: conflict_op_of_def of_be_be_bytes)

lemma map_overwrite_sound:
  assumes "names_op N key (mw_prio w) (conflict_op_of w)" "names_op N key (mw_prio l) (conflict_op_of l)"
    "mw_author w \<noteq> mw_author l" "mw_prio l < mw_prio w"
  shows "event_sound N (map_overwrite key w l)"
  using assms by (simp add: event_sound_def map_overwrite_def)

lemma list_event_sound:
  assumes "names_op N (list_conflict_key k i) (fst w, fst (snd w)) (snd (snd w))"
    "names_op N (list_conflict_key k i) (fst l, fst (snd l)) (snd (snd l))"
    "fst (snd w) \<noteq> fst (snd l)" "kind \<noteq> ListDeleteWon \<longrightarrow> (fst l, fst (snd l)) < (fst w, fst (snd w))"
  shows "event_sound N (list_event kind k i w l)"
  using assms by (simp add: event_sound_def list_event_def)

lemma stream_ok_map:
  assumes ok: "stream_ok N sc" and nm: "names_op N (map_op_key m) (tx_lamport tx, tx_author tx) (the (map_op_to_conflict m))"
  shows "stream_ok N (update_map_op tx c m sc)"
proof -
  let ?w = "map_candidate tx m" and ?k = "map_op_key m"
  have new: "names_op N ?k (mw_prio ?w) (conflict_op_of ?w)" using nm by (simp add: conflict_op_of_candidate)
  have cur: "names_op N key (mw_prio w) (conflict_op_of w)" if "sc_map_all sc key = Some w" for key w
    using ok that by (simp add: stream_ok_def)
  let ?sc = "stream_map_conflict ?k ?w (sc\<lparr>sc_blob_hashes := map_op_blobs m \<union> sc_blob_hashes sc\<rparr>)"
  have ev: "event_sound N (if mw_prio v < mw_prio ?w then map_overwrite ?k ?w v else map_overwrite ?k v ?w)"
    if "sc_map_all sc ?k = Some v" "mw_author v \<noteq> mw_author ?w" for v
  proof (cases "mw_prio v < mw_prio ?w")
    case True
    with that cur new show ?thesis by (simp add: map_overwrite_sound)
  next
    case False
    then have "mw_prio ?w < mw_prio v" using that(2) by (metis linorder_neqE prod.inject)
    with that cur new False show ?thesis by (auto intro: map_overwrite_sound)
  qed
  have "stream_ok N (sc\<lparr>sc_blob_hashes := map_op_blobs m \<union> sc_blob_hashes sc\<rparr>)" using ok by (simp add: stream_ok_def)
  then have "stream_ok N ?sc"
    using ev by (auto simp: stream_map_conflict_def Let_def intro!: stream_ok_push split: option.split)
  moreover have "names_op N key (mw_prio w) (conflict_op_of w)" if "lww_update ?k ?w (sc_map_all sc) key = Some w" for key w
    using that cur new by (auto simp: lww_update_def split: option.splits if_splits)
  moreover have "sc_map_all ?sc = sc_map_all sc" by (simp add: frame_simps)
  ultimately show ?thesis by (simp add: update_map_op_def Let_def stream_ok_def)
qed

lemma stream_ok_position:
  assumes ok: "stream_ok N sc" and nm: "names_op N (list_conflict_key k i) prio cop"
  shows "stream_ok N (note_position k i cop prio sc)"
proof -
  let ?new = "(fst prio, snd prio, cop)"
  define st where "st = (case sc_list_conflict_state sc (k, i) of Some s \<Rightarrow> s | None \<Rightarrow> list_conflict_default)"
  have st: "item_stream_ok N k i st"
    using ok by (auto simp: st_def stream_ok_def item_stream_ok_def list_conflict_default_def split: option.split)
  have ev: "event_sound N e" if e: "position_event k i ?new st = Some e" for e
  proof (cases "lcf_delete_winner st")
    case (Some d)
    with st have "names_op N (list_conflict_key k i) d (CListDelete i)" by (simp add: item_stream_ok_def)
    with e Some nm show ?thesis
      by (cases d) (auto simp: position_event_def intro!: list_event_sound split: if_splits)
  next
    case None
    with e obtain wl wa wop where w: "lcf_pos_winner st = Some (wl, wa, wop)" "wa \<noteq> snd prio"
      by (auto simp: position_event_def split: option.splits if_splits)
    with st have "names_op N (list_conflict_key k i) (wl, wa) wop" by (simp add: item_stream_ok_def)
    moreover have "(wl, wa) < prio \<or> prio < (wl, wa)" using w(2) by (metis linorder_neqE prod.sel(2))
    ultimately show ?thesis
      using e None w nm by (auto simp: position_event_def intro!: list_event_sound split: if_splits)
  qed
  have "item_stream_ok N k i (st\<lparr>lcf_pos_ops := lcf_pos_ops st @ [?new], lcf_pos_winner := x\<rparr>)"
    "item_stream_ok N k i (st\<lparr>lcf_pos_winner := x\<rparr>)"
    if "x = Some ?new \<or> x = lcf_pos_winner st" for x
    using st nm that by (auto simp: item_stream_ok_def)
  note items = this [of "Some ?new"] this [of "lcf_pos_winner st"]
  let ?st1 = "if length (lcf_pos_ops st) < LIST_CONFLICT_POS_OPS_CAP then st\<lparr>lcf_pos_ops := lcf_pos_ops st @ [?new]\<rparr> else st"
  have "item_stream_ok N k i (if beats_pos prio (lcf_pos_winner ?st1) then ?st1\<lparr>lcf_pos_winner := Some ?new\<rparr> else ?st1)"
    using items by auto
  from stream_ok_item [OF ok this] show ?thesis
    unfolding note_position_def st_def [symmetric] Let_def
    using ev by (cases "position_event k i ?new st") (auto intro!: stream_ok_push)
qed

lemma stream_ok_delete:
  assumes ok: "stream_ok N sc" and nm: "names_op N (list_conflict_key k i) prio (CListDelete i)"
  shows "stream_ok N (note_delete k i prio sc)"
proof -
  define st where "st = (case sc_list_conflict_state sc (k, i) of Some s \<Rightarrow> s | None \<Rightarrow> list_conflict_default)"
  have st: "item_stream_ok N k i st"
    using ok by (auto simp: st_def stream_ok_def item_stream_ok_def list_conflict_default_def split: option.split)
  have ev: "\<forall>e \<in> set (delete_events k i prio st). event_sound N e"
  proof
    fix e assume "e \<in> set (delete_events k i prio st)"
    then obtain pl pa pop where "(pl, pa, pop) \<in> set (lcf_pos_ops st)" "pa \<noteq> snd prio"
      "e = list_event ListDeleteWon k i (fst prio, snd prio, CListDelete i) (pl, pa, pop)"
      by (auto simp: delete_events_def set_mapfilter split: if_splits)
    with st nm show "event_sound N e" by (auto simp: item_stream_ok_def intro!: list_event_sound)
  qed
  have "item_stream_ok N k i (if beats_delete prio (lcf_delete_winner st) then st\<lparr>lcf_delete_winner := Some prio\<rparr> else st)"
    using st nm by (auto simp: item_stream_ok_def)
  from stream_ok_push_all [OF stream_ok_item [OF ok this] ev] show ?thesis
    unfolding note_delete_def st_def [symmetric] Let_def by simp
qed

lemma stream_ok_op:
  assumes "stream_ok N sc" "n \<in> N" "op \<in> set (tx_ops (n_tx n))"
  shows "stream_ok N (update_cache_op (n_tx n) c op sc)"
proof -
  have nm: "names_op N key (n_prio n) cop" if "op_label op = Some (key, cop)" for key cop
    using assms(2,3) that by (auto simp: names_op_def)
  have lists: "stream_ok N (s\<lparr>sc_lists := x\<rparr>) = stream_ok N s" for s x by (simp add: stream_ok_def)
  show ?thesis
  proof (cases op rule: op_label.cases)
    case (1 m)
    with assms nm show ?thesis by (simp add: update_cache_op_def stream_ok_map)
  next
    case (2 k i p)
    with assms nm show ?thesis by (simp add: update_cache_op_def lists Let_def stream_ok_position)
  next
    case (3 k i p)
    with assms nm show ?thesis by (simp add: update_cache_op_def lists Let_def stream_ok_position)
  next
    case (4 k i)
    with assms nm show ?thesis by (simp add: update_cache_op_def lists Let_def stream_ok_delete)
  qed (use assms in \<open>simp add: update_cache_op_def\<close>)
qed

lemma stream_ok_arrive:
  assumes "stream_ok N sc"
  shows "stream_ok (insert n N) (update_state_caches n c sc)"
proof -
  have "stream_ok (insert n N) sc" using assms by (rule stream_ok_mono) blast
  then have "stream_ok (insert n N) (fold (update_cache_op (n_tx n) c) (tx_ops (n_tx n)) sc)"
    by (rule fold_inv) (simp add: stream_ok_op)
  with \<open>stream_ok (insert n N) sc\<close> show ?thesis by (simp add: update_state_caches_def)
qed

lemma stream_ok_default: "stream_ok N state_caches_default"
  by (simp add: stream_ok_def state_caches_default_def)

end
