(* ===== verification/Policy.thy ===== *)
theory Policy
  imports Op_Node
begin

text \<open>
  Scoped write policies (\<open>core/crdt/src/policy.rs\<close>): ordered rules with a glob over the key path,
  first match wins, and the fallback. The glob matcher is translated loop by loop and
  proved equal to a declarative reading of patterns.
\<close>

section \<open>The matcher\<close>

datatype policy_default = AllowAll | DenyAll

record policy_rule =
  pr_path_glob :: string
  pr_can_write :: "pubkey list"
  pr_can_read :: "pubkey list"
  pr_can_derive :: "pubkey list"

record policy =
  p_rules :: "policy_rule list"
  p_default :: policy_default

definition default_policy :: policy where
  "default_policy = \<lparr>p_rules = [], p_default = AllowAll\<rparr>"

definition skip_sep :: "string \<Rightarrow> string" where
  "skip_sep pat = (case pat of c # rest \<Rightarrow> if c = CHR ''/'' then rest else pat | [] \<Rightarrow> [])"

lemma length_skip_sep: "length (skip_sep p) \<le> length p"
  by (auto simp: skip_sep_def split: list.splits)

lemma length_skip_sep_less [termination_simp]: "length (skip_sep p) < Suc (Suc (length p))"
  using length_skip_sep [of p] by simp

function (sequential) glob_matches_inner :: "string \<Rightarrow> string \<Rightarrow> bool"
  and glob_any :: "string \<Rightarrow> string \<Rightarrow> bool"
  and glob_segment :: "string \<Rightarrow> string \<Rightarrow> bool"
where
  "glob_matches_inner pat txt =
     (case pat of
        [] \<Rightarrow> txt = []
      | c # rest \<Rightarrow>
          if c = CHR ''*'' then
            (case rest of
               c2 # rest2 \<Rightarrow> if c2 = CHR ''*'' then glob_any (skip_sep rest2) txt else glob_segment rest txt
             | [] \<Rightarrow> glob_segment rest txt)
          else (case txt of t # ts \<Rightarrow> if t = c then glob_matches_inner rest ts else False | [] \<Rightarrow> False))"
| "glob_any pat txt =
     (if glob_matches_inner pat txt then True
      else case txt of [] \<Rightarrow> False | _ # ts \<Rightarrow> glob_any pat ts)"
| "glob_segment pat txt =
     (if glob_matches_inner pat txt then True
      else case txt of [] \<Rightarrow> False | t # ts \<Rightarrow> if t = CHR ''/'' then False else glob_segment pat ts)"
  by pat_completeness auto
termination
  by (relation "measures [case_sum (\<lambda>(p, t). length p) (case_sum (\<lambda>(p, t). length p) (\<lambda>(p, t). length p)),
        case_sum (\<lambda>(p, t). length t) (case_sum (\<lambda>(p, t). length t) (\<lambda>(p, t). length t)),
        case_sum (\<lambda>_. 0) (case_sum (\<lambda>_. 1) (\<lambda>_. 1))]")
    (auto intro: le_less_trans [OF length_skip_sep])

declare glob_matches_inner.simps [simp del] glob_any.simps [simp del] glob_segment.simps [simp del]

lemma glob_inner_simps [glob_simps]:
  "glob_matches_inner [] tx \<longleftrightarrow> tx = []"
  "c \<noteq> CHR ''*'' \<Longrightarrow> glob_matches_inner (c # pat) (t # ts) \<longleftrightarrow> t = c \<and> glob_matches_inner pat ts"
  "c \<noteq> CHR ''*'' \<Longrightarrow> \<not> glob_matches_inner (c # pat) []"
  "glob_matches_inner (CHR ''*'' # CHR ''*'' # pat) tx \<longleftrightarrow> glob_any (skip_sep pat) tx"
  "glob_matches_inner [CHR ''*''] tx \<longleftrightarrow> glob_segment [] tx"
  "c \<noteq> CHR ''*'' \<Longrightarrow> glob_matches_inner (CHR ''*'' # c # pat) tx \<longleftrightarrow> glob_segment (c # pat) tx"
  by (simp_all add: glob_matches_inner.simps [of "_ # _"] glob_matches_inner.simps [of "[]"])

lemma glob_loop_simps [glob_simps]:
  "glob_any pat [] \<longleftrightarrow> glob_matches_inner pat []"
  "glob_any pat (t # ts) \<longleftrightarrow> glob_matches_inner pat (t # ts) \<or> glob_any pat ts"
  "glob_segment pat [] \<longleftrightarrow> glob_matches_inner pat []"
  "glob_segment pat (t # ts) \<longleftrightarrow>
     glob_matches_inner pat (t # ts) \<or> t \<noteq> CHR ''/'' \<and> glob_segment pat ts"
  by (simp_all add: glob_any.simps [of pat "_ # _"] glob_any.simps [of pat "[]"]
      glob_segment.simps [of pat "_ # _"] glob_segment.simps [of pat "[]"])

definition glob_matches :: "string \<Rightarrow> string \<Rightarrow> bool" where
  "glob_matches pattern txt = glob_matches_inner pattern txt"

fun first_match :: "policy_rule list \<Rightarrow> policy_default \<Rightarrow> string \<Rightarrow> pubkey \<Rightarrow> bool" where
  "first_match [] dflt key author = (dflt = AllowAll)"
| "first_match (r # rs) dflt key author =
     (if glob_matches (pr_path_glob r) key then author \<in> set (pr_can_write r)
      else first_match rs dflt key author)"

definition can_write :: "policy \<Rightarrow> string \<Rightarrow> pubkey \<Rightarrow> bool" where
  "can_write p key author = first_match (p_rules p) (p_default p) key author"

section \<open>What a pattern means\<close>

datatype glob_token = Lit char | Star | StarStar

fun parse_glob :: "string \<Rightarrow> glob_token list" where
  "parse_glob [] = []"
| "parse_glob (c # c2 # rest) =
     (if c = CHR ''*'' then
        (if c2 = CHR ''*'' then StarStar # parse_glob (skip_sep rest) else Star # parse_glob (c2 # rest))
      else Lit c # parse_glob (c2 # rest))"
| "parse_glob [c] = (if c = CHR ''*'' then [Star] else [Lit c])"

inductive glob_lang :: "glob_token list \<Rightarrow> string \<Rightarrow> bool" where
  gl_nil: "glob_lang [] []"
| gl_lit: "glob_lang ts s \<Longrightarrow> glob_lang (Lit c # ts) (c # s)"
| gl_star: "glob_lang ts s \<Longrightarrow> CHR ''/'' \<notin> set u \<Longrightarrow> glob_lang (Star # ts) (u @ s)"
| gl_star2: "glob_lang ts s \<Longrightarrow> glob_lang (StarStar # ts) (u @ s)"

inductive_simps glob_lang_Nil [glob_simps]: "glob_lang [] s"
inductive_simps glob_lang_Lit [glob_simps]: "glob_lang (Lit c # ts) s"
inductive_simps glob_lang_Star: "glob_lang (Star # ts) s"
inductive_simps glob_lang_StarStar: "glob_lang (StarStar # ts) s"

lemma glob_lang_StarStar_step:
  "glob_lang (StarStar # ts) s \<longleftrightarrow> glob_lang ts s \<or> (\<exists>c s'. s = c # s' \<and> glob_lang (StarStar # ts) s')"
proof
  assume "glob_lang (StarStar # ts) s"
  then obtain u s' where "s = u @ s'" "glob_lang ts s'"
    by (auto simp: glob_lang_StarStar)
  then show "glob_lang ts s \<or> (\<exists>c s'. s = c # s' \<and> glob_lang (StarStar # ts) s')"
    by (cases u) (auto intro: glob_lang.gl_star2)
next
  assume "glob_lang ts s \<or> (\<exists>c s'. s = c # s' \<and> glob_lang (StarStar # ts) s')"
  then show "glob_lang (StarStar # ts) s"
  proof (elim disjE exE conjE)
    assume "glob_lang ts s"
    then show ?thesis using glob_lang.gl_star2 [of ts s "[]"] by simp
  next
    fix c s'
    assume c: "s = c # s'" "glob_lang (StarStar # ts) s'"
    then obtain u t where "s' = u @ t" "glob_lang ts t"
      by (auto simp: glob_lang_StarStar)
    with c glob_lang.gl_star2 [of ts t "c # u"] show ?thesis by simp
  qed
qed

lemma glob_lang_Star_step:
  "glob_lang (Star # ts) s \<longleftrightarrow> glob_lang ts s
     \<or> (\<exists>c s'. s = c # s' \<and> c \<noteq> CHR ''/'' \<and> glob_lang (Star # ts) s')"
proof
  assume "glob_lang (Star # ts) s"
  then obtain u s' where u: "s = u @ s'" "glob_lang ts s'" "CHR ''/'' \<notin> set u"
    by (auto simp: glob_lang_Star)
  then show "glob_lang ts s \<or> (\<exists>c s'. s = c # s' \<and> c \<noteq> CHR ''/'' \<and> glob_lang (Star # ts) s')"
    by (cases u) (auto intro: glob_lang.gl_star)
next
  assume "glob_lang ts s \<or> (\<exists>c s'. s = c # s' \<and> c \<noteq> CHR ''/'' \<and> glob_lang (Star # ts) s')"
  then show "glob_lang (Star # ts) s"
  proof (elim disjE exE conjE)
    assume "glob_lang ts s"
    then show ?thesis using glob_lang.gl_star [of ts s "[]"] by simp
  next
    fix c s'
    assume c: "s = c # s'" "c \<noteq> CHR ''/''" "glob_lang (Star # ts) s'"
    then obtain u t where "s' = u @ t" "glob_lang ts t" "CHR ''/'' \<notin> set u"
      by (auto simp: glob_lang_Star)
    with c glob_lang.gl_star [of ts t "c # u"] show ?thesis by simp
  qed
qed

lemma glob_any_lang:
  assumes "\<And>s. glob_matches_inner pat s \<longleftrightarrow> glob_lang ts s"
  shows "glob_any pat tx \<longleftrightarrow> glob_lang (StarStar # ts) tx"
proof (induction tx)
  case Nil
  show ?case by (subst glob_lang_StarStar_step) (simp add: glob_loop_simps assms)
next
  case (Cons t tx)
  then show ?case by (subst glob_lang_StarStar_step) (simp add: glob_loop_simps assms)
qed

lemma glob_segment_lang:
  assumes "\<And>s. glob_matches_inner pat s \<longleftrightarrow> glob_lang ts s"
  shows "glob_segment pat tx \<longleftrightarrow> glob_lang (Star # ts) tx"
proof (induction tx)
  case Nil
  show ?case by (subst glob_lang_Star_step) (simp add: glob_loop_simps assms)
next
  case (Cons t tx)
  then show ?case by (subst glob_lang_Star_step) (simp add: glob_loop_simps assms)
qed

lemma glob_literal_lang:
  assumes "c \<noteq> CHR ''*''" "\<And>s. glob_matches_inner pat s \<longleftrightarrow> glob_lang ts s"
  shows "glob_matches_inner (c # pat) tx \<longleftrightarrow> glob_lang (Lit c # ts) tx"
  using assms by (cases tx) (auto simp: glob_inner_simps glob_lang_Lit)

lemma glob_matches_inner_lang: "glob_matches_inner pat tx \<longleftrightarrow> glob_lang (parse_glob pat) tx"
proof (induction pat arbitrary: tx rule: parse_glob.induct)
  case 1
  show ?case by (simp add: glob_inner_simps glob_lang_Nil)
next
  case (2 c c2 rest)
  show ?case
  proof (cases "c = CHR ''*''")
    case False
    with 2 show ?thesis by (simp add: glob_literal_lang)
  next
    case True
    with 2 show ?thesis
      by (cases "c2 = CHR ''*''") (simp_all add: glob_inner_simps glob_any_lang glob_segment_lang)
  qed
next
  case (3 c)
  have nil: "glob_matches_inner [] s \<longleftrightarrow> glob_lang [] s" for s
    by (simp add: glob_inner_simps glob_lang_Nil)
  show ?case
    by (cases "c = CHR ''*''")
      (simp_all add: glob_inner_simps glob_segment_lang [OF nil] glob_literal_lang [OF _ nil])
qed

lemma first_match_skip:
  "(\<And>r. r \<in> set rs \<Longrightarrow> \<not> glob_matches (pr_path_glob r) key)
   \<Longrightarrow> first_match (rs @ qs) dflt key author = first_match qs dflt key author"
  by (induction rs) auto

lemma first_match_cases:
  "(\<exists>rs r qs. rules = rs @ r # qs \<and> glob_matches (pr_path_glob r) key
      \<and> (\<forall>q \<in> set rs. \<not> glob_matches (pr_path_glob q) key))
   \<or> (\<forall>q \<in> set rules. \<not> glob_matches (pr_path_glob q) key)"
  using split_list_first_prop [of rules "\<lambda>r. glob_matches (pr_path_glob r) key"] by blast

lemma can_write_default_policy [simp]: "can_write default_policy key author"
  by (simp add: can_write_def default_policy_def)

section \<open>Properties\<close>


text \<open>An author may write a key exactly when the first rule whose pattern's language contains the
  key lists the author, or no rule's pattern does and the default is to allow.\<close>

theorem can_write_first_match:
  "can_write p key author \<longleftrightarrow>
     (\<exists>rs r qs. p_rules p = rs @ r # qs \<and> glob_lang (parse_glob (pr_path_glob r)) key
        \<and> (\<forall>q \<in> set rs. \<not> glob_lang (parse_glob (pr_path_glob q)) key) \<and> author \<in> set (pr_can_write r))
     \<or> (\<forall>q \<in> set (p_rules p). \<not> glob_lang (parse_glob (pr_path_glob q)) key) \<and> p_default p = AllowAll"
  (is "_ \<longleftrightarrow> ?hit \<or> ?miss")
proof -
  let ?G = "\<lambda>r. glob_lang (parse_glob (pr_path_glob r)) key"
  have G: "glob_matches (pr_path_glob r) key \<longleftrightarrow> ?G r" for r
    by (simp add: glob_matches_def glob_matches_inner_lang)
  have none: "first_match rs d key author \<longleftrightarrow> d = AllowAll" if "\<forall>q \<in> set rs. \<not> ?G q" for rs d
    using first_match_skip [of rs key "[]"] that by (simp add: G)
  have hit: "first_match (rs @ r # qs) d key author \<longleftrightarrow> author \<in> set (pr_can_write r)"
    if "\<forall>q \<in> set rs. \<not> ?G q" "?G r" for rs r qs d
    using first_match_skip [of rs key "r # qs"] that by (simp add: G)
  consider (found) rs r qs where "p_rules p = rs @ r # qs" "?G r" "\<forall>q \<in> set rs. \<not> ?G q"
    | (absent) "\<forall>q \<in> set (p_rules p). \<not> ?G q"
    using first_match_cases [of "p_rules p" key] unfolding G by blast
  then show ?thesis
  proof cases
    case found
    have "author \<in> set (pr_can_write r)" if ?hit
    proof -
      from that obtain rs' r' qs' where h: "p_rules p = rs' @ r' # qs'" "?G r'" "\<forall>q \<in> set rs'. \<not> ?G q"
        "author \<in> set (pr_can_write r')" by blast
      then show ?thesis using found hit [of rs r qs] hit [of rs' r' qs'] by metis
    qed
    moreover have "\<not> ?miss" using found by simp
    ultimately show ?thesis using found hit by (auto simp: can_write_def)
  next
    case absent
    then have "\<not> ?hit" by auto
    moreover have "can_write p key author \<longleftrightarrow> p_default p = AllowAll" using none [OF absent] by (simp add: can_write_def)
    ultimately show ?thesis using absent by blast
  qed
qed

text \<open>A room in which only author 1 writes below \<open>world/\<close>, and authors 1 and 2 elsewhere.\<close>

definition sample_policy :: policy where
  "sample_policy = \<lparr>p_rules =
     [\<lparr>pr_path_glob = ''w/**'', pr_can_write = [1], pr_can_read = [], pr_can_derive = []\<rparr>,
      \<lparr>pr_path_glob = ''**'', pr_can_write = [1, 2], pr_can_read = [], pr_can_derive = []\<rparr>],
     p_default = DenyAll\<rparr>"

theorem can_write_first_match_witness:
  "\<exists>rs r qs. p_rules sample_policy = rs @ r # qs \<and> glob_lang (parse_glob (pr_path_glob r)) ''i/m''
     \<and> (\<forall>q \<in> set rs. \<not> glob_lang (parse_glob (pr_path_glob q)) ''i/m'') \<and> 2 \<in> set (pr_can_write r)"
proof -
  have "can_write sample_policy ''i/m'' 2"
    by (simp add: can_write_def sample_policy_def glob_matches_def glob_simps skip_sep_def)
  then show ?thesis
    unfolding can_write_first_match by (simp add: sample_policy_def)
qed

end
