(* ===== verification/Storage.thy ===== *)
theory Storage
  imports Op_Node "HOL-Library.AList"
begin

text \<open>
  Storage backends (\<open>core/crdt/src/storage.rs\<close>). The traits \<open>NodeStore\<close> and \<open>BlobStore\<close> are the
  locales \<open>node_store\<close> and \<open>blob_store\<close>; their in-memory implementations are the definitions
  below and interpret them. A \<open>HashMap\<close> that is iterated is an association list.
\<close>

section \<open>In-memory node store\<close>

record memory_node_store =
  mns_data :: "(node_id \<times> sync_node) list"

definition mns_new :: memory_node_store where
  "mns_new = \<lparr>mns_data = []\<rparr>"

definition mns_put :: "sync_node \<Rightarrow> memory_node_store \<Rightarrow> memory_node_store res" where
  "mns_put node s = Inr (s\<lparr>mns_data := AList.update (n_id node) node (mns_data s)\<rparr>)"

definition mns_get :: "memory_node_store \<Rightarrow> node_id \<Rightarrow> sync_node option" where
  "mns_get s = map_of (mns_data s)"

definition mns_all_ids :: "memory_node_store \<Rightarrow> node_id list" where
  "mns_all_ids s = map fst (mns_data s)"

definition mns_contains :: "memory_node_store \<Rightarrow> node_id \<Rightarrow> bool" where
  "mns_contains s i \<longleftrightarrow> i \<in> set (map fst (mns_data s))"

definition mns_len :: "memory_node_store \<Rightarrow> nat" where
  "mns_len s = length (mns_data s)"

definition mns_ok :: "memory_node_store \<Rightarrow> bool" where
  "mns_ok s \<longleftrightarrow> distinct (map fst (mns_data s)) \<and> (\<forall>(i, n) \<in> set (mns_data s). n_id n = i)"

section \<open>In-memory blob store\<close>

record memory_blob_store =
  mbs_data :: "(hash \<times> bytes) list"

definition mbs_new :: memory_blob_store where
  "mbs_new = \<lparr>mbs_data = []\<rparr>"

definition mbs_hashes :: "memory_blob_store \<Rightarrow> hash list" where
  "mbs_hashes s = map fst (mbs_data s)"

definition mbs_contains :: "memory_blob_store \<Rightarrow> hash \<Rightarrow> bool" where
  "mbs_contains s h \<longleftrightarrow> h \<in> set (map fst (mbs_data s))"

definition mbs_missing_from :: "memory_blob_store \<Rightarrow> hash list \<Rightarrow> hash list" where
  "mbs_missing_from s remote = filter (\<lambda>h. \<not> mbs_contains s h) remote"

definition mbs_put :: "env \<Rightarrow> bytes \<Rightarrow> memory_blob_store \<Rightarrow> hash \<times> memory_blob_store" where
  "mbs_put env data s =
     (let h = blake3 env data in
      (h, if mbs_contains s h then s else s\<lparr>mbs_data := AList.update h data (mbs_data s)\<rparr>))"

definition mbs_get :: "memory_blob_store \<Rightarrow> hash \<Rightarrow> bytes option" where
  "mbs_get s h = map_of (mbs_data s) h"

definition mbs_size :: "memory_blob_store \<Rightarrow> hash \<Rightarrow> u64 option" where
  "mbs_size s h = map_option (\<lambda>v. word_of_nat (length v)) (mbs_get s h)"

definition mbs_get_range :: "memory_blob_store \<Rightarrow> hash \<Rightarrow> u64 \<Rightarrow> u64 \<Rightarrow> bytes option rust" where
  "mbs_get_range s h range_start range_end =
     (case mbs_get s h of
        None \<Rightarrow> Ret None
      | Some data \<Rightarrow>
          let st = unat range_start; en = min (unat range_end) (length data) in
          if length data \<le> st then Ret None
          else if en < st then Panic
          else Ret (Some (take (en - st) (drop st data))))"

definition mbs_ok :: "env \<Rightarrow> memory_blob_store \<Rightarrow> bool" where
  "mbs_ok env s \<longleftrightarrow> distinct (map fst (mbs_data s)) \<and> (\<forall>(h, d) \<in> set (mbs_data s). blake3 env d = h)"

section \<open>The contract of a node store\<close>

locale node_store =
  fixes ok :: "'s \<Rightarrow> bool"
    and put :: "sync_node \<Rightarrow> 's \<Rightarrow> 's res"
    and get :: "'s \<Rightarrow> node_id \<Rightarrow> sync_node option"
    and all_ids :: "'s \<Rightarrow> node_id list"
    and has :: "'s \<Rightarrow> node_id \<Rightarrow> bool"
    and len :: "'s \<Rightarrow> nat"
  assumes put_ok: "ok s \<Longrightarrow> put n s = Inr s' \<Longrightarrow> ok s'"
    and get_put: "ok s \<Longrightarrow> put n s = Inr s' \<Longrightarrow> get s' i = (if i = n_id n then Some n else get s i)"
    and get_id: "ok s \<Longrightarrow> get s i = Some n \<Longrightarrow> n_id n = i"
    and has_get: "ok s \<Longrightarrow> has s i \<longleftrightarrow> get s i \<noteq> None"
    and set_all_ids: "ok s \<Longrightarrow> set (all_ids s) = dom (get s)"
    and distinct_all_ids: "ok s \<Longrightarrow> distinct (all_ids s)"
    and len_all_ids: "ok s \<Longrightarrow> len s = length (all_ids s)"
begin

text \<open>The node list that every reader of the store builds: \<open>all_ids\<close> mapped through \<open>get\<close>.\<close>

lemma set_snapshot:
  assumes "ok s"
  shows "set (List.map_filter (get s) (all_ids s)) = ran (get s)"
proof -
  have "n \<in> set (List.map_filter (get s) (all_ids s)) \<longleftrightarrow> n \<in> ran (get s)" for n
    using set_all_ids [OF assms] by (auto simp: set_mapfilter ran_def)
  then show ?thesis by blast
qed

lemma map_id_snapshot:
  assumes "ok s"
  shows "map n_id (List.map_filter (get s) (all_ids s)) = all_ids s"
proof -
  have "map n_id (List.map_filter (get s) is) = is" if "set is \<subseteq> dom (get s)" for "is"
    using that by (induction "is") (auto simp: List.map_filter_simps get_id [OF assms])
  then show ?thesis using set_all_ids [OF assms] by simp
qed

lemma distinct_snapshot: "ok s \<Longrightarrow> distinct (List.map_filter (get s) (all_ids s))"
  using distinct_all_ids map_id_snapshot by (metis distinct_map)

lemma snapshot_put:
  assumes "ok s" "put n s = Inr s'" "\<not> has s (n_id n)"
  shows "set (List.map_filter (get s') (all_ids s')) = insert n (set (List.map_filter (get s) (all_ids s)))"
proof -
  have "get s (n_id n) = None" using assms by (simp add: has_get)
  then have "ran (get s') = insert n (ran (get s))"
    using get_put [OF assms(1,2)] by (force simp: ran_def split: if_splits)
  then show ?thesis using assms put_ok by (simp add: set_snapshot)
qed

lemma has_put: "ok s \<Longrightarrow> put n s = Inr s' \<Longrightarrow> has s' i \<longleftrightarrow> i = n_id n \<or> has s i"
  using put_ok get_put has_get by auto

lemma len_put:
  assumes "ok s" "put n s = Inr s'" "\<not> has s (n_id n)"
  shows "len s' = Suc (len s)"
proof -
  have "get s (n_id n) = None" using assms by (simp add: has_get)
  then have "n_id n \<notin> set (all_ids s)" using set_all_ids [OF assms(1)] by auto
  moreover have "set (all_ids s') = insert (n_id n) (set (all_ids s))"
    using get_put [OF assms(1,2)] set_all_ids put_ok assms by (auto split: if_splits)
  ultimately have "card (set (all_ids s')) = Suc (card (set (all_ids s)))" by simp
  then show ?thesis
    using assms put_ok by (simp add: len_all_ids distinct_all_ids distinct_card)
qed

end

interpretation memory_nodes: node_store mns_ok mns_put mns_get mns_all_ids mns_contains mns_len
proof
  fix s s' :: memory_node_store and n and i
  assume ok: "mns_ok s"
  then have d: "distinct (map fst (mns_data s))" and ids: "\<forall>(i, n) \<in> set (mns_data s). n_id n = i"
    by (auto simp: mns_ok_def)
  show "mns_get s i = Some n \<Longrightarrow> n_id n = i"
    using ids map_of_SomeD by (fastforce simp: mns_get_def)
  show "mns_contains s i \<longleftrightarrow> mns_get s i \<noteq> None"
    by (simp add: mns_contains_def mns_get_def map_of_eq_None_iff)
  show "set (mns_all_ids s) = dom (mns_get s)"
    by (simp add: mns_all_ids_def mns_get_def dom_map_of_conv_image_fst)
  show "distinct (mns_all_ids s)" "mns_len s = length (mns_all_ids s)"
    using d by (simp_all add: mns_all_ids_def mns_len_def)
  assume "mns_put n s = Inr s'"
  then have s': "s' = s\<lparr>mns_data := AList.update (n_id n) n (mns_data s)\<rparr>"
    by (simp add: mns_put_def)
  show "mns_get s' i = (if i = n_id n then Some n else mns_get s i)"
    by (simp add: s' mns_get_def update_conv')
  show "mns_ok s'"
    using d ids by (auto simp: s' mns_ok_def distinct_update set_alist_update split: if_splits)
qed

section \<open>The contract of a blob store\<close>

locale blob_store =
  fixes digest :: "bytes \<Rightarrow> hash"
    and ok :: "'s \<Rightarrow> bool"
    and put :: "bytes \<Rightarrow> 's \<Rightarrow> hash \<times> 's"
    and get :: "'s \<Rightarrow> hash \<Rightarrow> bytes option"
    and has :: "'s \<Rightarrow> hash \<Rightarrow> bool"
    and bsize :: "'s \<Rightarrow> hash \<Rightarrow> u64 option"
  assumes put_hash: "fst (put d s) = digest d"
    and put_ok: "ok s \<Longrightarrow> ok (snd (put d s))"
    and get_put_other: "ok s \<Longrightarrow> h \<noteq> digest d \<Longrightarrow> get (snd (put d s)) h = get s h"
    and get_put_new: "ok s \<Longrightarrow> get s (digest d) = None \<Longrightarrow> get (snd (put d s)) (digest d) = Some d"
    and get_put_old: "ok s \<Longrightarrow> get s (digest d) = Some e \<Longrightarrow> get (snd (put d s)) (digest d) = Some e"
    and get_digest: "ok s \<Longrightarrow> get s h = Some d \<Longrightarrow> digest d = h"
    and has_get: "ok s \<Longrightarrow> has s h \<longleftrightarrow> get s h \<noteq> None"
    and size_get: "bsize s h = map_option (\<lambda>v. word_of_nat (length v)) (get s h)"
begin

text \<open>What a reader gets back always hashes to the name it asked for, and, where the digest
  does not collide on the bytes involved, is what was stored.\<close>

lemma get_after_put:
  assumes "ok s"
  shows "\<exists>e. get (snd (put d s)) (fst (put d s)) = Some e \<and> digest e = digest d"
proof (cases "get s (digest d)")
  case None
  then show ?thesis using assms by (simp add: put_hash get_put_new)
next
  case (Some e)
  then show ?thesis using assms by (simp add: put_hash get_put_old get_digest)
qed

lemma put_stable: "ok s \<Longrightarrow> get s h = Some e \<Longrightarrow> get (snd (put d s)) h = Some e"
  using get_put_other get_put_old by (cases "h = digest d") auto

lemma puts_stable: "ok s \<Longrightarrow> get s h = Some e \<Longrightarrow>
    ok (fold (\<lambda>d s. snd (put d s)) ds s) \<and> get (fold (\<lambda>d s. snd (put d s)) ds s) h = Some e"
  by (induction ds arbitrary: s) (auto simp: put_ok put_stable)

lemma put_get_exact:
  assumes "ok s" "\<And>e. digest e = digest d \<Longrightarrow> e = d"
  shows "get (snd (put d s)) (fst (put d s)) = Some d"
  using get_after_put [OF assms(1), of d] assms(2) by auto

end

lemma mbs_get_put:
  assumes "mbs_ok env s"
  shows "mbs_get (snd (mbs_put env d s)) h =
     (if h = blake3 env d \<and> mbs_get s h = None then Some d else mbs_get s h)"
  by (auto simp: mbs_put_def mbs_get_def mbs_contains_def Let_def update_conv' map_of_eq_None_iff)

interpretation memory_blobs: blob_store "blake3 env" "mbs_ok env" "mbs_put env" mbs_get mbs_contains mbs_size
  for env
proof
  fix s h d
  show "fst (mbs_put env d s) = blake3 env d"
    by (simp add: mbs_put_def Let_def)
  show "mbs_size s h = map_option (\<lambda>v. word_of_nat (length v)) (mbs_get s h)"
    by (simp add: mbs_size_def)
  assume ok: "mbs_ok env s"
  show "mbs_ok env (snd (mbs_put env d s))"
    using ok by (auto simp: mbs_put_def mbs_ok_def Let_def distinct_update set_alist_update split: if_splits)
  show "mbs_get s h = Some d \<Longrightarrow> blake3 env d = h"
    using ok map_of_SomeD by (fastforce simp: mbs_ok_def mbs_get_def)
  show "mbs_contains s h \<longleftrightarrow> mbs_get s h \<noteq> None"
    by (simp add: mbs_contains_def mbs_get_def map_of_eq_None_iff)
qed (simp_all add: mbs_get_put)

lemma mbs_get_range_ok:
  assumes "mbs_get s h = Some data" "unat a < length data" "unat a \<le> unat b"
  shows "mbs_get_range s h a b = Ret (Some (take (unat b - unat a) (drop (unat a) data)))"
  using assms by (simp add: mbs_get_range_def Let_def min_def)

section \<open>Properties\<close>

text \<open>A blob that was put stays readable under the hash that \<open>put\<close> returned, whatever is put
  later: what is read hashes to that name, and is the blob itself when the hash does not collide on it.\<close>

theorem blob_put_readable:
  fixes data :: bytes and later :: "bytes list"
  assumes "mbs_ok env s"
  defines "s' \<equiv> fold (\<lambda>d s. snd (mbs_put env d s)) later (snd (mbs_put env data s))"
  shows "mbs_ok env s' \<and> (\<exists>e. mbs_get s' (fst (mbs_put env data s)) = Some e \<and> blake3 env e = blake3 env data)
     \<and> ((\<forall>e. blake3 env e = blake3 env data \<longrightarrow> e = data) \<longrightarrow> mbs_get s' (fst (mbs_put env data s)) = Some data)"
proof -
  have ok: "mbs_ok env (snd (mbs_put env data s))" by (rule memory_blobs.put_ok [OF assms(1)])
  obtain e where e: "mbs_get (snd (mbs_put env data s)) (fst (mbs_put env data s)) = Some e" "blake3 env e = blake3 env data"
    using memory_blobs.get_after_put [OF assms(1)] by blast
  then have "mbs_ok env s' \<and> mbs_get s' (fst (mbs_put env data s)) = Some e"
    unfolding s'_def using memory_blobs.puts_stable [OF ok] by blast
  with e show ?thesis by blast
qed

theorem blob_put_readable_witness:
  "\<exists>e. mbs_get (fold (\<lambda>d s. snd (mbs_put sample_env d s)) [[1, 2], []] (snd (mbs_put sample_env [9] mbs_new)))
     (fst (mbs_put sample_env [9] mbs_new)) = Some e \<and> blake3 sample_env e = blake3 sample_env [9]"
proof -
  have "mbs_ok sample_env mbs_new" by (simp add: mbs_ok_def mbs_new_def)
  from blob_put_readable [OF this, of "[[1, 2], []]" "[9]"] show ?thesis by blast
qed

end
