(* ===== verification/Frontier.thy ===== *)
theory Frontier
  imports Op_Node
begin

text \<open>
  The frontier (\<open>core/crdt/src/frontier.rs\<close>): the sorted list of DAG heads sent in the handshake,
  its incremental maintenance and its hexadecimal wire form.
\<close>

section \<open>Definitions\<close>

record frontier =
  heads :: "node_id list"

definition frontier_default :: frontier where
  "frontier_default = \<lparr>heads = []\<rparr>"

definition from_heads :: "node_id list \<Rightarrow> frontier" where
  "from_heads hs = \<lparr>heads = remdups_adj (sort hs)\<rparr>"

definition frontier_contains :: "frontier \<Rightarrow> node_id \<Rightarrow> bool" where
  "frontier_contains f i \<longleftrightarrow> i \<in> set (heads f)"

definition advance :: "sync_node \<Rightarrow> frontier \<Rightarrow> frontier" where
  "advance new_node f =
     (let hs = fold (\<lambda>parent hs. filter (\<lambda>h. h \<noteq> parent) hs) (tx_parents (n_tx new_node)) (heads f);
          hs2 = if n_id new_node \<notin> set hs then hs @ [n_id new_node] else hs
      in f\<lparr>heads := sort hs2\<rparr>)"

definition frontier_len :: "frontier \<Rightarrow> nat" where
  "frontier_len f = length (heads f)"

definition frontier_is_empty :: "frontier \<Rightarrow> bool" where
  "frontier_is_empty f \<longleftrightarrow> heads f = []"

definition to_hex_vec :: "frontier \<Rightarrow> string list" where
  "to_hex_vec f = map hash_to_hex (heads f)"

definition parse_hex_hash :: "string \<Rightarrow> node_id option" where
  "parse_hex_hash hex = (if length hex \<noteq> 64 then None else map_option of_be (hex_pairs hex))"

definition from_hex_vec :: "string list \<Rightarrow> frontier" where
  "from_hex_vec hexes = from_heads (List.map_filter parse_hex_hash hexes)"

section \<open>Heads are a set\<close>

definition frontier_ok :: "frontier \<Rightarrow> bool" where
  "frontier_ok f \<longleftrightarrow> sorted (heads f) \<and> distinct (heads f)"

lemma frontier_ok_default [simp]: "frontier_ok frontier_default" "set (heads frontier_default) = {}"
  by (simp_all add: frontier_ok_def frontier_default_def)

lemma distinct_remdups_adj_sorted: "sorted xs \<Longrightarrow> distinct (remdups_adj xs)"
  by (induction xs rule: remdups_adj.induct) (auto simp: order.antisym)

lemma from_heads_ok: "frontier_ok (from_heads hs)" "set (heads (from_heads hs)) = set hs"
  by (simp_all add: from_heads_def frontier_ok_def distinct_remdups_adj_sorted)

lemma frontier_canonical: "frontier_ok f \<Longrightarrow> heads f = sorted_list_of_set (set (heads f))"
  by (simp add: frontier_ok_def sorted_list_of_set.idem_if_sorted_distinct)

lemma frontier_eqI: "frontier_ok f \<Longrightarrow> frontier_ok g \<Longrightarrow> set (heads f) = set (heads g) \<Longrightarrow> f = g"
  for f g :: frontier
  using frontier_canonical [of f] frontier_canonical [of g] by simp

lemma fold_retain:
  "fold (\<lambda>parent hs. filter (\<lambda>h. h \<noteq> parent) hs) ps hs = filter (\<lambda>h. h \<notin> set ps) hs"
  by (induction ps arbitrary: hs) (auto intro: filter_cong)

lemma advance_ok:
  assumes "frontier_ok f"
  shows "frontier_ok (advance n f)"
    "set (heads (advance n f)) = insert (n_id n) (set (heads f) - set (tx_parents (n_tx n)))"
  using assms by (auto simp: advance_def Let_def fold_retain frontier_ok_def)

section \<open>Hexadecimal form\<close>

lemma parse_hex_hash_to_hex: "parse_hex_hash (hash_to_hex h) = Some h"
proof -
  have "of_be (be_bytes 32 h) = h" by (rule of_be_be_bytes) simp
  then show ?thesis
    by (simp add: parse_hex_hash_def hash_to_hex_def hex_pairs_bytes_to_hex)
qed

lemma map_filter_parse: "List.map_filter parse_hex_hash (map hash_to_hex hs) = hs"
  by (induction hs) (simp_all add: List.map_filter_simps parse_hex_hash_to_hex)

lemma from_to_hex_vec: "frontier_ok f \<Longrightarrow> from_hex_vec (to_hex_vec f) = f"
  by (rule frontier_eqI) (simp_all add: from_hex_vec_def to_hex_vec_def map_filter_parse from_heads_ok)

section \<open>Properties\<close>

text \<open>A frontier of sorted, distinct heads survives the trip to hexadecimal text and back, and
  reading any list of texts gives such a frontier, whatever unreadable texts the list contains.\<close>

theorem frontier_hex_roundtrip:
  assumes "frontier_ok f"
  shows "from_hex_vec (to_hex_vec f) = f \<and> frontier_ok (from_hex_vec hexes)"
  using from_to_hex_vec [OF assms] from_heads_ok(1) by (simp add: from_hex_vec_def)

theorem frontier_hex_roundtrip_witness:
  "from_hex_vec (to_hex_vec \<lparr>heads = [1, 2]\<rparr>) = \<lparr>heads = [1, 2]\<rparr> \<and> frontier_ok (from_hex_vec [''zz''])"
  using frontier_hex_roundtrip [of "\<lparr>heads = [1, 2]\<rparr>"] by (simp add: frontier_ok_def)

end
