(* ===== verification/Graph_State.thy ===== *)
theory Graph_State
  imports State_Caches Text_Range Policy Storage Frontier
begin

text \<open>
  The state of a peer (\<open>StateGraph\<close> in \<open>core/crdt/src/graph.rs\<close>, over the in-memory node store) and
  the text projections it keeps resident: which keys are touched by a node, the parity check
  against replay, the eviction policy, and the temperature of a key. The elapsed-time counters
  (nanoseconds) are left out: nothing reads them but a statistics call.
\<close>

section \<open>Data\<close>

definition LAMPORT_SLACK :: u64 where
  "LAMPORT_SLACK = 1048576"

definition WALL_SKEW_MAX_MS :: u64 where
  "WALL_SKEW_MAX_MS = 24 * 60 * 60 * 1000"

record text_parity_mismatch =
  pm_key :: string
  pm_trigger_node :: "node_id option"
  pm_projected_len :: nat
  pm_legacy_len :: nat
  pm_first_projected :: "op_id option"
  pm_first_legacy :: "op_id option"

record text_runtime_counters =
  rc_projection_hits :: u64
  rc_replay_fallbacks :: u64

record text_apply_runtime_counters =
  ac_projection_update_calls :: u64
  ac_projection_invalidation_count :: u64
  ac_projection_rebuild_count :: u64
  ac_dirty_range_count_total :: u64
  ac_dirty_span_chars_total :: u64
  ac_dirty_range_merge_count_total :: u64

datatype text_runtime_temperature = Cold | Warm | Hot

record text_temperature_thresholds =
  tt_hot_read_calls :: u64
  tt_hot_write_calls :: u64

definition thresholds_default :: text_temperature_thresholds where
  "thresholds_default = \<lparr>tt_hot_read_calls = 64, tt_hot_write_calls = 2048\<rparr>"

record residency_policy =
  rp_max_resident_keys :: nat

definition residency_default :: residency_policy where
  "residency_default = \<lparr>rp_max_resident_keys = 2 ^ 64 - 1\<rparr>"

record tick_config =
  tc_interval_ms :: u64
  tc_max_ops_per_tick :: nat

record batch_result =
  br_accepted :: "node_id list"
  br_rejected :: "(node_id \<times> sync_error) list"

record state_graph =
  g_nodes :: memory_node_store
  g_leaves :: "node_id set"
  g_lamport :: u64
  g_policy :: policy
  g_frontier :: frontier
  g_local_node_ids :: "node_id set"
  g_verified_ids :: "node_id set"
  g_local_signing :: bool
  g_text_projections :: "(string \<times> text_projection) list"
  g_text_projection_mode :: text_projection_mode
  g_text_projection_mismatches :: "text_parity_mismatch list"
  g_text_projection_self_heals :: u64
  g_text_parity_sample_every :: u64
  g_text_parity_update_count :: u64
  g_text_parity_selected_keys :: "string set"
  g_text_parity_check_runs :: u64
  g_text_projection_hits :: u64
  g_text_replay_fallbacks :: u64
  g_text_apply_projection_update_calls :: u64
  g_text_temperature_thresholds :: text_temperature_thresholds
  g_text_projection_residency_policy :: residency_policy
  g_text_projection_last_touch :: "string \<rightharpoonup> u64"
  g_text_projection_touch_clock :: u64
  g_state_caches :: state_caches

definition graph_with_store :: "memory_node_store \<Rightarrow> state_graph" where
  "graph_with_store nodes = \<lparr>g_nodes = nodes, g_leaves = {}, g_lamport = 0, g_policy = default_policy,
     g_frontier = frontier_default, g_local_node_ids = {}, g_verified_ids = {}, g_local_signing = True,
     g_text_projections = [], g_text_projection_mode = Enabled, g_text_projection_mismatches = [],
     g_text_projection_self_heals = 0, g_text_parity_sample_every = 16, g_text_parity_update_count = 0,
     g_text_parity_selected_keys = {}, g_text_parity_check_runs = 0, g_text_projection_hits = 0,
     g_text_replay_fallbacks = 0, g_text_apply_projection_update_calls = 0,
     g_text_temperature_thresholds = thresholds_default, g_text_projection_residency_policy = residency_default,
     g_text_projection_last_touch = Map.empty, g_text_projection_touch_clock = 0,
     g_state_caches = state_caches_default\<rparr>"

definition graph_new :: state_graph where
  "graph_new = graph_with_store mns_new"

section \<open>Nodes of the store\<close>

definition all_nodes_snapshot :: "state_graph \<Rightarrow> sync_node list" where
  "all_nodes_snapshot g = List.map_filter (mns_get (g_nodes g)) (mns_all_ids (g_nodes g))"

definition all_nodes_for_text :: "state_graph \<Rightarrow> sync_node list" where
  "all_nodes_for_text g = sort_key node_sort_key (all_nodes_snapshot g)"

definition op_text_key :: "op \<Rightarrow> string option" where
  "op_text_key op = (case op of OpText t \<Rightarrow> Some (text_op_key t) | _ \<Rightarrow> None)"

definition node_text_keys :: "sync_node \<Rightarrow> string set" where
  "node_text_keys n = set (List.map_filter op_text_key (tx_ops (n_tx n)))"

definition collect_text_keys :: "state_graph \<Rightarrow> string set" where
  "collect_text_keys g = (\<Union>n \<in> set (all_nodes_snapshot g). node_text_keys n)"

section \<open>Resident projections\<close>

definition projection_at :: "state_graph \<Rightarrow> string \<Rightarrow> text_projection option" where
  "projection_at g = map_of (g_text_projections g)"

definition projection_entry :: "state_graph \<Rightarrow> string \<Rightarrow> text_projection" where
  "projection_entry g key = (case projection_at g key of Some p \<Rightarrow> p | None \<Rightarrow> tp_default)"

definition put_projection :: "string \<Rightarrow> text_projection \<Rightarrow> state_graph \<Rightarrow> state_graph" where
  "put_projection key p g = g\<lparr>g_text_projections := AList.update key p (g_text_projections g)\<rparr>"

definition resident_keys :: "state_graph \<Rightarrow> string set" where
  "resident_keys g = set (map fst (g_text_projections g))"

definition rebuild_text_projection_for_key :: "string \<Rightarrow> state_graph \<Rightarrow> state_graph rust" where
  "rebuild_text_projection_for_key key g =
     map_rust (\<lambda>p. put_projection key p g) (from_nodes (all_nodes_for_text g) key)"

definition touch_text_projection_key :: "string \<Rightarrow> state_graph \<Rightarrow> state_graph" where
  "touch_text_projection_key key g =
     (let clock = sat_add (g_text_projection_touch_clock g) 1 in
      g\<lparr>g_text_projection_touch_clock := clock,
        g_text_projection_last_touch := (g_text_projection_last_touch g)(key \<mapsto> clock)\<rparr>)"

definition projection_is_hot_with_stats :: "state_graph \<Rightarrow> text_projection_debug_stats \<Rightarrow> bool" where
  "projection_is_hot_with_stats g stats =
     (let read_calls = sat_add (sat_add (ds_resolve_seq_calls stats) (ds_resolve_string_calls stats)) (ds_resolve_range_calls stats);
          write_calls = sat_add (sat_add (sat_add (ds_insert_ops_applied stats) (ds_delete_ops_applied stats))
            (ds_range_insert_ops_applied stats)) (ds_range_delete_ops_applied stats)
      in tt_hot_read_calls (g_text_temperature_thresholds g) \<le> read_calls
         \<or> tt_hot_write_calls (g_text_temperature_thresholds g) \<le> write_calls)"

definition update_candidate :: "string \<Rightarrow> u64 \<Rightarrow> (string \<times> u64) option \<Rightarrow> (string \<times> u64) option" where
  "update_candidate key touched slot =
     (case slot of None \<Rightarrow> Some (key, touched)
      | Some (k, t) \<Rightarrow> if touched < t then Some (key, touched) else slot)"

definition consider_victim ::
  "state_graph \<Rightarrow> string \<Rightarrow> (string \<times> u64) option \<times> (string \<times> u64) option \<Rightarrow> (string \<times> u64) option \<times> (string \<times> u64) option" where
  "consider_victim g key slots =
     (let touched = (case g_text_projection_last_touch g key of Some t \<Rightarrow> t | None \<Rightarrow> 0);
          is_hot = projection_is_hot_with_stats g (debug_stats (projection_entry g key));
          fallback = update_candidate key touched (snd slots);
          warm = (if is_hot then fst slots else update_candidate key touched (fst slots))
      in (warm, fallback))"

definition eviction_victim :: "env \<Rightarrow> state_graph \<Rightarrow> string option" where
  "eviction_victim e g =
     (let (warm, fallback) = fold (consider_victim g) (key_iter e (resident_keys g)) (None, None)
      in map_option fst (case warm of Some w \<Rightarrow> Some w | None \<Rightarrow> fallback))"

definition evict :: "string \<Rightarrow> state_graph \<Rightarrow> state_graph" where
  "evict key g = g\<lparr>g_text_projections := AList.delete key (g_text_projections g),
     g_text_projection_last_touch := (g_text_projection_last_touch g)(key := None)\<rparr>"

text \<open>Every pass of the loop removes a resident key, so the number of resident keys is enough fuel.\<close>

fun enforce_loop :: "env \<Rightarrow> nat \<Rightarrow> state_graph \<Rightarrow> state_graph" where
  "enforce_loop e 0 g = g"
| "enforce_loop e (Suc fuel) g =
     (if rp_max_resident_keys (g_text_projection_residency_policy g) < length (g_text_projections g) then
        (case eviction_victim e g of None \<Rightarrow> g | Some k \<Rightarrow> enforce_loop e fuel (evict k g))
      else g)"

definition enforce_text_projection_residency_policy :: "env \<Rightarrow> state_graph \<Rightarrow> state_graph" where
  "enforce_text_projection_residency_policy e g = enforce_loop e (length (g_text_projections g)) g"

definition rebuild_all_text_projections :: "env \<Rightarrow> state_graph \<Rightarrow> state_graph rust" where
  "rebuild_all_text_projections e g =
     map_rust (enforce_text_projection_residency_policy e)
       (fold_rust (\<lambda>key g. map_rust (touch_text_projection_key key) (rebuild_text_projection_for_key key g))
          (key_iter e (collect_text_keys g)) g)"

section \<open>Parity with replay\<close>

definition resolve_text_seq_legacy :: "state_graph \<Rightarrow> string \<Rightarrow> (op_id \<times> scalar) list rust" where
  "resolve_text_seq_legacy g key = resolve_text_seq (all_nodes_snapshot g) key"

definition parity_for_key :: "node_id option \<Rightarrow> string \<Rightarrow> state_graph \<Rightarrow> state_graph rust" where
  "parity_for_key trigger_node key g =
     (let projected = (case projection_at g key of Some p \<Rightarrow> fst (resolve_seq p) | None \<Rightarrow> []);
          g1 = (case projection_at g key of Some p \<Rightarrow> put_projection key (snd (resolve_seq p)) g | None \<Rightarrow> g)
      in rbind (resolve_text_seq_legacy g1 key) (\<lambda>legacy.
           if projected = legacy then Ret g1
           else
             let g2 = g1\<lparr>g_text_projection_mismatches := g_text_projection_mismatches g1 @
                   [\<lparr>pm_key = key, pm_trigger_node = trigger_node, pm_projected_len = length projected,
                     pm_legacy_len = length legacy,
                     pm_first_projected = (case projected of [] \<Rightarrow> None | (i, _) # _ \<Rightarrow> Some i),
                     pm_first_legacy = (case legacy of [] \<Rightarrow> None | (i, _) # _ \<Rightarrow> Some i)\<rparr>]\<rparr>
             in map_rust (\<lambda>g3. g3\<lparr>g_text_projection_self_heals := sat_add (g_text_projection_self_heals g3) 1\<rparr>)
                  (rebuild_text_projection_for_key key g2)))"

definition run_text_projection_parity_for_keys ::
  "env \<Rightarrow> string set \<Rightarrow> node_id option \<Rightarrow> state_graph \<Rightarrow> state_graph rust" where
  "run_text_projection_parity_for_keys e keys trigger_node g =
     fold_rust (parity_for_key trigger_node) (key_iter e keys) g"

definition parity_tick :: "env \<Rightarrow> string set \<Rightarrow> node_id option \<Rightarrow> state_graph \<Rightarrow> state_graph rust" where
  "parity_tick e touched trigger_node g =
     (let g1 = g\<lparr>g_text_parity_update_count := sat_add (g_text_parity_update_count g) 1\<rparr>;
          sample_every = max (g_text_parity_sample_every g1) 1
      in if g_text_parity_update_count g1 mod sample_every \<noteq> 0 then Ret g1
         else
           let keys_to_check = (if g_text_parity_selected_keys g1 = {} then touched
                                else {k \<in> touched. k \<in> g_text_parity_selected_keys g1})
           in if keys_to_check = {} then Ret g1
              else run_text_projection_parity_for_keys e keys_to_check trigger_node
                     (g1\<lparr>g_text_parity_check_runs := sat_add (g_text_parity_check_runs g1) 1\<rparr>))"

section \<open>Updating the projections\<close>

definition touch_and_enforce :: "env \<Rightarrow> string set \<Rightarrow> state_graph \<Rightarrow> state_graph" where
  "touch_and_enforce e touched g =
     enforce_text_projection_residency_policy e (fold touch_text_projection_key (key_iter e touched) g)"

definition project_op :: "sync_node \<Rightarrow> op \<Rightarrow> state_graph \<Rightarrow> state_graph rust" where
  "project_op node op g =
     (case op_text_key op of
        Some key \<Rightarrow> map_rust (\<lambda>p. put_projection key p g) (apply_node node key (projection_entry g key))
      | None \<Rightarrow> Ret g)"

definition update_text_projection_from_node :: "env \<Rightarrow> sync_node \<Rightarrow> state_graph \<Rightarrow> state_graph rust" where
  "update_text_projection_from_node e node g0 =
     (let touched = node_text_keys node in
      rbind (fold_rust (project_op node) (tx_ops (n_tx node)) g0) (\<lambda>g1.
      rbind (if g_text_projection_mode g1 = ParityCheck \<and> touched \<noteq> {} then parity_tick e touched (Some (n_id node)) g1 else Ret g1) (\<lambda>g2.
      let g3 = touch_and_enforce e touched g2 in
      Ret (g3\<lparr>g_text_apply_projection_update_calls := g_text_apply_projection_update_calls g3 + 1\<rparr>))))"

fun op_char_updates :: "transaction \<Rightarrow> string \<Rightarrow> op \<Rightarrow> projection_update_op list" where
  "op_char_updates tx key (OpText (TextInsert k after_id ch)) =
     (if k = key then [UpInsert (OpId (tx_lamport tx) (tx_author tx)) after_id ch] else [])"
| "op_char_updates tx key (OpText (TextDelete k target)) = (if k = key then [UpDelete target] else [])"
| "op_char_updates tx key _ = []"

definition coalesced_updates :: "sync_node list \<Rightarrow> string \<Rightarrow> projection_update_op list" where
  "coalesced_updates nodes key = concat (map (\<lambda>n. concat (map (op_char_updates (n_tx n) key) (tx_ops (n_tx n)))) nodes)"

fun is_range_op :: "op \<Rightarrow> string \<Rightarrow> bool" where
  "is_range_op (OpText (TextInsertRange k a chs)) key = (k = key)"
| "is_range_op (OpText (TextDeleteRange k a n)) key = (k = key)"
| "is_range_op _ key = False"

definition fallback_range_key :: "sync_node list \<Rightarrow> string \<Rightarrow> bool" where
  "fallback_range_key nodes key \<longleftrightarrow> (\<exists>n \<in> set nodes. \<exists>op \<in> set (tx_ops (n_tx n)). is_range_op op key)"

definition project_batch_key :: "sync_node list \<Rightarrow> string \<Rightarrow> state_graph \<Rightarrow> state_graph rust" where
  "project_batch_key nodes key g =
     map_rust (\<lambda>p. put_projection key p g)
       (if fallback_range_key nodes key
        then fold_rust (\<lambda>n. apply_node n key) nodes (projection_entry g key)
        else apply_updates_coalesced (coalesced_updates nodes key) (projection_entry g key))"

definition touched_nodes :: "sync_node list \<Rightarrow> sync_node list" where
  "touched_nodes nodes = filter (\<lambda>n. node_text_keys n \<noteq> {}) nodes"

definition update_text_projection_from_nodes_batch :: "env \<Rightarrow> sync_node list \<Rightarrow> state_graph \<Rightarrow> state_graph rust" where
  "update_text_projection_from_nodes_batch e nodes g0 =
     (if nodes = [] then Ret g0
      else
        let touched = (\<Union>n \<in> set nodes. node_text_keys n);
            touched_node_count = length (touched_nodes nodes)
        in rbind (fold_rust (project_batch_key nodes) (key_iter e touched) g0) (\<lambda>g1.
           rbind (if g_text_projection_mode g1 = ParityCheck \<and> touched \<noteq> {}
                  then fold_rust (\<lambda>_. parity_tick e touched None) [0..<touched_node_count] g1 else Ret g1) (\<lambda>g2.
           let g3 = touch_and_enforce e touched g2 in
           Ret (g3\<lparr>g_text_apply_projection_update_calls :=
                  g_text_apply_projection_update_calls g3 + word_of_nat touched_node_count\<rparr>))))"

section \<open>Configuration and statistics\<close>

definition set_text_projection_mode :: "env \<Rightarrow> text_projection_mode \<Rightarrow> state_graph \<Rightarrow> state_graph rust" where
  "set_text_projection_mode e mode g =
     (let g1 = g\<lparr>g_text_projection_mode := mode, g_text_parity_update_count := 0\<rparr> in
      if mode \<noteq> Disabled then rebuild_all_text_projections e g1 else Ret g1)"

definition set_text_parity_sample_every :: "u64 \<Rightarrow> state_graph \<Rightarrow> state_graph" where
  "set_text_parity_sample_every every g = g\<lparr>g_text_parity_sample_every := max every 1\<rparr>"

definition set_text_parity_selected_keys :: "string list \<Rightarrow> state_graph \<Rightarrow> state_graph" where
  "set_text_parity_selected_keys keys g = g\<lparr>g_text_parity_selected_keys := set keys\<rparr>"

definition text_runtime_counters_of :: "state_graph \<Rightarrow> text_runtime_counters" where
  "text_runtime_counters_of g =
     \<lparr>rc_projection_hits = g_text_projection_hits g, rc_replay_fallbacks = g_text_replay_fallbacks g\<rparr>"

definition reset_text_runtime_counters :: "state_graph \<Rightarrow> state_graph" where
  "reset_text_runtime_counters g = g\<lparr>g_text_projection_hits := 0, g_text_replay_fallbacks := 0\<rparr>"

definition sat_total :: "(text_projection_debug_stats \<Rightarrow> u64) \<Rightarrow> state_graph \<Rightarrow> u64" where
  "sat_total f g = fold (\<lambda>kp acc. sat_add acc (f (debug_stats (snd kp)))) (g_text_projections g) 0"

definition text_apply_runtime_counters_of :: "state_graph \<Rightarrow> text_apply_runtime_counters" where
  "text_apply_runtime_counters_of g =
     \<lparr>ac_projection_update_calls = g_text_apply_projection_update_calls g,
      ac_projection_invalidation_count = sat_total ds_invalidation_count g,
      ac_projection_rebuild_count = sat_total ds_full_rebuild_count g,
      ac_dirty_range_count_total = sat_total (\<lambda>s. word_of_nat (ds_dirty_range_count s)) g,
      ac_dirty_span_chars_total = sat_total (\<lambda>s. word_of_nat (ds_dirty_span_chars s)) g,
      ac_dirty_range_merge_count_total = sat_total ds_dirty_range_merge_count g\<rparr>"

definition reset_text_apply_runtime_counters :: "state_graph \<Rightarrow> state_graph" where
  "reset_text_apply_runtime_counters g = g\<lparr>g_text_apply_projection_update_calls := 0\<rparr>"

definition set_text_runtime_temperature_thresholds :: "text_temperature_thresholds \<Rightarrow> state_graph \<Rightarrow> state_graph" where
  "set_text_runtime_temperature_thresholds thresholds g = g\<lparr>g_text_temperature_thresholds := thresholds\<rparr>"

definition text_runtime_temperature_for_key :: "state_graph \<Rightarrow> string \<Rightarrow> text_runtime_temperature" where
  "text_runtime_temperature_for_key g key =
     (case map_option debug_stats (projection_at g key) of
        None \<Rightarrow> Cold
      | Some stats \<Rightarrow>
          let read_calls = sat_add (sat_add (ds_resolve_seq_calls stats) (ds_resolve_string_calls stats)) (ds_resolve_range_calls stats);
              write_calls = sat_add (sat_add (sat_add (ds_insert_ops_applied stats) (ds_delete_ops_applied stats))
                (ds_range_insert_ops_applied stats)) (ds_range_delete_ops_applied stats)
          in if tt_hot_read_calls (g_text_temperature_thresholds g) \<le> read_calls
                \<or> tt_hot_write_calls (g_text_temperature_thresholds g) \<le> write_calls then Hot else Warm)"

definition text_runtime_temperature_snapshot :: "state_graph \<Rightarrow> (string \<rightharpoonup> text_runtime_temperature)" where
  "text_runtime_temperature_snapshot g =
     (\<lambda>key. if key \<in> resident_keys g then Some (text_runtime_temperature_for_key g key) else None)"

definition set_text_projection_residency_policy :: "env \<Rightarrow> residency_policy \<Rightarrow> state_graph \<Rightarrow> state_graph" where
  "set_text_projection_residency_policy e p g =
     enforce_text_projection_residency_policy e (g\<lparr>g_text_projection_residency_policy := p\<rparr>)"

definition text_projection_resident_key_count :: "state_graph \<Rightarrow> nat" where
  "text_projection_resident_key_count g = length (g_text_projections g)"

definition demote_text_projection_key :: "string \<Rightarrow> state_graph \<Rightarrow> bool \<times> state_graph" where
  "demote_text_projection_key key g = (projection_at g key \<noteq> None, evict key g)"

definition ensure_text_projection_resident :: "env \<Rightarrow> string \<Rightarrow> state_graph \<Rightarrow> (bool \<times> state_graph) rust" where
  "ensure_text_projection_resident e key g =
     (if g_text_projection_mode g = Disabled then Ret (False, g)
      else if projection_at g key \<noteq> None then Ret (False, touch_text_projection_key key g)
      else map_rust (\<lambda>g1. (True, enforce_text_projection_residency_policy e (touch_text_projection_key key g1)))
             (rebuild_text_projection_for_key key g))"

text \<open>
  Compaction of a projection's buffers changes capacities only; whether it freed any is the
  allocator's answer, the argument \<open>shrunk\<close>.
\<close>

definition compact_text_projection_key :: "bool \<Rightarrow> string \<Rightarrow> state_graph \<Rightarrow> bool \<times> state_graph" where
  "compact_text_projection_key shrunk key g =
     (let compacted = (projection_at g key \<noteq> None \<and> shrunk) in
      (compacted, if compacted then touch_text_projection_key key g else g))"

end
