(* ===== verification/Graph.thy ===== *)
theory Graph
  imports Graph_State
begin

text \<open>
  Admission of nodes into the graph and the reads of it (\<open>core/crdt/src/graph.rs\<close>): local
  transactions, remote nodes one by one and in batches with their checks, the Merkle root, set
  difference with a peer, and the resolved map, list and text. A rejection is a \<open>SyncError\<close> in the
  left summand, beside the state it leaves; \<open>Panic\<close> can only come from a text projection beyond its
  capacity. \<open>self.lamport += 1\<close> wraps, as in a release build.
\<close>

type_synonym 'a outcome = "('a res \<times> state_graph) rust"

section \<open>Checks\<close>

definition SNAP_HASH_KEY :: string where
  "SNAP_HASH_KEY = CHR 0x00 # ''snap:hash''"

definition is_snapshot_node :: "sync_node \<Rightarrow> bool" where
  "is_snapshot_node node \<longleftrightarrow>
     list_ex (\<lambda>op. case op of OpMap (MapSet key v) \<Rightarrow> key = SNAP_HASH_KEY | _ \<Rightarrow> False) (tx_ops (n_tx node))"

definition check_lamport_ceiling :: "u64 \<Rightarrow> sync_node \<Rightarrow> unit res" where
  "check_lamport_ceiling local_lamport node =
     (let ceiling = sat_add local_lamport LAMPORT_SLACK; nl = tx_lamport (n_tx node) in
      if ceiling < nl then Inl (LamportCeiling (n_id node) nl ceiling) else Inr ())"

definition check_wall_skew :: "u64 \<Rightarrow> sync_node \<Rightarrow> unit res" where
  "check_wall_skew now_ms node =
     (let w = tx_wall_ms (n_tx node) in
      if w = 0 then Inr ()
      else if sat_add now_ms WALL_SKEW_MAX_MS < w then Inl (WallClockSkew (n_id node) w now_ms)
      else Inr ())"

definition precheck :: "env \<Rightarrow> u64 option \<Rightarrow> sync_node \<Rightarrow> state_graph \<Rightarrow> unit res" where
  "precheck e now_ms node g =
     (let expected = tx_hash e (n_tx node) in
      if expected \<noteq> n_id node then Inl (HashMismatch expected (n_id node))
      else case check_lamport_ceiling (g_lamport g) node of
          Inl er \<Rightarrow> Inl er
        | Inr _ \<Rightarrow> (case now_ms of Some now \<Rightarrow> check_wall_skew now node | None \<Rightarrow> Inr ()))"

section \<open>Insertion\<close>

definition insert_node :: "sync_node \<Rightarrow> state_graph \<Rightarrow> unit res \<times> state_graph" where
  "insert_node node g =
     (if mns_contains (g_nodes g) (n_id node) then (Inl (DuplicateNode (n_id node)), g)
      else
        let g1 = g\<lparr>g_leaves := insert (n_id node) (fold (\<lambda>parent ls. ls - {parent}) (tx_parents (n_tx node)) (g_leaves g)),
                   g_frontier := advance node (g_frontier g),
                   g_lamport := (if g_lamport g < tx_lamport (n_tx node) then tx_lamport (n_tx node) else g_lamport g)\<rparr>
        in case mns_put node (g_nodes g1) of
             Inl er \<Rightarrow> (Inl er, g1)
           | Inr s \<Rightarrow> (Inr (), g1\<lparr>g_nodes := s\<rparr>))"

definition op_write_key :: "op \<Rightarrow> string" where
  "op_write_key op = (case op of OpMap m \<Rightarrow> map_op_key m | OpText t \<Rightarrow> text_op_key t | OpList l \<Rightarrow> list_op_key l)"

definition policy_check :: "policy \<Rightarrow> sync_node \<Rightarrow> unit res" where
  "policy_check p node =
     (if is_snapshot_node node then Inr ()
      else let author = tx_author (n_tx node) in
        case find (\<lambda>op. \<not> can_write p (op_write_key op) author) (tx_ops (n_tx node)) of
          Some op \<Rightarrow> Inl (PolicyViolation author (op_write_key op))
        | None \<Rightarrow> Inr ())"

definition apply_remote_verified_no_projection :: "sync_node \<Rightarrow> state_graph \<Rightarrow> unit res \<times> state_graph" where
  "apply_remote_verified_no_projection node g =
     (case find (\<lambda>parent. \<not> mns_contains (g_nodes g) parent) (tx_parents (n_tx node)) of
        Some parent \<Rightarrow> (Inl (MissingParent parent), g)
      | None \<Rightarrow>
          (case policy_check (g_policy g) node of
             Inl er \<Rightarrow> (Inl er, g)
           | Inr _ \<Rightarrow>
               (case insert_node node g of
                  (Inl er, g1) \<Rightarrow> (Inl er, g1)
                | (Inr _, g1) \<Rightarrow> (Inr (), g1\<lparr>g_state_caches := update_state_caches node True (g_state_caches g1)\<rparr>))))"

definition apply_remote_verified :: "env \<Rightarrow> sync_node \<Rightarrow> state_graph \<Rightarrow> unit outcome" where
  "apply_remote_verified e node g =
     (case apply_remote_verified_no_projection node g of
        (Inl er, g1) \<Rightarrow> Ret (Inl er, g1)
      | (Inr _, g1) \<Rightarrow> map_rust (\<lambda>g2. (Inr (), g2)) (update_text_projection_from_node e node g1))"

definition apply_remote_checked :: "env \<Rightarrow> sync_node \<Rightarrow> u64 option \<Rightarrow> state_graph \<Rightarrow> unit outcome" where
  "apply_remote_checked e node now_ms g =
     (case precheck e now_ms node g of
        Inl er \<Rightarrow> Ret (Inl er, g)
      | Inr _ \<Rightarrow>
          if n_id node \<in> g_verified_ids g then apply_remote_verified e node g
          else (case verify_signature e node of
              Inl er \<Rightarrow> Ret (Inl er, g)
            | Inr _ \<Rightarrow> apply_remote_verified e node (g\<lparr>g_verified_ids := insert (n_id node) (g_verified_ids g)\<rparr>)))"

definition apply_remote :: "env \<Rightarrow> sync_node \<Rightarrow> state_graph \<Rightarrow> unit outcome" where
  "apply_remote e node g = apply_remote_checked e node None g"

section \<open>Batches\<close>

definition BATCH_VERIFY_CHUNK :: nat where
  "BATCH_VERIFY_CHUNK = 256"

definition verify_chunk :: "env \<Rightarrow> sync_node list \<Rightarrow> nat list \<Rightarrow> (nat \<times> bool) list" where
  "verify_chunk e nodes indices =
     (let good = filter (\<lambda>i. vk_ok e (tx_author (n_tx (nodes ! i)))) indices;
          out = map (\<lambda>i. (i, False)) (filter (\<lambda>i. \<not> vk_ok e (tx_author (n_tx (nodes ! i)))) indices);
          triples = map (\<lambda>i. (be_bytes 32 (n_id (nodes ! i)), n_sig (nodes ! i), tx_author (n_tx (nodes ! i)))) good
      in if good = [] then out
         else if ed_verify_batch e triples then out @ map (\<lambda>i. (i, True)) good
         else out @ map (\<lambda>i. (i, verify_signature e (nodes ! i) = Inr ())) good)"

function chunks_of :: "nat \<Rightarrow> 'a list \<Rightarrow> 'a list list" where
  "chunks_of k xs = (if xs = [] \<or> k = 0 then [] else take k xs # chunks_of k (drop k xs))"
  by pat_completeness auto
termination
  by (relation "measure (\<lambda>(k, xs). length xs)") auto

declare chunks_of.simps [simp del]

definition verify_nodes_batched :: "env \<Rightarrow> sync_node list \<Rightarrow> state_graph \<Rightarrow> bool list" where
  "verify_nodes_batched e nodes g =
     (let need = filter (\<lambda>i. \<not> sig_is_zero (n_sig (nodes ! i)) \<and> n_id (nodes ! i) \<notin> g_verified_ids g) [0..<length nodes];
          outs = map (verify_chunk e nodes) (chunks_of BATCH_VERIFY_CHUNK need)
      in fold (\<lambda>(i, ok) results. results[i := ok]) (concat outs) (replicate (length nodes) True))"

fun batch_filter ::
  "env \<Rightarrow> u64 option \<Rightarrow> state_graph \<Rightarrow> node_id set \<Rightarrow> sync_node list \<Rightarrow> (node_id \<times> sync_error) list \<times> sync_node list" where
  "batch_filter e now_ms g seen [] = ([], [])"
| "batch_filter e now_ms g seen (node # nodes) =
     (let (rejected, to_verify) = batch_filter e now_ms g (insert (n_id node) seen) nodes in
      if n_id node \<in> seen then (rejected, to_verify)
      else if mns_contains (g_nodes g) (n_id node) then (rejected, to_verify)
      else case precheck e now_ms node g of
          Inl er \<Rightarrow> ((n_id node, er) # rejected, to_verify)
        | Inr _ \<Rightarrow> (rejected, node # to_verify))"

fun batch_apply ::
  "(sync_node \<times> bool) list \<Rightarrow> state_graph \<Rightarrow> (node_id \<times> sync_error) list \<times> sync_node list \<times> state_graph" where
  "batch_apply [] g = ([], [], g)"
| "batch_apply ((node, ok) # rest) g =
     (if \<not> ok then
        let (rejected, accepted, g1) = batch_apply rest g
        in ((n_id node, InvalidSignature (n_id node)) # rejected, accepted, g1)
      else
        case apply_remote_verified_no_projection node (g\<lparr>g_verified_ids := insert (n_id node) (g_verified_ids g)\<rparr>) of
          (Inr _, g1) \<Rightarrow> let (rejected, accepted, g2) = batch_apply rest g1 in (rejected, node # accepted, g2)
        | (Inl er, g1) \<Rightarrow> let (rejected, accepted, g2) = batch_apply rest g1 in ((n_id node, er) # rejected, accepted, g2))"

definition apply_remote_batch_checked ::
  "env \<Rightarrow> sync_node list \<Rightarrow> u64 option \<Rightarrow> state_graph \<Rightarrow> (batch_result \<times> state_graph) rust" where
  "apply_remote_batch_checked e nodes now_ms g =
     (let (rejected1, to_verify) = batch_filter e now_ms g {} nodes;
          verify_ok = verify_nodes_batched e to_verify g;
          (rejected2, accepted_nodes, g1) = batch_apply (zip to_verify verify_ok) g
      in map_rust (\<lambda>g2. (\<lparr>br_accepted = map n_id accepted_nodes, br_rejected = rejected1 @ rejected2\<rparr>, g2))
           (update_text_projection_from_nodes_batch e accepted_nodes g1))"

definition apply_remote_batch :: "env \<Rightarrow> sync_node list \<Rightarrow> state_graph \<Rightarrow> (batch_result \<times> state_graph) rust" where
  "apply_remote_batch e nodes g = apply_remote_batch_checked e nodes None g"

section \<open>Text reads\<close>

definition resolve_projection_transient :: "state_graph \<Rightarrow> string \<Rightarrow> text_projection rust" where
  "resolve_projection_transient g key = from_nodes (all_nodes_for_text g) key"

definition resolve_text_legacy :: "state_graph \<Rightarrow> string \<Rightarrow> scalar list rust" where
  "resolve_text_legacy g key = resolve_text (all_nodes_snapshot g) key"

text \<open>
  Reads of a resident projection count on the projection, so a read returns the state; a
  transient projection is dropped with its counters.
\<close>

definition graph_resolve_text_seq :: "string \<Rightarrow> state_graph \<Rightarrow> ((op_id \<times> scalar) list \<times> state_graph) rust" where
  "graph_resolve_text_seq key g =
     (if g_text_projection_mode g = Disabled then
        map_rust (\<lambda>s. (s, g\<lparr>g_text_replay_fallbacks := g_text_replay_fallbacks g + 1\<rparr>)) (resolve_text_seq_legacy g key)
      else
        let g1 = g\<lparr>g_text_projection_hits := g_text_projection_hits g + 1\<rparr> in
        case projection_at g key of
          Some p \<Rightarrow> Ret (fst (resolve_seq p), put_projection key (snd (resolve_seq p)) g1)
        | None \<Rightarrow> map_rust (\<lambda>p. (fst (resolve_seq p), g1)) (resolve_projection_transient g key))"

definition graph_resolve_text :: "string \<Rightarrow> state_graph \<Rightarrow> (scalar list \<times> state_graph) rust" where
  "graph_resolve_text key g =
     (if g_text_projection_mode g = Disabled then
        map_rust (\<lambda>s. (s, g\<lparr>g_text_replay_fallbacks := g_text_replay_fallbacks g + 1\<rparr>)) (resolve_text_legacy g key)
      else
        let g1 = g\<lparr>g_text_projection_hits := g_text_projection_hits g + 1\<rparr> in
        case projection_at g key of
          Some p \<Rightarrow> Ret (fst (resolve_string p), put_projection key (snd (resolve_string p)) g1)
        | None \<Rightarrow> map_rust (\<lambda>p. (fst (resolve_string p), g1)) (resolve_projection_transient g key))"

definition resolve_text_canonical :: "state_graph \<Rightarrow> string \<Rightarrow> scalar list rust" where
  "resolve_text_canonical g key = resolve_text_legacy g key"

definition resolve_text_seq_at_lamport :: "state_graph \<Rightarrow> string \<Rightarrow> u64 \<Rightarrow> (op_id \<times> scalar) list rust" where
  "resolve_text_seq_at_lamport g key max_lamport = resolve_text_seq_upto_lamport (all_nodes_snapshot g) key max_lamport"

definition resolve_text_at_lamport :: "state_graph \<Rightarrow> string \<Rightarrow> u64 \<Rightarrow> scalar list rust" where
  "resolve_text_at_lamport g key max_lamport = resolve_text_upto_lamport (all_nodes_snapshot g) key max_lamport"

definition resolve_text_range :: "string \<Rightarrow> nat \<Rightarrow> nat \<Rightarrow> state_graph \<Rightarrow> (scalar list \<times> state_graph) rust" where
  "resolve_text_range key start len g =
     (if len = 0 then Ret ([], g)
      else if g_text_projection_mode g = Disabled then
        map_rust (\<lambda>(s, g1). (take len (drop start s), g1)) (graph_resolve_text key g)
      else case projection_at g key of
          Some p \<Rightarrow> map_rust (\<lambda>s. (s, put_projection key (snd (resolve_string_range start len p)) g)) (fst (resolve_string_range start len p))
        | None \<Rightarrow> rbind (resolve_projection_transient g key) (\<lambda>p. map_rust (\<lambda>s. (s, g)) (fst (resolve_string_range start len p))))"

definition resolve_text_anchor_for_offset :: "string \<Rightarrow> nat \<Rightarrow> state_graph \<Rightarrow> (text_range_anchor \<times> state_graph) rust" where
  "resolve_text_anchor_for_offset key offset g =
     (if g_text_projection_mode g \<noteq> Disabled then
        (case projection_at g key of
           Some p \<Rightarrow> Ret (anchor_for_offset p offset, g)
         | None \<Rightarrow> map_rust (\<lambda>p. (anchor_for_offset p offset, g)) (resolve_projection_transient g key))
      else map_rust (\<lambda>(s, g1). (if offset = 0 then Start else if length s \<le> offset then End
                                 else After (fst (s ! (offset - 1))), g1)) (graph_resolve_text_seq key g))"

definition resolve_text_offset_for_anchor :: "string \<Rightarrow> text_range_anchor \<Rightarrow> state_graph \<Rightarrow> (nat \<times> state_graph) rust" where
  "resolve_text_offset_for_anchor key anchor g =
     (if g_text_projection_mode g \<noteq> Disabled then
        (case projection_at g key of
           Some p \<Rightarrow> Ret (offset_for_anchor p anchor, g)
         | None \<Rightarrow> map_rust (\<lambda>p. (offset_for_anchor p anchor, g)) (resolve_projection_transient g key))
      else map_rust (\<lambda>(s, g1). (case anchor of
               Start \<Rightarrow> 0 | End \<Rightarrow> length s | Offset i \<Rightarrow> min i (length s)
             | After i \<Rightarrow> (case position (\<lambda>(existing, _). existing = i) s of Some k \<Rightarrow> k + 1 | None \<Rightarrow> length s), g1))
           (graph_resolve_text_seq key g))"

section \<open>Local transactions\<close>

fun extra_insert_ids :: "op \<Rightarrow> u64" where
  "extra_insert_ids (OpText (TextInsertRange key anchor chs)) = word_of_nat (length chs - 1)"
| "extra_insert_ids _ = 0"

definition apply_local :: "env \<Rightarrow> seed \<Rightarrow> u64 \<Rightarrow> op list \<Rightarrow> state_graph \<Rightarrow> node_id outcome" where
  "apply_local e sk wall_ms ops g =
     (let tx_lamport = g_lamport g + 1;
          g1 = g\<lparr>g_lamport := sat_add tx_lamport (sum_list (map extra_insert_ids ops))\<rparr>;
          tx = \<lparr>tx_author = ed_public e sk, tx_lamport = tx_lamport, tx_wall_ms = wall_ms, tx_ops = ops,
                tx_parents = set_iter e (g_leaves g1)\<rparr>;
          node = (if g_local_signing g1 then sync_node_new_signed e tx sk else sync_node_new e tx)
      in case insert_node node g1 of
           (Inl er, g2) \<Rightarrow> Ret (Inl er, g2)
         | (Inr _, g2) \<Rightarrow>
             map_rust (\<lambda>g3. (Inr (n_id node), g3\<lparr>g_local_node_ids := insert (n_id node) (g_local_node_ids g3),
                                                g_verified_ids := insert (n_id node) (g_verified_ids g3)\<rparr>))
               (update_text_projection_from_node e node
                  (g2\<lparr>g_state_caches := update_state_caches node False (g_state_caches g2)\<rparr>)))"

definition canonicalize_offset_anchor_fast :: "state_graph \<Rightarrow> string \<Rightarrow> nat \<Rightarrow> text_range_anchor option" where
  "canonicalize_offset_anchor_fast g key offset =
     (if g_text_projection_mode g = Disabled then None
      else case projection_at g key of
          None \<Rightarrow> None
        | Some p \<Rightarrow>
            let len = visible_char_len p; idx = min offset len in
            if idx = 0 then Some Start
            else if len \<le> idx then Some End
            else map_option After (id_at_visible_offset p (idx - 1)))"

fun canonicalize_range_anchor :: "(op_id \<times> scalar) list \<Rightarrow> text_range_anchor \<Rightarrow> text_range_anchor" where
  "canonicalize_range_anchor s (Offset i) =
     (let idx = min i (length s) in
      if idx = 0 then Start else if length s \<le> idx then End else After (fst (s ! (idx - 1))))"
| "canonicalize_range_anchor s other = other"

fun range_op_anchor :: "text_range_op \<Rightarrow> text_range_anchor" where
  "range_op_anchor (RangeInsert key anchor chs) = anchor"
| "range_op_anchor (RangeDelete key anchor n) = anchor"

fun with_anchor :: "text_range_op \<Rightarrow> text_range_anchor \<Rightarrow> text_op" where
  "with_anchor (RangeInsert key _ chs) anchor = TextInsertRange key anchor chs"
| "with_anchor (RangeDelete key _ n) anchor = TextDeleteRange key anchor n"

definition canonical_anchor :: "string \<Rightarrow> text_range_anchor \<Rightarrow> state_graph \<Rightarrow> (text_range_anchor \<times> state_graph) rust" where
  "canonical_anchor key raw_anchor g =
     (case raw_anchor of
        Offset i \<Rightarrow>
          (case canonicalize_offset_anchor_fast g key i of
             Some a \<Rightarrow> Ret (a, g)
           | None \<Rightarrow> map_rust (\<lambda>(s, g1). (canonicalize_range_anchor s raw_anchor, g1)) (graph_resolve_text_seq key g))
      | _ \<Rightarrow> Ret (raw_anchor, g))"

definition apply_local_text_range_op :: "env \<Rightarrow> seed \<Rightarrow> u64 \<Rightarrow> text_range_op \<Rightarrow> state_graph \<Rightarrow> node_id list outcome" where
  "apply_local_text_range_op e sk wall_ms rop g =
     rbind (canonical_anchor (text_op_key (range_text_op rop)) (range_op_anchor rop) g) (\<lambda>(anchor, g1).
       map_rust (\<lambda>(r, g2). (case r of Inl er \<Rightarrow> Inl er | Inr i \<Rightarrow> Inr [i], g2))
         (apply_local e sk wall_ms [OpText (with_anchor rop anchor)] g1))"

section \<open>Sync and state\<close>

definition merkle_root :: "env \<Rightarrow> state_graph \<Rightarrow> hash" where
  "merkle_root e g = blake3 e (concat (map (be_bytes 32) (sorted_list_of_set (g_leaves g))))"

definition missing_hashes :: "state_graph \<Rightarrow> node_id set \<Rightarrow> node_id list" where
  "missing_hashes g remote_known = filter (\<lambda>i. i \<notin> remote_known) (mns_all_ids (g_nodes g))"

definition get_nodes :: "state_graph \<Rightarrow> node_id list \<Rightarrow> sync_node list" where
  "get_nodes g ids = List.map_filter (mns_get (g_nodes g)) ids"

definition all_nodes :: "state_graph \<Rightarrow> sync_node list" where
  "all_nodes g = List.map_filter (mns_get (g_nodes g)) (mns_all_ids (g_nodes g))"

definition set_conflict_stream_enabled :: "bool \<Rightarrow> state_graph \<Rightarrow> state_graph" where
  "set_conflict_stream_enabled enabled g =
     g\<lparr>g_state_caches := (g_state_caches g)\<lparr>sc_conflict_stream_enabled := enabled\<rparr>\<rparr>"

definition drain_pending_conflicts :: "state_graph \<Rightarrow> conflict_event list \<times> state_graph" where
  "drain_pending_conflicts g =
     (sc_pending_conflicts (g_state_caches g), g\<lparr>g_state_caches := (g_state_caches g)\<lparr>sc_pending_conflicts := []\<rparr>\<rparr>)"

definition graph_resolve :: "state_graph \<Rightarrow> (string \<rightharpoonup> bytes)" where
  "graph_resolve g = winner_values (sc_map_all (g_state_caches g))"

definition resolve_canonical :: "state_graph \<Rightarrow> (string \<rightharpoonup> bytes)" where
  "resolve_canonical g = winner_values (sc_map_canonical (g_state_caches g))"

definition read_speculative :: "state_graph \<Rightarrow> string \<Rightarrow> bytes option" where
  "read_speculative g key =
     (case sc_map_all (g_state_caches g) key of Some w \<Rightarrow> mw_value w | None \<Rightarrow> None)"

definition read_canonical :: "state_graph \<Rightarrow> string \<Rightarrow> bytes option" where
  "read_canonical g key =
     (case sc_map_canonical (g_state_caches g) key of Some w \<Rightarrow> mw_value w | None \<Rightarrow> None)"

definition resolve_replay :: "state_graph \<Rightarrow> bool \<Rightarrow> (string \<rightharpoonup> bytes)" where
  "resolve_replay g skip_local =
     replay_map (List.map_filter (mns_get (g_nodes g))
       (filter (\<lambda>i. \<not> (skip_local \<and> i \<in> g_local_node_ids g)) (mns_all_ids (g_nodes g))))"

definition resolve_with_meta :: "state_graph \<Rightarrow> (string \<rightharpoonup> u64 \<times> pubkey \<times> bytes \<times> bool)" where
  "resolve_with_meta g = winners_with_meta (sc_map_all (g_state_caches g))"

definition referenced_blob_hashes :: "state_graph \<Rightarrow> hash set" where
  "referenced_blob_hashes g = sc_blob_hashes (g_state_caches g)"

definition node_count :: "state_graph \<Rightarrow> nat" where
  "node_count g = mns_len (g_nodes g)"

definition resolve_list :: "state_graph \<Rightarrow> string \<Rightarrow> (item_id \<times> frac_idx) list" where
  "resolve_list g list_key = cached_list (sc_lists (g_state_caches g)) list_key"

definition resolve_list_replay :: "state_graph \<Rightarrow> string \<Rightarrow> (item_id \<times> frac_idx) list" where
  "resolve_list_replay g list_key = resolve_list_seq (all_nodes g) list_key"

definition graph_detect_conflicts :: "(conflict_items \<Rightarrow> conflict_items) \<Rightarrow> state_graph \<Rightarrow> conflict_event list" where
  "graph_detect_conflicts it g = detect_conflicts it (all_nodes g)"

definition set_policy :: "policy \<Rightarrow> state_graph \<Rightarrow> state_graph" where
  "set_policy p g = g\<lparr>g_policy := p\<rparr>"

definition set_local_signing :: "bool \<Rightarrow> state_graph \<Rightarrow> state_graph" where
  "set_local_signing enabled g = g\<lparr>g_local_signing := enabled\<rparr>"

end
