(* ===== verification/Graph_Inv.thy ===== *)
theory Graph_Inv
  imports Graph
begin

text \<open>
  The step relation of a graph, one rule per operation that changes it, and what every reachable
  graph satisfies: content-addressed nodes in causal order, leaves and frontier as the childless
  nodes, and materialised views that equal a replay of the admitted nodes.
\<close>

section \<open>Steps\<close>

inductive graph_step :: "env \<Rightarrow> state_graph \<Rightarrow> state_graph \<Rightarrow> bool" for e where
  local_step: "apply_local e sk wall ops g = Ret (r, g') \<Longrightarrow> graph_step e g g'"
| range_step: "apply_local_text_range_op e sk wall rop g = Ret (rs, g') \<Longrightarrow> graph_step e g g'"
| remote_step: "apply_remote_checked e node now g = Ret (u, g') \<Longrightarrow> graph_step e g g'"
| batch_step: "apply_remote_batch_checked e nodes now g = Ret (b, g') \<Longrightarrow> graph_step e g g'"
| policy_step: "graph_step e g (set_policy p g)"
| signing_step: "graph_step e g (set_local_signing s g)"
| stream_step: "graph_step e g (set_conflict_stream_enabled s g)"
| drain_step: "graph_step e g (snd (drain_pending_conflicts g))"
| mode_step: "set_text_projection_mode e m g = Ret g' \<Longrightarrow> graph_step e g g'"
| sample_step: "graph_step e g (set_text_parity_sample_every k g)"
| select_step: "graph_step e g (set_text_parity_selected_keys keys g)"
| threshold_step: "graph_step e g (set_text_runtime_temperature_thresholds t g)"
| residency_step: "graph_step e g (set_text_projection_residency_policy e rp g)"
| demote_step: "graph_step e g (snd (demote_text_projection_key key g))"
| ensure_step: "ensure_text_projection_resident e key g = Ret (b, g') \<Longrightarrow> graph_step e g g'"
| compact_step: "graph_step e g (snd (compact_text_projection_key b key g))"
| reset_reads_step: "graph_step e g (reset_text_runtime_counters g)"
| reset_writes_step: "graph_step e g (reset_text_apply_runtime_counters g)"
| read_seq_step: "graph_resolve_text_seq key g = Ret (s, g') \<Longrightarrow> graph_step e g g'"
| read_text_step: "graph_resolve_text key g = Ret (t, g') \<Longrightarrow> graph_step e g g'"
| read_range_step: "resolve_text_range key start len g = Ret (t, g') \<Longrightarrow> graph_step e g g'"
| read_anchor_step: "resolve_text_anchor_for_offset key off g = Ret (a, g') \<Longrightarrow> graph_step e g g'"
| read_offset_step: "resolve_text_offset_for_anchor key a g = Ret (off, g') \<Longrightarrow> graph_step e g g'"

inductive graph_reach :: "env \<Rightarrow> state_graph \<Rightarrow> bool" for e where
  reach_new: "graph_reach e graph_new"
| reach_step: "graph_reach e g \<Longrightarrow> graph_step e g g' \<Longrightarrow> graph_reach e g'"

section \<open>The part of the state that text operations leave alone\<close>

definition dag :: "state_graph \<Rightarrow> memory_node_store \<times> node_id set \<times> u64 \<times> frontier \<times> node_id set \<times> node_id set \<times> state_caches" where
  "dag g = (g_nodes g, g_leaves g, g_lamport g, g_frontier g, g_local_node_ids g, g_verified_ids g, g_state_caches g)"

lemma dag_eqD:
  assumes "dag g = dag h"
  shows "g_nodes g = g_nodes h" "g_leaves g = g_leaves h" "g_lamport g = g_lamport h" "g_frontier g = g_frontier h"
    "g_local_node_ids g = g_local_node_ids h" "g_verified_ids g = g_verified_ids h" "g_state_caches g = g_state_caches h"
  using assms by (simp_all add: dag_def)

lemma dag_text_fields [simp]:
  "dag (g\<lparr>g_text_projections := x1\<rparr>) = dag g" "dag (g\<lparr>g_text_projection_mode := x2\<rparr>) = dag g"
  "dag (g\<lparr>g_text_projection_mismatches := x3\<rparr>) = dag g" "dag (g\<lparr>g_text_projection_self_heals := x4\<rparr>) = dag g"
  "dag (g\<lparr>g_text_parity_sample_every := x5\<rparr>) = dag g" "dag (g\<lparr>g_text_parity_update_count := x6\<rparr>) = dag g"
  "dag (g\<lparr>g_text_parity_selected_keys := x7\<rparr>) = dag g" "dag (g\<lparr>g_text_parity_check_runs := x8\<rparr>) = dag g"
  "dag (g\<lparr>g_text_projection_hits := x9\<rparr>) = dag g" "dag (g\<lparr>g_text_replay_fallbacks := x10\<rparr>) = dag g"
  "dag (g\<lparr>g_text_apply_projection_update_calls := x11\<rparr>) = dag g" "dag (g\<lparr>g_text_temperature_thresholds := x12\<rparr>) = dag g"
  "dag (g\<lparr>g_text_projection_residency_policy := x13\<rparr>) = dag g" "dag (g\<lparr>g_text_projection_last_touch := x14\<rparr>) = dag g"
  "dag (g\<lparr>g_text_projection_touch_clock := x15\<rparr>) = dag g" "dag (g\<lparr>g_policy := x16\<rparr>) = dag g"
  "dag (g\<lparr>g_local_signing := x17\<rparr>) = dag g"
  by (simp_all add: dag_def)

lemma dag_put [simp]: "dag (put_projection key p g) = dag g"
  by (simp add: put_projection_def)

lemma dag_touch [simp]: "dag (touch_text_projection_key key g) = dag g"
  by (simp add: touch_text_projection_key_def Let_def)

lemma dag_evict [simp]: "dag (evict key g) = dag g"
  by (simp add: evict_def)

lemma dag_enforce [simp]: "dag (enforce_text_projection_residency_policy e g) = dag g"
proof -
  have "dag (enforce_loop e fuel g) = dag g" for fuel
    by (induction fuel arbitrary: g) (auto split: option.split)
  then show ?thesis by (simp add: enforce_text_projection_residency_policy_def)
qed

lemma dag_fold_rust:
  assumes "\<And>x g g'. f x g = Ret g' \<Longrightarrow> dag g' = dag g" "fold_rust f xs g = Ret g'"
  shows "dag g' = dag g"
  using assms(2) by (induction xs arbitrary: g) (auto dest: assms(1))

lemma dag_rebuild: "rebuild_text_projection_for_key key g = Ret g' \<Longrightarrow> dag g' = dag g"
  by (auto simp: rebuild_text_projection_for_key_def)

lemma dag_rebuild_all: "rebuild_all_text_projections e g = Ret g' \<Longrightarrow> dag g' = dag g"
proof -
  have "fold_rust (\<lambda>key g. map_rust (touch_text_projection_key key) (rebuild_text_projection_for_key key g)) ks g = Ret h
      \<Longrightarrow> dag h = dag g" for ks h
    by (rule dag_fold_rust) (auto dest!: dag_rebuild)
  then show "rebuild_all_text_projections e g = Ret g' \<Longrightarrow> ?thesis" by (auto simp: rebuild_all_text_projections_def)
qed

lemma dag_touch_all [simp]: "dag (touch_and_enforce e touched g) = dag g"
proof -
  have "dag (fold touch_text_projection_key ks g) = dag g" for ks
    by (induction ks arbitrary: g) simp_all
  then show ?thesis by (simp add: touch_and_enforce_def)
qed

lemma dag_parity_key: "parity_for_key t key g = Ret g' \<Longrightarrow> dag g' = dag g"
proof -
  assume *: "parity_for_key t key g = Ret g'"
  let ?g = "case projection_at g key of Some p \<Rightarrow> put_projection key (snd (resolve_seq p)) g | None \<Rightarrow> g"
  have "dag ?g = dag g" by (simp split: option.split)
  moreover have "dag g' = dag ?g"
    using * unfolding parity_for_key_def Let_def by (auto dest!: dag_rebuild split: if_split_asm)
  ultimately show ?thesis by simp
qed

lemma dag_fold_parity: "fold_rust (parity_for_key t) ks g = Ret g' \<Longrightarrow> dag g' = dag g"
  by (rule dag_fold_rust [where f = "parity_for_key t"]) (auto dest: dag_parity_key)

lemma dag_parity_tick: "parity_tick e touched t g = Ret g' \<Longrightarrow> dag g' = dag g"
  by (auto dest!: dag_fold_parity simp: parity_tick_def run_text_projection_parity_for_keys_def Let_def split: if_splits)

lemma dag_project_op: "project_op node op g = Ret g' \<Longrightarrow> dag g' = dag g"
  by (auto simp: project_op_def split: option.splits)

lemma dag_fold_project: "fold_rust (project_op node) ks g = Ret g' \<Longrightarrow> dag g' = dag g"
  by (rule dag_fold_rust [where f = "project_op node"]) (auto dest: dag_project_op)

lemma dag_update_projection: "update_text_projection_from_node e node g = Ret g' \<Longrightarrow> dag g' = dag g"
  unfolding update_text_projection_from_node_def Let_def
  by (auto dest!: dag_parity_tick dag_fold_project split: if_splits)

lemma dag_project_batch_key: "project_batch_key nodes key g = Ret g' \<Longrightarrow> dag g' = dag g"
  by (auto simp: project_batch_key_def)

lemma dag_fold_batch: "fold_rust (project_batch_key nodes) ks g = Ret g' \<Longrightarrow> dag g' = dag g"
  by (rule dag_fold_rust [where f = "project_batch_key nodes"]) (auto dest: dag_project_batch_key)

lemma dag_fold_ticks: "fold_rust (\<lambda>_. parity_tick e touched t) ks g = Ret g' \<Longrightarrow> dag g' = dag g"
  by (rule dag_fold_rust [where f = "\<lambda>_. parity_tick e touched t"]) (auto dest: dag_parity_tick)

lemma dag_update_batch: "update_text_projection_from_nodes_batch e nodes g = Ret g' \<Longrightarrow> dag g' = dag g"
  unfolding update_text_projection_from_nodes_batch_def Let_def
  by (auto dest!: dag_fold_batch dag_fold_ticks split: if_splits)

lemma dag_reads:
  "graph_resolve_text_seq key g = Ret (s, g') \<Longrightarrow> dag g' = dag g"
  "graph_resolve_text key g = Ret (t, g') \<Longrightarrow> dag g' = dag g"
  by (auto simp: graph_resolve_text_seq_def graph_resolve_text_def Let_def split: if_splits option.splits)

lemma dag_ranged_reads:
  "resolve_text_range key start len g = Ret (t, g') \<Longrightarrow> dag g' = dag g"
  "resolve_text_anchor_for_offset key off g = Ret (an, g') \<Longrightarrow> dag g' = dag g"
  "resolve_text_offset_for_anchor key an g = Ret (off, g') \<Longrightarrow> dag g' = dag g"
  by (auto simp: resolve_text_range_def resolve_text_anchor_for_offset_def resolve_text_offset_for_anchor_def
      dest: dag_reads split: if_splits option.splits)

lemma dag_canonical_anchor: "canonical_anchor key a g = Ret (b, g') \<Longrightarrow> dag g' = dag g"
  by (auto simp: canonical_anchor_def dest: dag_reads split: text_range_anchor.splits option.splits)

lemma dag_ensure: "ensure_text_projection_resident e key g = Ret (b, g') \<Longrightarrow> dag g' = dag g"
  by (auto simp: ensure_text_projection_resident_def dest!: dag_rebuild split: if_splits)

lemma dag_mode: "set_text_projection_mode e m g = Ret g' \<Longrightarrow> dag g' = dag g"
  by (auto simp: set_text_projection_mode_def Let_def dest!: dag_rebuild_all split: if_splits)

section \<open>The store as a list\<close>

lemma nodes_of_store:
  assumes "mns_ok s"
  shows "List.map_filter (mns_get s) (mns_all_ids s) = map snd (mns_data s)"
proof -
  have "List.map_filter (map_of xs) (map fst ys) = map snd ys" if "distinct (map fst xs)" "set ys \<subseteq> set xs" for xs ys :: "(node_id \<times> sync_node) list"
    using that(2) by (induction ys) (auto simp: List.map_filter_simps map_of_is_SomeI [OF that(1)])
  then show ?thesis using assms by (simp add: mns_ok_def mns_get_def mns_all_ids_def)
qed

lemma all_nodes_data: "mns_ok (g_nodes g) \<Longrightarrow> all_nodes g = map snd (mns_data (g_nodes g))"
  by (simp add: all_nodes_def nodes_of_store)

lemma snapshot_all_nodes: "all_nodes_snapshot g = all_nodes g"
  by (simp add: all_nodes_snapshot_def all_nodes_def)

lemma ids_all_nodes: "mns_ok (g_nodes g) \<Longrightarrow> map n_id (all_nodes g) = mns_all_ids (g_nodes g)"
  unfolding all_nodes_def by (rule memory_nodes.map_id_snapshot)

lemma contains_all_nodes: "mns_ok (g_nodes g) \<Longrightarrow> mns_contains (g_nodes g) i \<longleftrightarrow> i \<in> n_id ` set (all_nodes g)"
  using ids_all_nodes [of g] by (metis mns_all_ids_def mns_contains_def set_map)

lemma update_absent: "k \<notin> fst ` set xs \<Longrightarrow> AList.update k v xs = xs @ [(k, v)]"
  by (induction xs) auto

lemma all_nodes_put:
  assumes "mns_ok (g_nodes g)" "\<not> mns_contains (g_nodes g) (n_id node)" "mns_put node (g_nodes g) = Inr (g_nodes h)"
  shows "all_nodes h = all_nodes g @ [node]" "mns_ok (g_nodes h)"
proof -
  show ok: "mns_ok (g_nodes h)" using memory_nodes.put_ok assms by blast
  have "g_nodes h = (g_nodes g)\<lparr>mns_data := mns_data (g_nodes g) @ [(n_id node, node)]\<rparr>"
    using assms(2,3) update_absent [of "n_id node" "mns_data (g_nodes g)" node] by (auto simp: mns_put_def mns_contains_def)
  then show "all_nodes h = all_nodes g @ [node]" using assms(1) ok by (simp add: all_nodes_data)
qed

section \<open>Causal order\<close>

fun linked :: "node_id set \<Rightarrow> sync_node list \<Rightarrow> bool" where
  "linked S [] = True"
| "linked S (n # ns) = (set (tx_parents (n_tx n)) \<subseteq> S \<and> n_id n \<notin> S \<and> linked (insert (n_id n) S) ns)"

lemma linked_snoc:
  "linked S (ns @ [n]) \<longleftrightarrow> linked S ns \<and> set (tx_parents (n_tx n)) \<subseteq> S \<union> n_id ` set ns \<and> n_id n \<notin> S \<union> n_id ` set ns"
  by (induction ns arbitrary: S) auto

lemma linked_parents: "linked S ns \<Longrightarrow> n \<in> set ns \<Longrightarrow> set (tx_parents (n_tx n)) \<subseteq> S \<union> n_id ` set ns"
  by (induction ns arbitrary: S) auto

definition childless :: "sync_node list \<Rightarrow> node_id set" where
  "childless ns = {i \<in> n_id ` set ns. \<forall>n \<in> set ns. i \<notin> set (tx_parents (n_tx n))}"

lemma childless_snoc:
  assumes "linked {} (ns @ [n])"
  shows "childless (ns @ [n]) = insert (n_id n) (childless ns - set (tx_parents (n_tx n)))"
proof -
  have lk: "linked {} ns" and new: "n_id n \<notin> n_id ` set ns" "set (tx_parents (n_tx n)) \<subseteq> n_id ` set ns"
    using assms by (simp_all add: linked_snoc)
  have none: "n_id n \<notin> set (tx_parents (n_tx m))" if "m = n \<or> m \<in> set ns" for m
    using that new linked_parents [OF lk, of m] by auto
  have "i \<in> childless (ns @ [n]) \<longleftrightarrow> i = n_id n \<or> i \<in> childless ns \<and> i \<notin> set (tx_parents (n_tx n))" for i
  proof (cases "i = n_id n")
    case True
    with none show ?thesis by (simp add: childless_def)
  next
    case False
    then have "i \<in> n_id ` set (ns @ [n]) \<longleftrightarrow> i \<in> n_id ` set ns" by simp
    with False show ?thesis by (simp add: childless_def) blast
  qed
  then show ?thesis by blast
qed

section \<open>Views\<close>

definition views :: "state_caches \<Rightarrow> (string \<rightharpoonup> map_winner) \<times> (string \<rightharpoonup> map_winner) \<times> (string \<rightharpoonup> list_cache_state) \<times> hash set" where
  "views sc = (sc_map_all sc, sc_map_canonical sc, sc_lists sc, sc_blob_hashes sc)"

lemma views_op: "views sc = views sd \<Longrightarrow> views (update_cache_op tx c op sc) = views (update_cache_op tx c op sd)"
  by (cases op) (simp_all add: views_def cache_simps)

lemma views_arrive:
  assumes "views sc = views sd"
  shows "views (arrive a sc) = views (arrive a sd)"
proof -
  have "views (fold (update_cache_op tx c) ops sc) = views (fold (update_cache_op tx c) ops sd)" for tx c ops
    using assms
  proof (induction ops arbitrary: sc sd)
    case (Cons op ops)
    from Cons.IH [OF views_op [OF Cons.prems]] show ?case by simp
  qed simp
  then show ?thesis using assms by (simp add: update_state_caches_def)
qed

definition arrivals :: "state_graph \<Rightarrow> (sync_node \<times> bool) list" where
  "arrivals g = map (\<lambda>n. (n, n_id n \<notin> g_local_node_ids g)) (all_nodes g)"

section \<open>The invariant\<close>

definition authentic :: "env \<Rightarrow> node_id \<Rightarrow> bool" where
  "authentic e i \<longleftrightarrow> (\<exists>n. n_id n = i \<and> tx_hash e (n_tx n) = i \<and> verify_signature e n = Inr ())"

definition graph_ok :: "env \<Rightarrow> state_graph \<Rightarrow> bool" where
  "graph_ok e g \<longleftrightarrow>
     mns_ok (g_nodes g) \<and> linked {} (all_nodes g) \<and> g_leaves g = childless (all_nodes g)
     \<and> frontier_ok (g_frontier g) \<and> set (heads (g_frontier g)) = g_leaves g
     \<and> (\<forall>n \<in> set (all_nodes g). n_id n = tx_hash e (n_tx n))
     \<and> g_local_node_ids g \<subseteq> n_id ` set (all_nodes g)
     \<and> n_id ` set (all_nodes g) \<subseteq> g_verified_ids g
     \<and> (\<forall>i \<in> g_verified_ids g. authentic e i)
     \<and> views (g_state_caches g) = views (fold arrive (arrivals g) state_caches_default)
     \<and> stream_ok (set (all_nodes g)) (g_state_caches g)"

lemma graph_ok_dag:
  assumes "graph_ok e h" "dag g = dag h"
  shows "graph_ok e g"
  using assms(1) unfolding graph_ok_def all_nodes_def arrivals_def dag_eqD [OF assms(2)] .

lemma graph_ok_new: "graph_ok e graph_new"
  by (simp add: graph_ok_def graph_new_def graph_with_store_def mns_new_def mns_ok_def all_nodes_def mns_all_ids_def
      List.map_filter_simps childless_def arrivals_def stream_ok_default)

lemma graph_ok_verified:
  assumes "graph_ok e g" "authentic e i"
  shows "graph_ok e (g\<lparr>g_verified_ids := insert i (g_verified_ids g)\<rparr>)"
proof -
  let ?h = "g\<lparr>g_verified_ids := insert i (g_verified_ids g)\<rparr>"
  have eq: "all_nodes ?h = all_nodes g" "arrivals ?h = arrivals g" by (simp_all add: all_nodes_def arrivals_def)
  show ?thesis
    using assms unfolding graph_ok_def eq by (elim conjE, intro conjI) (simp_all add: subset_insertI2)
qed

lemma graph_ok_caches:
  assumes "graph_ok e g" "views c = views (g_state_caches g)" "stream_ok (set (all_nodes g)) c"
  shows "graph_ok e (g\<lparr>g_state_caches := c\<rparr>)"
proof -
  let ?h = "g\<lparr>g_state_caches := c\<rparr>"
  have eq: "all_nodes ?h = all_nodes g" "arrivals ?h = arrivals g" by (simp_all add: all_nodes_def arrivals_def)
  show ?thesis
    using assms unfolding graph_ok_def eq by (elim conjE, intro conjI) simp_all
qed

lemma graph_ok_admit:
  assumes ok: "graph_ok e g" and new: "\<not> mns_contains (g_nodes g) (n_id node)"
    and par: "set (tx_parents (n_tx node)) \<subseteq> n_id ` set (all_nodes g)" and hash: "n_id node = tx_hash e (n_tx node)"
    and auth: "authentic e (n_id node)" and put: "mns_put node (g_nodes g) = Inr (g_nodes h)"
    and leaves: "g_leaves h = insert (n_id node) (g_leaves g - set (tx_parents (n_tx node)))"
    and front: "g_frontier h = advance node (g_frontier g)"
    and caches: "g_state_caches h = update_state_caches node c (g_state_caches g)"
    and locals: "g_local_node_ids h = (if c then g_local_node_ids g else insert (n_id node) (g_local_node_ids g))"
    and verified: "g_verified_ids h = insert (n_id node) (g_verified_ids g)"
  shows "graph_ok e h"
proof -
  have mok: "mns_ok (g_nodes g)" using ok by (simp add: graph_ok_def)
  have l0: "g_local_node_ids g \<subseteq> n_id ` set (all_nodes g)" "n_id ` set (all_nodes g) \<subseteq> g_verified_ids g"
    using ok unfolding graph_ok_def by blast+
  note h = all_nodes_put [OF mok new put]
  have fresh: "n_id node \<notin> n_id ` set (all_nodes g)" using new contains_all_nodes [OF mok] by simp
  have lk: "linked {} (all_nodes h)" using ok par fresh by (auto simp: h(1) linked_snoc graph_ok_def)
  have lv: "g_leaves h = childless (all_nodes h)"
    using childless_snoc [of "all_nodes g" node] lk ok by (simp add: h(1) leaves graph_ok_def)
  have fr: "frontier_ok (g_frontier h)" "set (heads (g_frontier h)) = g_leaves h"
    using advance_ok [of "g_frontier g" node] ok by (simp_all add: front leaves graph_ok_def)
  have "n_id node \<notin> g_local_node_ids g" using l0(1) fresh by blast
  then have "arrivals h = arrivals g @ [(node, c)]"
    using fresh by (auto simp: arrivals_def h(1) locals image_iff)
  moreover have "views (arrive (node, c) (g_state_caches g)) = views (arrive (node, c) (fold arrive (arrivals g) state_caches_default))"
    by (rule views_arrive) (use ok in \<open>simp add: graph_ok_def\<close>)
  ultimately have vw: "views (g_state_caches h) = views (fold arrive (arrivals h) state_caches_default)"
    by (simp add: caches)
  have st: "stream_ok (set (all_nodes h)) (g_state_caches h)"
    using stream_ok_arrive [of "set (all_nodes g)" "g_state_caches g" node c] ok by (simp add: graph_ok_def h(1) caches)
  have hs: "\<forall>n \<in> set (all_nodes h). n_id n = tx_hash e (n_tx n)" using ok hash by (simp add: graph_ok_def h(1))
  have lc: "g_local_node_ids h \<subseteq> n_id ` set (all_nodes h)" "n_id ` set (all_nodes h) \<subseteq> g_verified_ids h"
    using l0 by (auto simp: h(1) locals verified)
  have au: "\<forall>i \<in> g_verified_ids h. authentic e i" using ok auth by (simp add: graph_ok_def verified)
  show ?thesis unfolding graph_ok_def by (intro conjI h(2) lk lv fr hs lc au vw st)
qed

section \<open>Admission\<close>

definition admitted :: "sync_node \<Rightarrow> bool \<Rightarrow> state_graph \<Rightarrow> state_graph" where
  "admitted node c g = g\<lparr>g_nodes := (g_nodes g)\<lparr>mns_data := AList.update (n_id node) node (mns_data (g_nodes g))\<rparr>,
     g_leaves := insert (n_id node) (g_leaves g - set (tx_parents (n_tx node))),
     g_frontier := advance node (g_frontier g),
     g_lamport := max (g_lamport g) (tx_lamport (n_tx node)),
     g_state_caches := update_state_caches node c (g_state_caches g)\<rparr>"

lemma fold_remove: "fold (\<lambda>p S. S - {p}) ps S = S - set ps"
  by (induction ps arbitrary: S) auto

lemma insert_node_spec:
  "insert_node node g =
     (if mns_contains (g_nodes g) (n_id node) then (Inl (DuplicateNode (n_id node)), g)
      else (Inr (), (admitted node c g)\<lparr>g_state_caches := g_state_caches g\<rparr>))"
  by (simp add: insert_node_def Let_def mns_put_def admitted_def fold_remove max_def not_less)

lemma no_projection_spec:
  "apply_remote_verified_no_projection node g =
     (case find (\<lambda>parent. \<not> mns_contains (g_nodes g) parent) (tx_parents (n_tx node)) of
        Some parent \<Rightarrow> (Inl (MissingParent parent), g)
      | None \<Rightarrow>
          (case policy_check (g_policy g) node of
             Inl er \<Rightarrow> (Inl er, g)
           | Inr _ \<Rightarrow> if mns_contains (g_nodes g) (n_id node) then (Inl (DuplicateNode (n_id node)), g)
                       else (Inr (), admitted node True g)))"
  by (simp add: apply_remote_verified_no_projection_def insert_node_spec [where c = True] admitted_def
      split: option.split sum.split)

lemma no_projection_cases:
  assumes "apply_remote_verified_no_projection node g = (r, h)"
  obtains (rejected) er where "r = Inl er" "h = g"
  | (accepted) "r = Inr ()" "h = admitted node True g" "\<not> mns_contains (g_nodes g) (n_id node)"
      "\<forall>p \<in> set (tx_parents (n_tx node)). mns_contains (g_nodes g) p" "policy_check (g_policy g) node = Inr ()"
  using assms
  by (cases "policy_check (g_policy g) node")
    (auto simp: no_projection_spec find_None_iff split: option.splits if_splits, metis)

lemma graph_ok_admitted:
  assumes ok: "graph_ok e g" and new: "\<not> mns_contains (g_nodes g) (n_id node)"
    and par: "\<forall>p \<in> set (tx_parents (n_tx node)). mns_contains (g_nodes g) p"
    and hash: "n_id node = tx_hash e (n_tx node)" and auth: "authentic e (n_id node)"
    and h: "dag h = dag ((admitted node c g)\<lparr>g_verified_ids := insert (n_id node) (g_verified_ids g),
      g_local_node_ids := (if c then g_local_node_ids g else insert (n_id node) (g_local_node_ids g))\<rparr>)"
  shows "graph_ok e h"
proof (rule graph_ok_admit [OF ok new])
  have "mns_ok (g_nodes g)" using ok by (simp add: graph_ok_def)
  then show "set (tx_parents (n_tx node)) \<subseteq> n_id ` set (all_nodes g)"
    using par by (auto simp: contains_all_nodes)
  show "mns_put node (g_nodes g) = Inr (g_nodes h)" using dag_eqD [OF h] by (simp add: mns_put_def admitted_def)
qed (use hash auth dag_eqD [OF h] in \<open>simp_all add: admitted_def\<close>)

lemma finite_childless: "finite (childless ns)"
  by (simp add: childless_def)

lemma graph_ok_lamport: "graph_ok e (g\<lparr>g_lamport := l\<rparr>) = graph_ok e g"
  by (simp add: graph_ok_def all_nodes_def arrivals_def)

lemma leaves_contained:
  assumes "graph_ok e g" "i \<in> g_leaves g"
  shows "mns_contains (g_nodes g) i"
  using assms by (auto simp: graph_ok_def contains_all_nodes childless_def)

text \<open>The node a local transaction creates.\<close>

definition local_node :: "env \<Rightarrow> seed \<Rightarrow> u64 \<Rightarrow> op list \<Rightarrow> state_graph \<Rightarrow> sync_node" where
  "local_node e sk wall ops g =
     (let tx = \<lparr>tx_author = ed_public e sk, tx_lamport = g_lamport g + 1, tx_wall_ms = wall, tx_ops = ops,
               tx_parents = set_iter e (g_leaves g)\<rparr>
      in if g_local_signing g then sync_node_new_signed e tx sk else sync_node_new e tx)"

lemma local_node_fields [simp]:
  "tx_author (n_tx (local_node e sk wall ops g)) = ed_public e sk"
  "tx_lamport (n_tx (local_node e sk wall ops g)) = g_lamport g + 1"
  "tx_wall_ms (n_tx (local_node e sk wall ops g)) = wall"
  "tx_ops (n_tx (local_node e sk wall ops g)) = ops"
  "tx_parents (n_tx (local_node e sk wall ops g)) = set_iter e (g_leaves g)"
  "n_id (local_node e sk wall ops g) = tx_hash e (n_tx (local_node e sk wall ops g))"
  by (simp_all add: local_node_def sync_node_new_def sync_node_new_signed_def Let_def)

lemma local_node_verifies: "sign_correct e \<Longrightarrow> verify_signature e (local_node e sk wall ops g) = Inr ()"
  by (simp add: local_node_def verify_signed_node Let_def) (simp add: verify_signature_def sync_node_new_def sig_is_zero_def)

lemma apply_local_spec:
  "apply_local e sk wall ops g =
     (let node = local_node e sk wall ops g;
          g1 = g\<lparr>g_lamport := sat_add (g_lamport g + 1) (sum_list (map extra_insert_ids ops))\<rparr> in
      if mns_contains (g_nodes g) (n_id node) then Ret (Inl (DuplicateNode (n_id node)), g1)
      else map_rust (\<lambda>g3. (Inr (n_id node), g3\<lparr>g_local_node_ids := insert (n_id node) (g_local_node_ids g3),
                                               g_verified_ids := insert (n_id node) (g_verified_ids g3)\<rparr>))
             (update_text_projection_from_node e node (admitted node False g1)))"
proof -
  let ?g1 = "g\<lparr>g_lamport := sat_add (g_lamport g + 1) (sum_list (map extra_insert_ids ops))\<rparr>"
  let ?node = "local_node e sk wall ops g"
  have adm: "(admitted ?node False ?g1)\<lparr>g_state_caches := update_state_caches ?node False (g_state_caches ?g1)\<rparr> = admitted ?node False ?g1"
    by (simp add: admitted_def)
  have "apply_local e sk wall ops g = (case insert_node ?node ?g1 of
       (Inl er, g2) \<Rightarrow> Ret (Inl er, g2)
     | (Inr _, g2) \<Rightarrow> map_rust (\<lambda>g3. (Inr (n_id ?node), g3\<lparr>g_local_node_ids := insert (n_id ?node) (g_local_node_ids g3),
                                               g_verified_ids := insert (n_id ?node) (g_verified_ids g3)\<rparr>))
             (update_text_projection_from_node e ?node (g2\<lparr>g_state_caches := update_state_caches ?node False (g_state_caches g2)\<rparr>)))"
    by (simp add: apply_local_def local_node_def Let_def cong: prod.case_cong sum.case_cong)
  then show ?thesis using adm by (simp add: insert_node_spec [where c = False] Let_def)
qed

section \<open>Batched verification\<close>

lemma concat_chunks: "0 < k \<Longrightarrow> concat (chunks_of k xs) = xs"
  by (induction k xs rule: chunks_of.induct) (subst chunks_of.simps, simp)

lemma verify_chunk_sound:
  assumes "batch_sound e" "\<And>i. i \<in> set indices \<Longrightarrow> \<not> sig_is_zero (n_sig (nodes ! i))"
  shows "\<forall>(i, ok) \<in> set (verify_chunk e nodes indices). ok = (verify_signature e (nodes ! i) = Inr ())"
    "fst ` set (verify_chunk e nodes indices) = set indices"
proof -
  let ?good = "filter (\<lambda>i. vk_ok e (tx_author (n_tx (nodes ! i)))) indices"
  let ?triple = "\<lambda>i. (be_bytes 32 (n_id (nodes ! i)), n_sig (nodes ! i), tx_author (n_tx (nodes ! i)))"
  have "verify_signature e (nodes ! i) = Inr ()"
    if "ed_verify_batch e (map ?triple ?good)" "i \<in> set ?good" for i
  proof -
    have "?triple i \<in> set (map ?triple ?good)" using that(2) by simp
    then have "ed_verify e (tx_author (n_tx (nodes ! i))) (be_bytes 32 (n_id (nodes ! i))) (n_sig (nodes ! i))"
      using assms(1) that(1) unfolding batch_sound_def by blast
    then show ?thesis using that(2) by (simp add: verify_signature_def)
  qed
  moreover have "verify_signature e (nodes ! i) \<noteq> Inr ()" if "i \<in> set indices" "\<not> vk_ok e (tx_author (n_tx (nodes ! i)))" for i
    using that assms(2) by (simp add: verify_signature_def)
  ultimately show "\<forall>(i, ok) \<in> set (verify_chunk e nodes indices). ok = (verify_signature e (nodes ! i) = Inr ())"
    by (auto simp: verify_chunk_def Let_def)
  show "fst ` set (verify_chunk e nodes indices) = set indices"
    by (auto simp: verify_chunk_def Let_def image_Un image_image filter_empty_conv)
qed

lemma length_fold_set: "length (fold (\<lambda>(i, ok) rs. rs[i := ok]) us rs) = length rs"
  by (induction us arbitrary: rs) auto

lemma fold_set_results:
  assumes "\<forall>(i, ok) \<in> set us. ok = f i" "j < length rs"
  shows "fold (\<lambda>(i, ok) rs. rs[i := ok]) us rs ! j = (if j \<in> fst ` set us then f j else rs ! j)"
  using assms
proof (induction us arbitrary: rs)
  case (Cons u us)
  obtain i ok where u: "u = (i, ok)" by fastforce
  then have "fold (\<lambda>(i, ok) rs. rs[i := ok]) us (rs[i := ok]) ! j = (if j \<in> fst ` set us then f j else rs[i := ok] ! j)"
    using Cons.IH [of "rs[i := ok]"] Cons.prems by auto
  with Cons.prems u show ?case by (auto simp: nth_list_update)
qed simp

lemma verify_nodes_batched_spec:
  assumes "batch_sound e"
  shows "verify_nodes_batched e nodes g = map (\<lambda>n. n_id n \<in> g_verified_ids g \<or> verify_signature e n = Inr ()) nodes"
proof -
  let ?ok = "\<lambda>i. verify_signature e (nodes ! i) = Inr ()"
  define need where "need = filter (\<lambda>i. \<not> sig_is_zero (n_sig (nodes ! i)) \<and> n_id (nodes ! i) \<notin> g_verified_ids g) [0..<length nodes]"
  let ?us = "concat (map (verify_chunk e nodes) (chunks_of BATCH_VERIFY_CHUNK need))"
  let ?rs = "fold (\<lambda>(i, ok) rs. rs[i := ok]) ?us (replicate (length nodes) True)"
  have sub: "\<forall>c \<in> set (chunks_of BATCH_VERIFY_CHUNK need). set c \<subseteq> set need"
    using concat_chunks [of BATCH_VERIFY_CHUNK need] by (auto simp: BATCH_VERIFY_CHUNK_def) (metis UN_I set_concat)
  have nz: "\<not> sig_is_zero (n_sig (nodes ! i))" if "i \<in> set need" for i using that by (simp add: need_def)
  have chunk: "\<forall>(i, ok) \<in> set (verify_chunk e nodes c). ok = ?ok i" "fst ` set (verify_chunk e nodes c) = set c"
    if "c \<in> set (chunks_of BATCH_VERIFY_CHUNK need)" for c
    using that sub nz by (intro verify_chunk_sound [OF assms]; blast)+
  have us: "\<forall>(i, ok) \<in> set ?us. ok = ?ok i"
  proof
    fix u assume "u \<in> set ?us"
    then obtain c where c: "c \<in> set (chunks_of BATCH_VERIFY_CHUNK need)" "u \<in> set (verify_chunk e nodes c)" by auto
    show "case u of (i, ok) \<Rightarrow> ok = ?ok i" by (rule bspec [OF chunk(1) [OF c(1)] c(2)])
  qed
  have "fst ` set ?us = (\<Union>c \<in> set (chunks_of BATCH_VERIFY_CHUNK need). fst ` set (verify_chunk e nodes c))"
    by (simp add: image_UN)
  also have "\<dots> = set (concat (chunks_of BATCH_VERIFY_CHUNK need))" using chunk(2) by simp
  finally have "fst ` set ?us = set (concat (chunks_of BATCH_VERIFY_CHUNK need))" .
  then have ids: "fst ` set ?us = set need" by (simp add: concat_chunks BATCH_VERIFY_CHUNK_def)
  have len: "length ?rs = length nodes" by (simp add: length_fold_set)
  have "?rs ! j = (n_id (nodes ! j) \<in> g_verified_ids g \<or> ?ok j)" if "j < length nodes" for j
    using fold_set_results [OF us, of j "replicate (length nodes) True"] that ids
    by (auto simp: need_def verify_signature_def)
  then show ?thesis
    unfolding verify_nodes_batched_def Let_def need_def [symmetric]
    by (intro nth_equalityI) (simp_all add: len)
qed

section \<open>Every step keeps the invariant\<close>

lemma precheck_Inr:
  "precheck e now node g = Inr () \<longleftrightarrow> tx_hash e (n_tx node) = n_id node
     \<and> tx_lamport (n_tx node) \<le> sat_add (g_lamport g) LAMPORT_SLACK
     \<and> (\<forall>t. now = Some t \<longrightarrow> tx_wall_ms (n_tx node) = 0 \<or> tx_wall_ms (n_tx node) \<le> sat_add t WALL_SKEW_MAX_MS)"
  by (auto simp: precheck_def check_lamport_ceiling_def check_wall_skew_def Let_def split: option.split)

lemma authentic_verified:
  "graph_ok e g \<Longrightarrow> tx_hash e (n_tx n) = n_id n \<Longrightarrow> n_id n \<in> g_verified_ids g \<or> verify_signature e n = Inr ()
   \<Longrightarrow> authentic e (n_id n)"
  by (auto simp: graph_ok_def authentic_def)

lemma insert_member: "x \<in> S \<Longrightarrow> insert x S = S"
  by blast

lemma graph_ok_no_projection:
  assumes ok: "graph_ok e g" and hash: "tx_hash e (n_tx node) = n_id node" and ver: "n_id node \<in> g_verified_ids g"
    and r: "apply_remote_verified_no_projection node g = (r, h)"
  shows "graph_ok e h"
  using r
proof (cases rule: no_projection_cases)
  case accepted
  have "dag h = dag ((admitted node True g)\<lparr>g_verified_ids := insert (n_id node) (g_verified_ids g),
      g_local_node_ids := (if True then g_local_node_ids g else insert (n_id node) (g_local_node_ids g))\<rparr>)"
    using accepted(2) ver by (simp add: dag_def admitted_def insert_member)
  from graph_ok_admitted [OF ok accepted(3,4) hash [symmetric] authentic_verified [OF ok hash] this] ver
  show ?thesis by simp
qed (use ok in simp)

lemma graph_ok_remote:
  assumes ok: "graph_ok e g" and r: "apply_remote_checked e node now g = Ret (u, g')"
  shows "graph_ok e g'"
proof -
  have verified: "graph_ok e g'"
    if "graph_ok e h" "tx_hash e (n_tx node) = n_id node" "n_id node \<in> g_verified_ids h" "apply_remote_verified e node h = Ret (u, g')" for h
  proof -
    obtain r h1 where h1: "apply_remote_verified_no_projection node h = (r, h1)" by fastforce
    have "dag g' = dag h1" using that(4) h1 by (auto simp: apply_remote_verified_def dest: dag_update_projection split: sum.splits)
    with graph_ok_no_projection [OF that(1-3) h1] show ?thesis by (rule graph_ok_dag)
  qed
  show ?thesis
  proof (cases "precheck e now node g")
    case (Inr x)
    then have hash: "tx_hash e (n_tx node) = n_id node" using precheck_Inr by (metis old.unit.exhaust)
    show ?thesis
    proof (cases "n_id node \<in> g_verified_ids g")
      case True
      with r Inr verified [OF ok hash] show ?thesis by (simp add: apply_remote_checked_def)
    next
      case False
      then show ?thesis
      proof (cases "verify_signature e node")
        case (Inr y)
        let ?h = "g\<lparr>g_verified_ids := insert (n_id node) (g_verified_ids g)\<rparr>"
        have "authentic e (n_id node)" using authentic_verified [OF ok hash] Inr by simp
        from graph_ok_verified [OF ok this] have "graph_ok e ?h" .
        moreover have "apply_remote_verified e node ?h = Ret (u, g')"
          using r Inr False \<open>precheck e now node g = Inr x\<close> by (simp add: apply_remote_checked_def)
        ultimately show ?thesis using verified [of ?h] hash by simp
      qed (use r ok False Inr in \<open>simp add: apply_remote_checked_def\<close>)
    qed
  qed (use r ok in \<open>simp add: apply_remote_checked_def\<close>)
qed

lemma batch_filter_prechecked:
  "batch_filter e now g seen nodes = (rejected, tv) \<Longrightarrow>
   \<forall>n \<in> set tv. n \<in> set nodes \<and> n_id n \<notin> seen \<and> \<not> mns_contains (g_nodes g) (n_id n) \<and> precheck e now n g = Inr ()"
proof (induction nodes arbitrary: seen rejected tv)
  case (Cons node nodes)
  obtain rj tv' where rec: "batch_filter e now g (insert (n_id node) seen) nodes = (rj, tv')" by fastforce
  from Cons.IH [OF rec] Cons.prems rec show ?case
    by (cases "precheck e now node g") (auto split: if_splits)
qed simp

lemma graph_ok_batch_apply:
  "graph_ok e g \<Longrightarrow> \<forall>(n, ok) \<in> set xs. ok \<longrightarrow> tx_hash e (n_tx n) = n_id n \<and> authentic e (n_id n)
   \<Longrightarrow> batch_apply xs g = (rejected, accepted, g') \<Longrightarrow> graph_ok e g'"
proof (induction xs arbitrary: g rejected accepted)
  case (Cons x rest)
  obtain node ok where x: "x = (node, ok)" by fastforce
  show ?case
  proof (cases ok)
    case True
    let ?h = "g\<lparr>g_verified_ids := insert (n_id node) (g_verified_ids g)\<rparr>"
    obtain r h1 where h1: "apply_remote_verified_no_projection node ?h = (r, h1)" by fastforce
    have "graph_ok e ?h" using graph_ok_verified [OF Cons.prems(1)] Cons.prems(2) True x by simp
    then have "graph_ok e h1" using graph_ok_no_projection [OF _ _ _ h1] Cons.prems(2) True x by simp
    moreover obtain rj ac where "batch_apply rest h1 = (rj, ac, g')"
      using Cons.prems(3) True h1 x by (auto split: sum.splits prod.splits)
    ultimately show ?thesis using Cons.IH Cons.prems(2) by simp
  next
    case False
    then obtain rj ac where "batch_apply rest g = (rj, ac, g')"
      using Cons.prems(3) x by (auto split: prod.splits)
    then show ?thesis using Cons.IH Cons.prems(1,2) by simp
  qed
qed simp

lemma graph_ok_batch:
  assumes "batch_sound e" and ok: "graph_ok e g" and r: "apply_remote_batch_checked e nodes now g = Ret (b, g')"
  shows "graph_ok e g'"
proof -
  obtain rj tv where f: "batch_filter e now g {} nodes = (rj, tv)" by fastforce
  let ?ok = "\<lambda>n. n_id n \<in> g_verified_ids g \<or> verify_signature e n = Inr ()"
  have z: "zip tv (map ?ok tv) = map (\<lambda>n. (n, ?ok n)) tv" by (simp add: zip_map2 zip_same_conv_map)
  obtain rj2 ac g1 where a: "batch_apply (map (\<lambda>n. (n, ?ok n)) tv) g = (rj2, ac, g1)"
    by (cases "batch_apply (map (\<lambda>n. (n, ?ok n)) tv) g") auto
  have "tx_hash e (n_tx n) = n_id n" if "n \<in> set tv" for n
    using batch_filter_prechecked [OF f] that precheck_Inr by blast
  then have "\<forall>(n, ok) \<in> set (map (\<lambda>n. (n, ?ok n)) tv). ok \<longrightarrow> tx_hash e (n_tx n) = n_id n \<and> authentic e (n_id n)"
    using authentic_verified [OF ok] by simp
  then have "graph_ok e g1" using graph_ok_batch_apply [OF ok _ a] by blast
  moreover have "dag g' = dag g1"
    using r f a by (auto simp: apply_remote_batch_checked_def verify_nodes_batched_spec [OF assms(1)] z dest: dag_update_batch)
  ultimately show ?thesis by (rule graph_ok_dag)
qed

lemma graph_ok_local:
  assumes env: "sign_correct e" "iter_enumerates e" and ok: "graph_ok e g" and r: "apply_local e sk wall ops g = Ret (u, g')"
  shows "graph_ok e g'"
proof -
  let ?node = "local_node e sk wall ops g"
  let ?g1 = "g\<lparr>g_lamport := sat_add (g_lamport g + 1) (sum_list (map extra_insert_ids ops))\<rparr>"
  have ok1: "graph_ok e ?g1" using ok by (simp add: graph_ok_lamport)
  show ?thesis
  proof (cases "mns_contains (g_nodes g) (n_id ?node)")
    case True
    with r ok1 show ?thesis by (simp add: apply_local_spec Let_def)
  next
    case False
    obtain g3 where g3: "update_text_projection_from_node e ?node (admitted ?node False ?g1) = Ret g3"
      "g' = g3\<lparr>g_local_node_ids := insert (n_id ?node) (g_local_node_ids g3), g_verified_ids := insert (n_id ?node) (g_verified_ids g3)\<rparr>"
      using r False by (auto simp: apply_local_spec Let_def)
    note d = dag_eqD [OF dag_update_projection [OF g3(1)]]
    show ?thesis
    proof (rule graph_ok_admitted [OF ok1, where c = False and node = ?node])
      have "finite (g_leaves g)" using ok finite_childless by (simp add: graph_ok_def)
      then show "\<forall>p \<in> set (tx_parents (n_tx ?node)). mns_contains (g_nodes ?g1) p"
        using env(2) leaves_contained [OF ok] by (simp add: iter_enumerates_def)
      show "authentic e (n_id ?node)" using local_node_verifies [OF env(1)] unfolding authentic_def by (metis local_node_fields(6))
      show "dag g' = dag ((admitted ?node False ?g1)\<lparr>g_verified_ids := insert (n_id ?node) (g_verified_ids ?g1),
          g_local_node_ids := (if False then g_local_node_ids ?g1 else insert (n_id ?node) (g_local_node_ids ?g1))\<rparr>)"
        using d by (simp add: g3(2) dag_def admitted_def)
    qed (use False in simp_all)
  qed
qed

lemma graph_ok_step:
  assumes "sign_correct e" "batch_sound e" "iter_enumerates e" "graph_step e g g'" "graph_ok e g"
  shows "graph_ok e g'"
  using assms(4,5)
proof cases
  case (local_step sk wall ops r)
  with graph_ok_local assms show ?thesis by blast
next
  case (range_step sk wall rop rs)
  then obtain an g1 r g2 where "canonical_anchor (text_op_key (range_text_op rop)) (range_op_anchor rop) g = Ret (an, g1)"
    "apply_local e sk wall [OpText (with_anchor rop an)] g1 = Ret (r, g')"
    by (auto simp: apply_local_text_range_op_def)
  then show ?thesis using graph_ok_local assms(1,3,5) graph_ok_dag dag_canonical_anchor by blast
next
  case (remote_step node now u)
  with graph_ok_remote assms show ?thesis by blast
next
  case (batch_step nodes now b)
  with graph_ok_batch assms show ?thesis by blast
next
  case (stream_step s)
  moreover have "stream_ok (set (all_nodes g)) (g_state_caches g)" using assms(5) by (simp add: graph_ok_def)
  ultimately show ?thesis
    by (simp add: set_conflict_stream_enabled_def graph_ok_caches [OF assms(5)] views_def stream_ok_def)
next
  case drain_step
  moreover have "stream_ok (set (all_nodes g)) (g_state_caches g)" using assms(5) by (simp add: graph_ok_def)
  ultimately show ?thesis
    by (simp add: drain_pending_conflicts_def graph_ok_caches [OF assms(5)] views_def stream_ok_def)
next
  case (mode_step m)
  with assms(5) show ?thesis by (blast intro: graph_ok_dag dag_mode)
next
  case (ensure_step key b)
  with assms(5) show ?thesis by (blast intro: graph_ok_dag dag_ensure)
next
  case (read_seq_step key s)
  with assms(5) show ?thesis by (blast intro: graph_ok_dag dag_reads)
next
  case (read_text_step key t)
  with assms(5) show ?thesis by (blast intro: graph_ok_dag dag_reads)
next
  case (read_range_step key start len t)
  with assms(5) show ?thesis by (blast intro: graph_ok_dag dag_ranged_reads)
next
  case (read_anchor_step key off a)
  with assms(5) show ?thesis by (blast intro: graph_ok_dag dag_ranged_reads)
next
  case (read_offset_step key a off)
  with assms(5) show ?thesis by (blast intro: graph_ok_dag dag_ranged_reads)
qed (use assms(5) in \<open>auto elim!: graph_ok_dag simp: set_policy_def set_local_signing_def set_text_parity_sample_every_def
    set_text_parity_selected_keys_def set_text_runtime_temperature_thresholds_def set_text_projection_residency_policy_def
    demote_text_projection_key_def compact_text_projection_key_def reset_text_runtime_counters_def
    reset_text_apply_runtime_counters_def Let_def\<close>)

definition env_ok :: "env \<Rightarrow> bool" where
  "env_ok e \<longleftrightarrow> sign_correct e \<and> batch_sound e \<and> iter_enumerates e"

lemma env_ok_sample: "env_ok sample_env"
  by (simp add: env_ok_def sample_env_ok)

lemma graph_reach_ok: "env_ok e \<Longrightarrow> graph_reach e g \<Longrightarrow> graph_ok e g"
  by (rotate_tac, induction rule: graph_reach.induct) (auto simp: graph_ok_new env_ok_def intro: graph_ok_step)

end
