(* ===== verification/Graph_Props.thy ===== *)
theory Graph_Props
  imports Graph_Inv
begin

text \<open>
  What a peer's graph promises: the shape of the node graph, views equal to replay, convergence of
  peers that hold the same transactions, admission and its errors, batches, clocks and conflicts.
\<close>

section \<open>Views and replay\<close>

lemma filter_arrivals: "map fst (filter snd (arrivals g)) = filter (\<lambda>n. n_id n \<notin> g_local_node_ids g) (all_nodes g)"
  by (simp add: arrivals_def filter_map comp_def)

lemma map_fst_arrivals: "map fst (arrivals g) = all_nodes g"
  by (simp add: arrivals_def comp_def)

lemma get_filtered:
  assumes "mns_ok (g_nodes g)"
  shows "List.map_filter (mns_get (g_nodes g)) (filter P (mns_all_ids (g_nodes g))) = filter (\<lambda>n. P (n_id n)) (all_nodes g)"
proof -
  have "List.map_filter f (filter P xs) = filter (\<lambda>n. P (n_id n)) (List.map_filter f xs)"
    if "\<And>i n. i \<in> set xs \<Longrightarrow> f i = Some n \<Longrightarrow> n_id n = i" for f :: "node_id \<Rightarrow> sync_node option" and xs
    using that by (induction xs) (auto simp: List.map_filter_simps split: option.splits)
  then show ?thesis using memory_nodes.get_id [OF assms] by (simp add: all_nodes_def)
qed

lemma graph_ok_views:
  assumes "graph_ok e g"
  shows "graph_resolve g = replay_map (all_nodes g)"
    "resolve_canonical g = replay_map (filter (\<lambda>n. n_id n \<notin> g_local_node_ids g) (all_nodes g))"
    "resolve_list g key = resolve_list_seq (counted (all_nodes g)) key"
    "referenced_blob_hashes g = (\<Union>n \<in> set (counted (all_nodes g)). node_blobs n)"
proof -
  let ?sc = "fold arrive (arrivals g) state_caches_default"
  have v: "sc_map_all (g_state_caches g) = sc_map_all ?sc" "sc_map_canonical (g_state_caches g) = sc_map_canonical ?sc"
    "sc_lists (g_state_caches g) = sc_lists ?sc" "sc_blob_hashes (g_state_caches g) = sc_blob_hashes ?sc"
    using assms by (simp_all add: graph_ok_def views_def)
  show "graph_resolve g = replay_map (all_nodes g)"
    by (simp add: graph_resolve_def v map_cache_replay map_fst_arrivals)
  show "resolve_canonical g = replay_map (filter (\<lambda>n. n_id n \<notin> g_local_node_ids g) (all_nodes g))"
    by (simp add: resolve_canonical_def v map_cache_replay filter_arrivals)
  show "resolve_list g key = resolve_list_seq (counted (all_nodes g)) key"
    by (simp add: resolve_list_def v list_cache_replay map_fst_arrivals)
  show "referenced_blob_hashes g = (\<Union>n \<in> set (counted (all_nodes g)). node_blobs n)"
    by (simp add: referenced_blob_hashes_def v blob_cache_replay map_fst_arrivals)
qed

lemma resolve_replay_nodes:
  assumes "graph_ok e g"
  shows "resolve_replay g skip = replay_map (filter (\<lambda>n. \<not> (skip \<and> n_id n \<in> g_local_node_ids g)) (all_nodes g))"
proof -
  have "mns_ok (g_nodes g)" using assms by (simp add: graph_ok_def)
  from get_filtered [OF this, of "\<lambda>i. \<not> (skip \<and> i \<in> g_local_node_ids g)"] show ?thesis
    by (simp add: resolve_replay_def)
qed

section \<open>Signatures do not reach the state\<close>

definition bare :: "sync_node \<Rightarrow> sync_node" where
  "bare n = n\<lparr>n_sig := 0\<rparr>"

lemma bare_fields [simp]: "n_tx (bare n) = n_tx n" "n_id (bare n) = n_id n"
  by (simp_all add: bare_def)

lemma bare_list_seq [simp]: "list_seq_node key (bare n) = list_seq_node key n"
  by (simp add: list_seq_node_def fun_eq_iff)

lemma bare_views:
  "replay_map (map bare ns) = replay_map ns" "resolve_list_seq (map bare ns) key = resolve_list_seq ns key"
  "counted (map bare ns) = map bare (counted ns)" "node_blobs (bare n) = node_blobs n"
  by (simp_all add: replay_map_def resolve_list_seq_def fold_map comp_def counted_def filter_map node_blobs_def)

lemma bare_eqI:
  assumes "n_id m = tx_hash e (n_tx m)" "n_id n = tx_hash e (n_tx n)" "n_tx m = n_tx n"
  shows "bare m = bare n"
  using assms by (simp add: bare_def)

abbreviation transactions :: "state_graph \<Rightarrow> transaction set" where
  "transactions g \<equiv> n_tx ` set (all_nodes g)"

lemma bare_nodes:
  assumes "graph_ok e g" "graph_ok e h" "transactions g = transactions h"
  shows "bare ` set (all_nodes g) = bare ` set (all_nodes h)"
proof -
  have "bare ` set (all_nodes a) \<subseteq> bare ` set (all_nodes b)"
    if ab: "graph_ok e a" "graph_ok e b" "transactions a = transactions b" for a b
  proof
    fix x assume "x \<in> bare ` set (all_nodes a)"
    then obtain m where m: "m \<in> set (all_nodes a)" "x = bare m" by blast
    then obtain n where n: "n \<in> set (all_nodes b)" "n_tx n = n_tx m" using ab(3) by (metis imageE imageI)
    have "n_id m = tx_hash e (n_tx m)" "n_id n = tx_hash e (n_tx n)"
      using ab(1,2) m(1) n(1) by (simp_all add: graph_ok_def)
    from m(2) bare_eqI [OF this n(2) [symmetric]] have "x = bare n" by (rule trans)
    with n(1) show "x \<in> bare ` set (all_nodes b)" by (rule rev_image_eqI)
  qed
  from this [OF assms] this [OF assms(2,1) assms(3) [symmetric]] show ?thesis by blast
qed

lemma same_transactions_same_state:
  assumes g: "graph_ok e g" and h: "graph_ok e h" and tx: "transactions g = transactions h"
    and inj: "inj_on (\<lambda>tx. (tx_lamport tx, tx_author tx)) (transactions g)"
  shows "graph_resolve g = graph_resolve h" "resolve_list g key = resolve_list h key"
    "referenced_blob_hashes g = referenced_blob_hashes h" "g_leaves g = g_leaves h" "g_frontier g = g_frontier h"
proof -
  let ?gs = "map bare (all_nodes g)" and ?hs = "map bare (all_nodes h)"
  have s: "set ?gs = set ?hs" using bare_nodes [OF g h tx] by simp
  have "inj_on (\<lambda>n. n_prio n) (set ?gs)"
  proof (rule inj_onI)
    fix x y assume "x \<in> set ?gs" "y \<in> set ?gs" "n_prio x = n_prio y"
    then obtain m n where "m \<in> set (all_nodes g)" "n \<in> set (all_nodes g)" "x = bare m" "y = bare n" "n_prio m = n_prio n" by auto
    moreover have "n_tx m = n_tx n" using calculation inj by (simp add: inj_on_def)
    moreover have "n_id m = tx_hash e (n_tx m)" "n_id n = tx_hash e (n_tx n)" using calculation g by (simp_all add: graph_ok_def)
    ultimately show "x = y" using bare_eqI [of m e n] by metis
  qed
  note i = this
  then have ic: "inj_on (\<lambda>n. n_prio n) (set (counted ?gs))" by (rule inj_on_subset) (auto simp: counted_def)
  have sc: "set (counted ?gs) = set (counted ?hs)" using s by (simp only: counted_def set_filter)
  show "graph_resolve g = graph_resolve h"
    using replay_map_set [OF i s] by (simp add: graph_ok_views [OF g] graph_ok_views [OF h] bare_views)
  have "resolve_list_seq (counted ?gs) key = resolve_list_seq (counted ?hs) key"
    unfolding resolve_list_seq_canonical using fold_item_node_set [OF ic sc] by simp
  then show "resolve_list g key = resolve_list h key"
    by (simp add: graph_ok_views [OF g] graph_ok_views [OF h] bare_views)
  have "(\<Union>n \<in> set (counted ?gs). node_blobs n) = (\<Union>n \<in> set (counted ?hs). node_blobs n)" using sc by simp
  then show "referenced_blob_hashes g = referenced_blob_hashes h"
    by (simp add: graph_ok_views [OF g] graph_ok_views [OF h] bare_views image_image)
  have "childless (map bare ns) = childless ns" for ns by (simp add: childless_def image_image)
  moreover have "childless ?gs = childless ?hs" using s by (simp only: childless_def)
  ultimately show lv: "g_leaves g = g_leaves h" using g h by (simp add: graph_ok_def)
  show "g_frontier g = g_frontier h" by (rule frontier_eqI) (use g h lv in \<open>simp_all add: graph_ok_def\<close>)
qed

section \<open>Leaves determine the graph\<close>

lemma child_later:
  assumes "linked {} (pre @ n # suf)" "m \<in> set (pre @ n # suf)" "n_id n \<in> set (tx_parents (n_tx m))"
  shows "m \<in> set suf"
proof -
  have split: "linked S (xs @ ys) \<longleftrightarrow> linked S xs \<and> linked (S \<union> n_id ` set xs) ys" for S xs ys
    by (induction xs arbitrary: S) auto
  have pre: "linked {} pre" "set (tx_parents (n_tx n)) \<subseteq> n_id ` set pre" "n_id n \<notin> n_id ` set pre"
    using assms(1) by (simp_all add: split)
  then have "m \<notin> set pre" "m \<noteq> n" using linked_parents [OF pre(1), of m] assms(3) by auto
  with assms(2) show ?thesis by auto
qed

lemma leaves_determine_ids:
  assumes g: "graph_ok e g" and h: "graph_ok e h" and lv: "g_leaves g = g_leaves h"
    and inj: "\<And>m n. m \<in> set (all_nodes g) \<Longrightarrow> n \<in> set (all_nodes h) \<Longrightarrow> n_id m = n_id n \<Longrightarrow> n_tx m = n_tx n"
  shows "transactions g \<subseteq> transactions h"
proof -
  have hp: "set (tx_parents (n_tx n)) \<subseteq> n_id ` set (all_nodes h)" if "n \<in> set (all_nodes h)" for n
    using h linked_parents [of "{}" "all_nodes h" n] that by (simp add: graph_ok_def)
  have "all_nodes g = pre @ suf \<Longrightarrow> n_id ` set suf \<subseteq> n_id ` set (all_nodes h)" for pre suf
  proof (induction suf arbitrary: pre)
    case (Cons n suf)
    have IH: "n_id ` set suf \<subseteq> n_id ` set (all_nodes h)" using Cons.IH [of "pre @ [n]"] Cons.prems by simp
    have "n_id n \<in> n_id ` set (all_nodes h)"
    proof (cases "n_id n \<in> g_leaves g")
      case True
      then show ?thesis using h lv by (simp add: graph_ok_def childless_def)
    next
      case False
      then obtain m where m: "m \<in> set (all_nodes g)" "n_id n \<in> set (tx_parents (n_tx m))"
        using g Cons.prems by (auto simp: graph_ok_def childless_def)
      have "m \<in> set suf" by (rule child_later [of pre n suf]) (use g Cons.prems m in \<open>simp_all add: graph_ok_def\<close>)
      with IH obtain k where "k \<in> set (all_nodes h)" "n_id m = n_id k" by blast
      then show ?thesis using inj [of m k] m hp [of k] by auto
    qed
    with IH show ?case by simp
  qed simp
  from this [of "[]" "all_nodes g"] have ids: "n_id ` set (all_nodes g) \<subseteq> n_id ` set (all_nodes h)" by simp
  show ?thesis
  proof
    fix tx assume "tx \<in> transactions g"
    then obtain m where m: "m \<in> set (all_nodes g)" "tx = n_tx m" by blast
    with ids obtain n where "n \<in> set (all_nodes h)" "n_id m = n_id n" by blast
    with m inj show "tx \<in> transactions h" by blast
  qed
qed

lemma concat_be_bytes_inj:
  "concat (map (be_bytes 32) xs) = concat (map (be_bytes 32) ys) \<Longrightarrow> xs = (ys :: hash list)"
proof (induction xs arbitrary: ys)
  case (Cons x xs)
  then obtain y ys' where ys: "ys = y # ys'" by (cases ys) (auto dest: arg_cong [where f = length])
  with Cons.prems have "be_bytes 32 x = be_bytes 32 y" "concat (map (be_bytes 32) xs) = concat (map (be_bytes 32) ys')"
    by (simp_all add: append_eq_append_conv)
  with ys Cons.IH show ?case using be_bytes_inj [of 32 x y] by simp
next
  case Nil
  then show ?case by (cases ys) (auto dest: arg_cong [where f = length])
qed

abbreviation leaf_bytes :: "state_graph \<Rightarrow> bytes" where
  "leaf_bytes g \<equiv> concat (map (be_bytes 32) (sorted_list_of_set (g_leaves g)))"

lemma equal_roots_transactions:
  assumes g: "graph_ok e g" and h: "graph_ok e h" and root: "merkle_root e g = merkle_root e h"
    and cf: "inj_on (blake3 e) {leaf_bytes g, leaf_bytes h}" "inj_on (tx_hash e) (transactions g \<union> transactions h)"
  shows "transactions g = transactions h"
proof -
  have "leaf_bytes g = leaf_bytes h" using inj_onD [OF cf(1) root [unfolded merkle_root_def]] by blast
  then have "sorted_list_of_set (g_leaves g) = sorted_list_of_set (g_leaves h)" by (rule concat_be_bytes_inj)
  moreover have "finite (g_leaves g)" "finite (g_leaves h)" using g h finite_childless by (simp_all add: graph_ok_def)
  ultimately have lv: "g_leaves g = g_leaves h" by (metis set_sorted_list_of_set)
  have inj: "n_tx m = n_tx n" if "m \<in> set (all_nodes g)" "n \<in> set (all_nodes h)" "n_id m = n_id n" for m n
  proof -
    have "n_id m = tx_hash e (n_tx m)" "n_id n = tx_hash e (n_tx n)" using that(1,2) g h by (simp_all add: graph_ok_def)
    then have "tx_hash e (n_tx m) = tx_hash e (n_tx n)" using that(3) by metis
    then show ?thesis using inj_onD [OF cf(2)] that(1,2) by blast
  qed
  show ?thesis
  proof (rule subset_antisym)
    show "transactions g \<subseteq> transactions h" by (rule leaves_determine_ids [OF g h lv inj])
    show "transactions h \<subseteq> transactions g"
      by (rule leaves_determine_ids [OF h g lv [symmetric]]) (rule inj [symmetric], auto)
  qed
qed

section \<open>Examples\<close>

text \<open>Two transactions of two authors on one key; in the example environment a node's identity is the
  number its clock and author write.\<close>

definition sample_set :: "u64 \<Rightarrow> pubkey \<Rightarrow> bytes \<Rightarrow> hash list \<Rightarrow> sync_node" where
  "sample_set l a v ps = sync_node_new sample_env \<lparr>tx_author = a, tx_lamport = l, tx_wall_ms = 0,
     tx_ops = [OpMap (MapSet ''k'' v)], tx_parents = ps\<rparr>"

lemma update_projection_text_free:
  assumes "node_text_keys n = {}" "key_iter e {} = []" "g_text_projections g = []"
  shows "update_text_projection_from_node e n g =
    Ret (g\<lparr>g_text_apply_projection_update_calls := g_text_apply_projection_update_calls g + 1\<rparr>)"
proof -
  have "op_text_key op = None" if "op \<in> set (tx_ops (n_tx n))" for op
    using assms(1) that by (auto simp: node_text_keys_def set_mapfilter filter_empty_conv List.map_filter_def)
  then have "fold_rust (project_op n) ops g = Ret g" if "set ops \<subseteq> set (tx_ops (n_tx n))" for ops
    using that by (induction ops) (auto simp: project_op_def)
  then show ?thesis
    using assms by (simp add: update_text_projection_from_node_def Let_def touch_and_enforce_def
        enforce_text_projection_residency_policy_def)
qed

lemma remote_text_free:
  assumes "precheck e now n g = Inr ()" "n_id n \<in> g_verified_ids g \<or> verify_signature e n = Inr ()" "\<forall>p \<in> set (tx_parents (n_tx n)). mns_contains (g_nodes g) p"
    "policy_check (g_policy g) n = Inr ()" "\<not> mns_contains (g_nodes g) (n_id n)"
    "node_text_keys n = {}" "key_iter e {} = []" "g_text_projections g = []"
  shows "apply_remote_checked e n now g = Ret (Inr (), (admitted n True (g\<lparr>g_verified_ids := insert (n_id n) (g_verified_ids g)\<rparr>))
    \<lparr>g_text_apply_projection_update_calls := g_text_apply_projection_update_calls g + 1\<rparr>)"
proof -
  let ?g = "g\<lparr>g_verified_ids := insert (n_id n) (g_verified_ids g)\<rparr>"
  have "apply_remote_verified_no_projection n ?g = (Inr (), admitted n True ?g)"
    using assms(3-5) by (simp add: no_projection_spec find_None_iff [THEN iffD2] split: option.split)
  moreover have "g_text_projections (admitted n True ?g) = []" "g_text_apply_projection_update_calls (admitted n True ?g) = g_text_apply_projection_update_calls g"
    using assms(8) by (simp_all add: admitted_def)
  ultimately have "apply_remote_verified e n ?g = Ret (Inr (), (admitted n True ?g)
      \<lparr>g_text_apply_projection_update_calls := g_text_apply_projection_update_calls g + 1\<rparr>)"
    using update_projection_text_free [OF assms(6,7)] by (simp add: apply_remote_verified_def)
  moreover have "n_id n \<in> g_verified_ids g \<Longrightarrow> ?g = g" by (simp add: insert_member)
  ultimately show ?thesis using assms(1,2) by (cases "n_id n \<in> g_verified_ids g") (auto simp: apply_remote_checked_def)
qed

lemma sample_set_simps [simp]:
  "n_tx (sample_set l a v ps) = \<lparr>tx_author = a, tx_lamport = l, tx_wall_ms = 0, tx_ops = [OpMap (MapSet ''k'' v)], tx_parents = ps\<rparr>"
  "n_id (sample_set l a v ps) = of_be [ucast l, ucast a]" "n_sig (sample_set l a v ps) = 0"
  by (simp_all add: sample_set_def sync_node_new_def tx_hash_def sample_env_def)

lemma sample_set_ok:
  "verify_signature sample_env (sample_set l a v ps) = Inr ()" "node_text_keys (sample_set l a v ps) = {}"
  "policy_check default_policy (sample_set l a v ps) = Inr ()" "key_iter sample_env {} = []"
  by (simp_all add: verify_signature_def sig_is_zero_def node_text_keys_def op_text_key_def List.map_filter_simps
      policy_check_def default_policy_def can_write_def Let_def sample_env_def)

lemma sample_hash: "tx_hash sample_env tx = of_be [ucast (tx_lamport tx), ucast (tx_author tx)]"
  by (simp add: tx_hash_def sample_env_def)

definition sample_first :: sync_node where
  "sample_first = sample_set 1 2 [7] []"

definition sample_second :: sync_node where
  "sample_second = sample_set 2 1 [8] []"

definition sample_accept :: "sync_node \<Rightarrow> state_graph \<Rightarrow> state_graph" where
  "sample_accept n g = (case apply_remote_checked sample_env n None g of Ret (r, h) \<Rightarrow> h | Panic \<Rightarrow> g)"

lemma of_be_sample: "of_be [1, 2] = (258 :: hash)" "of_be [2, 1] = (513 :: hash)"
  by (simp_all add: of_be_def nat_of_be_def)

lemma sample_accept:
  assumes "n = sample_set l a v []" "l \<le> 2" "g_policy g = default_policy" "g_text_projections g = []"
    "\<not> mns_contains (g_nodes g) (n_id n)" "g_lamport g \<le> 2"
  shows "apply_remote_checked sample_env n None g = Ret (Inr (), sample_accept n g)"
    "sample_accept n g = (admitted n True (g\<lparr>g_verified_ids := insert (n_id n) (g_verified_ids g)\<rparr>))
       \<lparr>g_text_apply_projection_update_calls := g_text_apply_projection_update_calls g + 1\<rparr>"
proof -
  have "unat (g_lamport g) \<le> 2" "unat l \<le> 2" using assms(2,6) by (simp_all add: word_le_nat_alt)
  then have "l \<le> sat_add (g_lamport g) LAMPORT_SLACK" by (simp add: word_le_nat_alt unat_sat_add LAMPORT_SLACK_def)
  then have "apply_remote_checked sample_env n None g =
      Ret (Inr (), (admitted n True (g\<lparr>g_verified_ids := insert (n_id n) (g_verified_ids g)\<rparr>))
        \<lparr>g_text_apply_projection_update_calls := g_text_apply_projection_update_calls g + 1\<rparr>)"
    using assms by (intro remote_text_free) (simp_all add: sample_set_ok precheck_Inr sample_hash)
  then show "apply_remote_checked sample_env n None g = Ret (Inr (), sample_accept n g)"
    "sample_accept n g = (admitted n True (g\<lparr>g_verified_ids := insert (n_id n) (g_verified_ids g)\<rparr>))
       \<lparr>g_text_apply_projection_update_calls := g_text_apply_projection_update_calls g + 1\<rparr>"
    by (simp_all add: sample_accept_def)
qed

lemma sample_accept_reach: "graph_reach sample_env g \<Longrightarrow> graph_reach sample_env (sample_accept n g)"
  by (auto simp: sample_accept_def split: rust.split intro: reach_step remote_step)

definition sample_g12 :: state_graph where
  "sample_g12 = sample_accept sample_second (sample_accept sample_first graph_new)"

definition sample_g21 :: state_graph where
  "sample_g21 = sample_accept sample_first (sample_accept sample_second graph_new)"

lemma sample_reach: "graph_reach sample_env sample_g12" "graph_reach sample_env sample_g21"
  by (simp_all add: sample_g12_def sample_g21_def sample_accept_reach reach_new)

lemma sample_ids [simp]: "n_id sample_first = 258" "n_id sample_second = 513"
  by (simp_all add: sample_first_def sample_second_def of_be_sample)

definition sample_ok :: "state_graph \<Rightarrow> bool" where
  "sample_ok g \<longleftrightarrow> mns_ok (g_nodes g) \<and> g_policy g = default_policy \<and> g_text_projections g = [] \<and> g_lamport g \<le> 2"

lemma sample_ok_new: "sample_ok graph_new" "all_nodes graph_new = []"
  by (simp_all add: sample_ok_def graph_new_def graph_with_store_def mns_new_def mns_ok_def all_nodes_def mns_all_ids_def List.map_filter_simps)

lemma sample_ok_accept:
  assumes "sample_ok g" "n = sample_set l a v []" "l \<le> 2" "n_id n \<notin> n_id ` set (all_nodes g)"
  shows "apply_remote_checked sample_env n None g = Ret (Inr (), sample_accept n g)"
    "sample_ok (sample_accept n g)" "all_nodes (sample_accept n g) = all_nodes g @ [n]"
proof -
  have ok: "mns_ok (g_nodes g)" "g_policy g = default_policy" "g_text_projections g = []" "g_lamport g \<le> 2"
    using assms(1) by (simp_all add: sample_ok_def)
  then have new: "\<not> mns_contains (g_nodes g) (n_id n)" using assms(4) by (simp add: contains_all_nodes)
  note acc = sample_accept [OF assms(2,3) ok(2,3) new ok(4)]
  show "apply_remote_checked sample_env n None g = Ret (Inr (), sample_accept n g)" by (rule acc(1))
  have "mns_put n (g_nodes g) = Inr (g_nodes (sample_accept n g))" by (simp add: acc(2) admitted_def mns_put_def)
  note put = all_nodes_put [OF ok(1) new this]
  show "all_nodes (sample_accept n g) = all_nodes g @ [n]" by (rule put(1))
  have "g_policy (sample_accept n g) = default_policy" "g_text_projections (sample_accept n g) = []" "g_lamport (sample_accept n g) \<le> 2"
    using ok assms(2,3) unfolding acc(2) by (simp_all add: admitted_def)
  then show "sample_ok (sample_accept n g)" using put(2) by (simp add: sample_ok_def)
qed

lemma sample_g12_nodes: "all_nodes sample_g12 = [sample_first, sample_second]"
  and sample_g21_nodes: "all_nodes sample_g21 = [sample_second, sample_first]"
proof -
  note first = sample_ok_accept [OF _ sample_first_def] and second = sample_ok_accept [OF _ sample_second_def]
  show "all_nodes sample_g12 = [sample_first, sample_second]"
    using first [OF sample_ok_new(1)] second [OF first(2) [OF sample_ok_new(1)]]
    by (simp add: sample_g12_def sample_ok_new word_le_nat_alt)
  show "all_nodes sample_g21 = [sample_second, sample_first]"
    using second [OF sample_ok_new(1)] first [OF second(2) [OF sample_ok_new(1)]]
    by (simp add: sample_g21_def sample_ok_new word_le_nat_alt)
qed

section \<open>Properties\<close>

text \<open>C7: in every reachable graph a node's identity is the hash of its transaction, its parents are
  in the graph, the leaves are exactly the nodes without children, and the frontier lists them in order.\<close>

theorem reachable_graph_wellformed:
  assumes "env_ok e" "graph_reach e g"
  shows "(\<forall>n \<in> set (all_nodes g). n_id n = tx_hash e (n_tx n) \<and> set (tx_parents (n_tx n)) \<subseteq> set (mns_all_ids (g_nodes g)))
    \<and> distinct (mns_all_ids (g_nodes g))
    \<and> g_leaves g = {i \<in> set (mns_all_ids (g_nodes g)). \<forall>n \<in> set (all_nodes g). i \<notin> set (tx_parents (n_tx n))}
    \<and> heads (g_frontier g) = sorted_list_of_set (g_leaves g)"
proof -
  have ok: "graph_ok e g" by (rule graph_reach_ok [OF assms])
  then have m: "mns_ok (g_nodes g)" by (simp add: graph_ok_def)
  then have ids: "set (mns_all_ids (g_nodes g)) = n_id ` set (all_nodes g)" by (metis ids_all_nodes set_map)
  have "linked {} (all_nodes g)" and hash: "\<forall>n \<in> set (all_nodes g). n_id n = tx_hash e (n_tx n)"
    and lv: "g_leaves g = childless (all_nodes g)" using ok unfolding graph_ok_def by blast+
  then have par: "set (tx_parents (n_tx n)) \<subseteq> n_id ` set (all_nodes g)" if "n \<in> set (all_nodes g)" for n
    using linked_parents [of "{}" "all_nodes g" n] that by simp
  have "heads (g_frontier g) = sorted_list_of_set (g_leaves g)"
    using ok frontier_canonical [of "g_frontier g"] unfolding graph_ok_def by metis
  with memory_nodes.distinct_all_ids [OF m] show ?thesis
    unfolding ids lv childless_def by (intro conjI ballI bspec [OF hash] par) simp_all
qed

theorem reachable_graph_wellformed_witness:
  "distinct (mns_all_ids (g_nodes sample_g12)) \<and> heads (g_frontier sample_g12) = sorted_list_of_set (g_leaves sample_g12)"
  using reachable_graph_wellformed [OF env_ok_sample sample_reach(1)] by blast



text \<open>C2: two peers whose graphs hold the same transactions, whatever the order of arrival, show the
  same map, lists and blob references and have the same leaves, frontier and Merkle root, when no
  two transactions share a clock value and author.\<close>

theorem peers_converge:
  assumes "env_ok e" "graph_reach e g" "graph_reach e h" "transactions g = transactions h"
    and "inj_on (\<lambda>tx. (tx_lamport tx, tx_author tx)) (transactions g)"
  shows "graph_resolve g = graph_resolve h \<and> resolve_list g key = resolve_list h key
    \<and> referenced_blob_hashes g = referenced_blob_hashes h \<and> g_leaves g = g_leaves h
    \<and> g_frontier g = g_frontier h \<and> merkle_root e g = merkle_root e h"
  using same_transactions_same_state [OF graph_reach_ok [OF assms(1,2)] graph_reach_ok [OF assms(1,3)] assms(4,5)]
  by (simp add: merkle_root_def)

lemma sample_transactions: "transactions sample_g12 = transactions sample_g21"
  "inj_on (\<lambda>tx. (tx_lamport tx, tx_author tx)) (transactions sample_g12)"
  by (auto simp: sample_g12_nodes sample_g21_nodes sample_first_def sample_second_def)

theorem peers_converge_witness:
  "graph_resolve sample_g12 = graph_resolve sample_g21 \<and> g_frontier sample_g12 = g_frontier sample_g21
   \<and> all_nodes sample_g12 \<noteq> all_nodes sample_g21"
  using peers_converge [OF env_ok_sample sample_reach sample_transactions]
  by (simp add: sample_g12_nodes sample_g21_nodes) (simp add: sample_first_def sample_second_def sample_set_def sync_node_new_def)

text \<open>C23: peers with equal Merkle roots hold the same transactions and resolve to the same map and
  lists, as long as the hash does not collide on the two leaf lists or on the transactions held.\<close>

theorem equal_roots_equal_state:
  assumes "env_ok e" "graph_reach e g" "graph_reach e h" "merkle_root e g = merkle_root e h"
    and "inj_on (blake3 e) {leaf_bytes g, leaf_bytes h}" "inj_on (tx_hash e) (transactions g \<union> transactions h)"
    and "inj_on (\<lambda>tx. (tx_lamport tx, tx_author tx)) (transactions g)"
  shows "transactions g = transactions h \<and> graph_resolve g = graph_resolve h \<and> resolve_list g key = resolve_list h key"
proof -
  note ok = graph_reach_ok [OF assms(1,2)] graph_reach_ok [OF assms(1,3)]
  have tx: "transactions g = transactions h" by (rule equal_roots_transactions [OF ok assms(4-6)])
  from same_transactions_same_state [OF ok tx assms(7)] tx show ?thesis by simp
qed

lemma sample_same_leaves: "g_leaves sample_g12 = g_leaves sample_g21"
proof -
  have "g_leaves g = childless (all_nodes g)" if "graph_reach sample_env g" for g
    using graph_reach_ok [OF env_ok_sample that] by (simp add: graph_ok_def)
  then show ?thesis by (auto simp: sample_reach sample_g12_nodes sample_g21_nodes childless_def)
qed

theorem equal_roots_equal_state_witness:
  "transactions sample_g12 = transactions sample_g21 \<and> graph_resolve sample_g12 = graph_resolve sample_g21"
proof -
  have "inj_on (tx_hash sample_env) (transactions sample_g12 \<union> transactions sample_g21)"
    by (simp add: sample_transactions(1) sample_g21_nodes)
      (simp add: sample_first_def sample_second_def sample_hash of_be_sample)
  then show ?thesis
    using equal_roots_equal_state [OF env_ok_sample sample_reach, of "''l''"] sample_same_leaves sample_transactions(2)
    by (simp add: merkle_root_def)
qed


definition sample_streaming :: state_graph where
  "sample_streaming = sample_accept sample_second (set_conflict_stream_enabled True (sample_accept sample_first graph_new))"

lemma sample_streaming_event:
  "graph_reach sample_env sample_streaming"
  "fst (drain_pending_conflicts sample_streaming) =
     [\<lparr>ce_kind = MapOverwrite, ce_key = ''k'', ce_winner_author = 1, ce_winner_lamport = 2, ce_winner_op = CSet [8],
       ce_loser_author = 2, ce_loser_lamport = 1, ce_loser_op = CSet [7]\<rparr>]"
proof -
  let ?g = "sample_accept sample_first graph_new"
  let ?h = "set_conflict_stream_enabled True ?g"
  show "graph_reach sample_env sample_streaming"
    by (auto simp: sample_streaming_def intro!: sample_accept_reach reach_new intro: reach_step stream_step)
  have le: "(1 :: u64) \<le> 2" "(2 :: u64) \<le> 2" by (simp_all add: word_le_nat_alt)
  have g: "sample_ok ?g" "all_nodes ?g = [sample_first]"
    using sample_ok_accept [OF sample_ok_new(1) sample_first_def le(1)] by (simp_all add: sample_ok_new)
  have "g_state_caches ?g = update_state_caches sample_first True state_caches_default"
    using sample_accept(2) [OF sample_first_def le(1), of graph_new]
    by (simp add: graph_new_def graph_with_store_def mns_new_def mns_contains_def admitted_def)
  also have "\<dots> = (let w = \<lparr>mw_lamport = 1, mw_author = 2, mw_value = Some [7], mw_is_blob = False\<rparr> in
      state_caches_default\<lparr>sc_map_all := [''k'' \<mapsto> w], sc_map_canonical := [''k'' \<mapsto> w]\<rparr>)"
    by (simp add: update_state_caches_def sample_first_def update_cache_op_def update_map_op_def Let_def
        stream_map_conflict_def state_caches_default_def lww_update_def)
  finally have c: "g_state_caches ?g = (let w = \<lparr>mw_lamport = 1, mw_author = 2, mw_value = Some [7], mw_is_blob = False\<rparr> in
      state_caches_default\<lparr>sc_map_all := [''k'' \<mapsto> w], sc_map_canonical := [''k'' \<mapsto> w]\<rparr>)" .
  have h: "sample_ok ?h" "all_nodes ?h = [sample_first]"
    using g by (simp_all add: set_conflict_stream_enabled_def sample_ok_def all_nodes_def)
  then have "\<not> mns_contains (g_nodes ?h) (n_id sample_second)" by (simp add: sample_ok_def contains_all_nodes)
  then have "g_state_caches sample_streaming = update_state_caches sample_second True (g_state_caches ?h)"
    using sample_accept(2) [OF sample_second_def le(2), of ?h] h(1) by (simp add: sample_streaming_def sample_ok_def admitted_def)
  then show "fst (drain_pending_conflicts sample_streaming) =
     [\<lparr>ce_kind = MapOverwrite, ce_key = ''k'', ce_winner_author = 1, ce_winner_lamport = 2, ce_winner_op = CSet [8],
       ce_loser_author = 2, ce_loser_lamport = 1, ce_loser_op = CSet [7]\<rparr>]"
    by (simp add: drain_pending_conflicts_def set_conflict_stream_enabled_def c update_state_caches_def sample_second_def update_cache_op_def update_map_op_def Let_def stream_map_conflict_def state_caches_default_def
        lww_update_def push_pending_conflict_def PENDING_CONFLICTS_CAP_def map_overwrite_def conflict_op_of_def)
qed


end
