(* ===== verification/Graph_Admission.thy ===== *)
theory Graph_Admission
  imports Graph_Props
begin

text \<open>
  Admission of nodes: exactly which remote nodes a peer accepts and what a rejection leaves, what
  a batch reports, how far the clock can move, what a local write shows, and three places where the
  code departs from its documentation.
\<close>

section \<open>Remote nodes\<close>

definition admissible :: "env \<Rightarrow> u64 option \<Rightarrow> sync_node \<Rightarrow> state_graph \<Rightarrow> bool" where
  "admissible e now n g \<longleftrightarrow>
     tx_hash e (n_tx n) = n_id n
     \<and> tx_lamport (n_tx n) \<le> sat_add (g_lamport g) LAMPORT_SLACK
     \<and> (\<forall>t. now = Some t \<longrightarrow> tx_wall_ms (n_tx n) = 0 \<or> tx_wall_ms (n_tx n) \<le> sat_add t WALL_SKEW_MAX_MS)
     \<and> (n_id n \<in> g_verified_ids g \<or> verify_signature e n = Inr ())
     \<and> (\<forall>p \<in> set (tx_parents (n_tx n)). p \<in> set (mns_all_ids (g_nodes g)))
     \<and> (is_snapshot_node n \<or> (\<forall>op \<in> set (tx_ops (n_tx n)). can_write (g_policy g) (op_write_key op) (tx_author (n_tx n))))
     \<and> n_id n \<notin> set (mns_all_ids (g_nodes g))"

lemma policy_check_Inr:
  "policy_check p n = Inr () \<longleftrightarrow>
     is_snapshot_node n \<or> (\<forall>op \<in> set (tx_ops (n_tx n)). can_write p (op_write_key op) (tx_author (n_tx n)))"
  by (auto simp: policy_check_def Let_def find_None_iff split: option.split) (auto simp: find_Some_iff)

lemma contains_ids: "mns_contains s i \<longleftrightarrow> i \<in> set (mns_all_ids s)"
  by (simp add: mns_contains_def mns_all_ids_def)

lemma no_projection_Inr:
  "fst (apply_remote_verified_no_projection n g) = Inr () \<longleftrightarrow>
     (\<forall>p \<in> set (tx_parents (n_tx n)). mns_contains (g_nodes g) p) \<and> policy_check (g_policy g) n = Inr ()
     \<and> \<not> mns_contains (g_nodes g) (n_id n)"
  by (cases "policy_check (g_policy g) n") (auto simp: no_projection_spec find_None_iff find_Some_iff split: option.split)

lemma apply_remote_verified_fst:
  "apply_remote_verified e n g = Ret (r, g') \<Longrightarrow> (r = Inr ()) = (fst (apply_remote_verified_no_projection n g) = Inr ())"
  by (auto simp: apply_remote_verified_def split: prod.splits sum.splits)

lemma apply_remote_verified_dag:
  "apply_remote_verified e n g = Ret (r, g') \<Longrightarrow> dag g' = dag (snd (apply_remote_verified_no_projection n g))"
  by (auto simp: apply_remote_verified_def dest: dag_update_projection split: prod.splits sum.splits)

lemma apply_remote_verified_rejects:
  assumes "apply_remote_verified e n g = Ret (r, g')" "r \<noteq> Inr ()"
  shows "g' = g"
proof -
  obtain q h where h: "apply_remote_verified_no_projection n g = (q, h)" by fastforce
  from h show ?thesis
    by (cases rule: no_projection_cases) (use assms h in \<open>auto simp: apply_remote_verified_def\<close>)
qed

lemma all_nodes_admitted:
  assumes "mns_ok (g_nodes g)" "\<not> mns_contains (g_nodes g) (n_id n)"
  shows "all_nodes (admitted n c g) = all_nodes g @ [n]" "mns_ok (g_nodes (admitted n c g))"
  using all_nodes_put [OF assms, of "admitted n c g"] by (simp_all add: mns_put_def admitted_def)

lemma dag_all_nodes: "dag g = dag h \<Longrightarrow> all_nodes g = all_nodes h"
  by (auto simp: all_nodes_def dest: dag_eqD)

lemma remote_cases:
  assumes "apply_remote_checked e n now g = Ret (r, g')"
  obtains (early) "r \<noteq> Inr ()" "g' = g" "\<not> admissible e now n g"
  | (late) h where "h = g \<or> h = g\<lparr>g_verified_ids := insert (n_id n) (g_verified_ids g)\<rparr>" "apply_remote_verified e n h = Ret (r, g')"
      "precheck e now n g = Inr ()" "n_id n \<in> g_verified_ids g \<or> verify_signature e n = Inr ()"
proof (cases "precheck e now n g = Inr () \<and> (n_id n \<in> g_verified_ids g \<or> verify_signature e n = Inr ())")
  case True
  with assms late show ?thesis by (auto simp: apply_remote_checked_def split: if_splits)
next
  case False
  then have "\<not> admissible e now n g" by (auto simp: admissible_def precheck_Inr)
  moreover have "r \<noteq> Inr () \<and> g' = g"
    using assms False by (cases "precheck e now n g"; cases "verify_signature e n") (auto simp: apply_remote_checked_def split: if_splits)
  ultimately show ?thesis using early by blast
qed

lemma remote_decided:
  assumes "apply_remote_checked e n now g = Ret (r, g')"
  shows "r = Inr () \<longleftrightarrow> admissible e now n g"
    "r \<noteq> Inr () \<Longrightarrow> g' = g \<or> g' = g\<lparr>g_verified_ids := insert (n_id n) (g_verified_ids g)\<rparr>"
    "r = Inr () \<Longrightarrow> \<exists>h. (h = g \<or> h = g\<lparr>g_verified_ids := insert (n_id n) (g_verified_ids g)\<rparr>) \<and> dag g' = dag (admitted n True h)"
proof -
  have "(r = Inr () \<longleftrightarrow> admissible e now n g)
     \<and> (r \<noteq> Inr () \<longrightarrow> g' = g \<or> g' = g\<lparr>g_verified_ids := insert (n_id n) (g_verified_ids g)\<rparr>)
     \<and> (r = Inr () \<longrightarrow> (\<exists>h. (h = g \<or> h = g\<lparr>g_verified_ids := insert (n_id n) (g_verified_ids g)\<rparr>) \<and> dag g' = dag (admitted n True h)))"
    using assms
  proof (cases rule: remote_cases)
    case (late h)
    have f: "g_nodes h = g_nodes g" "g_policy h = g_policy g" using late(1) by auto
    have "r = Inr () \<longleftrightarrow> admissible e now n g"
      using apply_remote_verified_fst [OF late(2)] late(3,4) f
      by (auto simp: no_projection_Inr admissible_def precheck_Inr policy_check_Inr contains_ids)
    moreover have "dag g' = dag (admitted n True h)" if "r = Inr ()"
    proof -
      obtain q k where k: "apply_remote_verified_no_projection n h = (q, k)" by fastforce
      then have "q = Inr ()" using that apply_remote_verified_fst [OF late(2)] by simp
      from k this have "k = admitted n True h" by (cases rule: no_projection_cases) simp_all
      then show ?thesis using apply_remote_verified_dag [OF late(2)] k by simp
    qed
    moreover have "g' = h" if "r \<noteq> Inr ()" by (rule apply_remote_verified_rejects [OF late(2) that])
    ultimately show ?thesis using late(1) by blast
  qed simp
  then show "r = Inr () \<longleftrightarrow> admissible e now n g"
    "r \<noteq> Inr () \<Longrightarrow> g' = g \<or> g' = g\<lparr>g_verified_ids := insert (n_id n) (g_verified_ids g)\<rparr>"
    "r = Inr () \<Longrightarrow> \<exists>h. (h = g \<or> h = g\<lparr>g_verified_ids := insert (n_id n) (g_verified_ids g)\<rparr>) \<and> dag g' = dag (admitted n True h)"
    by blast+
qed

section \<open>Batches\<close>

lemma batch_filter_ids:
  assumes "batch_filter e now g seen nodes = (rj, tv)"
  shows "distinct (map fst rj @ map n_id tv)"
    "fst ` set rj \<union> n_id ` set tv = n_id ` set nodes - seen - set (mns_all_ids (g_nodes g))"
proof -
  have "distinct (map fst rj @ map n_id tv)
      \<and> fst ` set rj \<union> n_id ` set tv = n_id ` set nodes - seen - set (mns_all_ids (g_nodes g))"
    using assms
  proof (induction nodes arbitrary: seen rj tv)
    case (Cons node nodes)
    obtain rj' tv' where rec: "batch_filter e now g (insert (n_id node) seen) nodes = (rj', tv')" by fastforce
    note IH = Cons.IH [OF rec]
    show ?case
    proof (cases "n_id node \<in> seen \<or> n_id node \<in> set (mns_all_ids (g_nodes g))")
      case True
      then have "rj = rj'" "tv = tv'" using Cons.prems rec by (auto simp: contains_ids split: if_splits)
      with IH True show ?thesis by auto
    next
      case False
      then have "rj = (case precheck e now node g of Inl er \<Rightarrow> (n_id node, er) # rj' | Inr _ \<Rightarrow> rj')"
        "tv = (case precheck e now node g of Inl er \<Rightarrow> tv' | Inr _ \<Rightarrow> node # tv')"
        using Cons.prems rec by (auto simp: contains_ids split: sum.splits)
      moreover have "n_id node \<notin> fst ` set rj' \<union> n_id ` set tv'" using IH by blast
      ultimately show ?thesis using IH False by (cases "precheck e now node g") auto
    qed
  qed simp
  then show "distinct (map fst rj @ map n_id tv)"
    "fst ` set rj \<union> n_id ` set tv = n_id ` set nodes - seen - set (mns_all_ids (g_nodes g))" by blast+
qed

lemma batch_apply_ids:
  assumes "batch_apply xs g = (rj, ac, g')" "mns_ok (g_nodes g)"
  shows "mset (map fst rj) + mset (map n_id ac) = mset (map (\<lambda>x. n_id (fst x)) xs)"
    "all_nodes g' = all_nodes g @ ac" "mns_ok (g_nodes g')"
proof -
  have "mset (map fst rj) + mset (map n_id ac) = mset (map (\<lambda>x. n_id (fst x)) xs)
      \<and> all_nodes g' = all_nodes g @ ac \<and> mns_ok (g_nodes g')"
    using assms
  proof (induction xs arbitrary: g rj ac)
    case (Cons x rest)
    obtain n ok where x: "x = (n, ok)" by fastforce
    let ?h = "g\<lparr>g_verified_ids := insert (n_id n) (g_verified_ids g)\<rparr>"
    have h: "all_nodes ?h = all_nodes g" "g_nodes ?h = g_nodes g" by (simp_all add: all_nodes_def)
    obtain q k where k: "apply_remote_verified_no_projection n ?h = (q, k)" by fastforce
    show ?case
    proof (cases ok)
      case True
      note ok = True
      from k show ?thesis
      proof (cases rule: no_projection_cases)
        case (rejected er)
        obtain rj' ac' where r: "batch_apply rest ?h = (rj', ac', g')" "rj = (n_id n, er) # rj'" "ac = ac'"
          using Cons.prems(1) x ok k rejected by (auto split: prod.splits)
        from Cons.IH [OF r(1)] r(2,3) Cons.prems(2) x h show ?thesis by simp
      next
        case accepted
        note adm = all_nodes_admitted [of ?h n True]
        obtain rj' ac' where r: "batch_apply rest k = (rj', ac', g')" "rj = rj'" "ac = n # ac'"
          using Cons.prems(1) x ok k accepted by (auto split: prod.splits)
        from Cons.IH [OF r(1)] r(2,3) adm accepted Cons.prems(2) x h show ?thesis by simp
      qed
    next
      case False
      then obtain rj' where r: "batch_apply rest g = (rj', ac, g')" "rj = (n_id n, InvalidSignature (n_id n)) # rj'"
        using Cons.prems(1) x by (auto split: prod.splits)
      from Cons.IH [OF r(1) Cons.prems(2)] r(2) x show ?thesis by simp
    qed
  qed simp
  then show "mset (map fst rj) + mset (map n_id ac) = mset (map (\<lambda>x. n_id (fst x)) xs)"
    "all_nodes g' = all_nodes g @ ac" "mns_ok (g_nodes g')" by blast+
qed

lemma batch_parts:
  assumes "batch_sound e" "apply_remote_batch_checked e nodes now g = Ret (b, g')"
  obtains rj tv rj2 ac g1 where "batch_filter e now g {} nodes = (rj, tv)"
    "batch_apply (map (\<lambda>n. (n, n_id n \<in> g_verified_ids g \<or> verify_signature e n = Inr ())) tv) g = (rj2, ac, g1)"
    "br_accepted b = map n_id ac" "br_rejected b = rj @ rj2" "dag g' = dag g1"
proof -
  obtain rj tv where f: "batch_filter e now g {} nodes = (rj, tv)" by fastforce
  let ?ok = "\<lambda>n. n_id n \<in> g_verified_ids g \<or> verify_signature e n = Inr ()"
  have z: "zip tv (map ?ok tv) = map (\<lambda>n. (n, ?ok n)) tv" by (simp add: zip_map2 zip_same_conv_map)
  obtain rj2 ac g1 where a: "batch_apply (map (\<lambda>n. (n, ?ok n)) tv) g = (rj2, ac, g1)"
    by (cases "batch_apply (map (\<lambda>n. (n, ?ok n)) tv) g") auto
  have "br_accepted b = map n_id ac" "br_rejected b = rj @ rj2" "dag g' = dag g1"
    using assms(2) f a
    by (auto simp: apply_remote_batch_checked_def verify_nodes_batched_spec [OF assms(1)] z dest: dag_update_batch)
  with f a that show ?thesis by blast
qed

section \<open>Clocks and local writes\<close>

lemma batch_apply_lamport:
  assumes "batch_apply xs g = (rj, ac, g')" "\<forall>x \<in> set xs. tx_lamport (n_tx (fst x)) \<le> L" "g_lamport g \<le> L"
  shows "g_lamport g \<le> g_lamport g' \<and> g_lamport g' \<le> L"
  using assms
proof (induction xs arbitrary: g rj ac)
  case (Cons x rest)
  obtain n ok where x: "x = (n, ok)" by fastforce
  let ?h = "g\<lparr>g_verified_ids := insert (n_id n) (g_verified_ids g)\<rparr>"
  obtain q k where k: "apply_remote_verified_no_projection n ?h = (q, k)" by fastforce
  have "g_lamport g \<le> g_lamport k \<and> g_lamport k \<le> L"
    using k by (cases rule: no_projection_cases) (use Cons.prems(2,3) x in \<open>simp_all add: admitted_def\<close>)
  moreover obtain rj' ac' where "batch_apply rest (if ok then k else g) = (rj', ac', g')"
    using Cons.prems(1) x k by (auto split: prod.splits sum.splits if_splits)
  ultimately show ?case using Cons.IH [of "if ok then k else g"] Cons.prems(2,3) by (cases ok) fastforce+
qed simp

lemma remote_clock:
  assumes r: "apply_remote_checked e n now g = Ret (r, g')"
  shows "g_lamport g \<le> g_lamport g' \<and> g_lamport g' \<le> sat_add (g_lamport g) LAMPORT_SLACK"
proof (cases "r = Inr ()")
  case True
  then obtain h where h: "h = g \<or> h = g\<lparr>g_verified_ids := insert (n_id n) (g_verified_ids g)\<rparr>" "dag g' = dag (admitted n True h)"
    using remote_decided(3) [OF r] by blast
  have "tx_lamport (n_tx n) \<le> sat_add (g_lamport g) LAMPORT_SLACK" using remote_decided(1) [OF r] True by (simp add: admissible_def)
  moreover have "g_lamport g' = max (g_lamport g) (tx_lamport (n_tx n))" using dag_eqD(3) [OF h(2)] h(1) by (auto simp: admitted_def)
  ultimately show ?thesis using sat_add_ge [of "g_lamport g"] by simp
next
  case False
  then show ?thesis using remote_decided(2) [OF r] sat_add_ge [of "g_lamport g"] by auto
qed

lemma batch_clock:
  assumes "batch_sound e" "apply_remote_batch_checked e nodes now g = Ret (b, g')"
  shows "g_lamport g \<le> g_lamport g' \<and> g_lamport g' \<le> sat_add (g_lamport g) LAMPORT_SLACK"
proof -
  from assms obtain rj tv rj2 ac g1 where b: "batch_filter e now g {} nodes = (rj, tv)"
    "batch_apply (map (\<lambda>n. (n, n_id n \<in> g_verified_ids g \<or> verify_signature e n = Inr ())) tv) g = (rj2, ac, g1)"
    "dag g' = dag g1" by (rule batch_parts)
  have "tx_lamport (n_tx n) \<le> sat_add (g_lamport g) LAMPORT_SLACK" if "n \<in> set tv" for n
    using batch_filter_prechecked [OF b(1)] that precheck_Inr by blast
  then have "g_lamport g \<le> g_lamport g1 \<and> g_lamport g1 \<le> sat_add (g_lamport g) LAMPORT_SLACK"
    by (intro batch_apply_lamport [OF b(2)]) (auto simp: sat_add_ge)
  then show ?thesis by (simp add: dag_eqD(3) [OF b(3)])
qed

definition clock_ok :: "state_graph \<Rightarrow> bool" where
  "clock_ok g \<longleftrightarrow> (\<forall>n \<in> set (all_nodes g). tx_lamport (n_tx n) \<le> g_lamport g)"

lemma local_lamport_greater:
  fixes w :: u64
  assumes "w \<noteq> - 1"
  shows "w < w + 1"
proof -
  have "unat w \<noteq> unat (- 1 :: u64)" using assms by (simp only: word_unat_eq_iff not_False_eq_True)
  moreover have "unat (- 1 :: u64) = 18446744073709551615" by (simp add: unsigned_minus_1_eq_mask mask_eq_exp_minus_1)
  ultimately have "unat w + 1 < 2 ^ 64" using unsigned_less [of w, where ?'a = nat] by simp
  then show ?thesis by (simp add: word_less_nat_alt unat_word_ariths)
qed

lemma local_accepted:
  assumes ok: "graph_ok e g" and r: "apply_local e sk wall ops g = Ret (Inr i, g')"
  shows "all_nodes g' = all_nodes g @ [local_node e sk wall ops g]" "i = n_id (local_node e sk wall ops g)"
    "g_local_node_ids g' = insert i (g_local_node_ids g)"
    "g_lamport g' = sat_add (g_lamport g + 1) (sum_list (map extra_insert_ids ops))"
    "i \<notin> n_id ` set (all_nodes g)"
proof -
  let ?n = "local_node e sk wall ops g"
  let ?g1 = "g\<lparr>g_lamport := sat_add (g_lamport g + 1) (sum_list (map extra_insert_ids ops))\<rparr>"
  have m: "mns_ok (g_nodes g)" using ok by (simp add: graph_ok_def)
  obtain g3 where new: "\<not> mns_contains (g_nodes g) (n_id ?n)" and i: "i = n_id ?n"
    and g3: "update_text_projection_from_node e ?n (admitted ?n False ?g1) = Ret g3"
      "g' = g3\<lparr>g_local_node_ids := insert (n_id ?n) (g_local_node_ids g3), g_verified_ids := insert (n_id ?n) (g_verified_ids g3)\<rparr>"
    using r by (auto simp: apply_local_spec Let_def split: if_splits)
  note d = dag_eqD [OF dag_update_projection [OF g3(1)]]
  show "i = n_id ?n" by (rule i)
  have "all_nodes ?g1 = all_nodes g" "g_nodes ?g1 = g_nodes g" by (simp_all add: all_nodes_def)
  then have "all_nodes (admitted ?n False ?g1) = all_nodes g @ [?n]" using all_nodes_admitted [of ?g1 ?n False] m new by simp
  moreover have "all_nodes g' = all_nodes (admitted ?n False ?g1)" using d(1) by (simp add: g3(2) all_nodes_def)
  ultimately show "all_nodes g' = all_nodes g @ [?n]" by simp
  show "g_local_node_ids g' = insert i (g_local_node_ids g)" using d(5) i by (simp add: g3(2) admitted_def)
  have "g_lamport g + 1 \<le> sat_add (g_lamport g + 1) (sum_list (map extra_insert_ids ops))" by (rule sat_add_ge)
  then show "g_lamport g' = sat_add (g_lamport g + 1) (sum_list (map extra_insert_ids ops))"
    using d(3) by (simp add: g3(2) admitted_def max_def)
  show "i \<notin> n_id ` set (all_nodes g)" using new contains_all_nodes [OF m] i by simp
qed

fun map_op_value :: "map_op \<Rightarrow> bytes option" where
  "map_op_value (MapSet key v) = Some v"
| "map_op_value (MapDelete key) = None"
| "map_op_value (MapSetBlob key h) = Some (be_bytes 32 h)"

lemma candidate_value: "mw_value (map_candidate tx m) = map_op_value m"
  by (cases m) simp_all

definition first_write :: "string \<Rightarrow> op list \<Rightarrow> map_op option" where
  "first_write key ops = (case List.map_filter (\<lambda>op. case op of OpMap m \<Rightarrow> if map_op_key m = key then Some m else None | _ \<Rightarrow> None) ops of
     m # _ \<Rightarrow> Some m | [] \<Rightarrow> None)"

lemma node_writes_first:
  assumes "first_write key (tx_ops (n_tx n)) = Some m"
  shows "node_writes key n \<noteq> []" "hd (node_writes key n) = (tx_lamport (n_tx n), tx_author (n_tx n), map_op_value m)"
proof -
  let ?f = "\<lambda>op. case op of OpMap m \<Rightarrow> if map_op_key m = key then Some m else None | _ \<Rightarrow> None"
  have "op_write tx key op = map_option (\<lambda>m. (tx_lamport tx, tx_author tx, map_op_value m)) (?f op)" for tx op
    by (cases op) (simp_all add: candidate_value)
  then have "List.map_filter (op_write tx key) ops = map (\<lambda>m. (tx_lamport tx, tx_author tx, map_op_value m)) (List.map_filter ?f ops)" for tx ops
    by (induction ops) (simp_all add: List.map_filter_simps split: option.split)
  moreover obtain ms where "List.map_filter ?f (tx_ops (n_tx n)) = m # ms"
    using assms by (auto simp: first_write_def split: list.splits)
  ultimately show "node_writes key n \<noteq> []" "hd (node_writes key n) = (tx_lamport (n_tx n), tx_author (n_tx n), map_op_value m)"
    by (simp_all add: node_writes_def)
qed

lemma local_write_read:
  assumes env: "env_ok e" and ok: "graph_ok e g" and clk: "clock_ok g" "g_lamport g \<noteq> - 1"
    and r: "apply_local e sk wall ops g = Ret (Inr i, g')" and w: "first_write key ops = Some m"
  shows "read_speculative g' key = map_op_value m" "clock_ok g'" "graph_ok e g'"
    "read_canonical g' k = read_canonical g k"
proof -
  let ?n = "local_node e sk wall ops g"
  note acc = local_accepted [OF ok r]
  show ok': "graph_ok e g'" using graph_ok_local [OF _ _ ok r] env by (simp add: env_ok_def)
  have lt: "g_lamport g < g_lamport g + 1" using clk(2) by (rule local_lamport_greater)
  have "replay_map (all_nodes g') key = snd (snd (hd (node_writes key ?n)))"
  proof (rule replay_map_max)
    show "node_writes key ?n \<noteq> []" using node_writes_first(1) [of key ?n m] w by simp
    have "0 < g_lamport g + 1" using lt by (rule le_less_trans [OF word_zero_le])
    then show "(0, 0) < n_prio ?n" by (simp add: less_prod_def)
    show "n_prio n < n_prio ?n" if "n \<in> set (all_nodes g')" "n \<noteq> ?n" for n
      using that clk(1) lt by (auto simp: acc(1) clock_ok_def less_prod_def)
  qed (simp add: acc(1))
  then show "read_speculative g' key = map_op_value m"
    using node_writes_first(2) [of key ?n m] w graph_ok_views(1) [OF ok', THEN fun_cong, of key]
    by (simp add: graph_resolve_def winner_values_def read_speculative_def)
  have "g_lamport g + 1 \<le> g_lamport g'" unfolding acc(4) by (rule sat_add_ge)
  then show "clock_ok g'" using clk(1) lt by (auto simp: clock_ok_def acc(1))
  have "filter (\<lambda>n. n_id n \<notin> g_local_node_ids g') (all_nodes g') = filter (\<lambda>n. n_id n \<notin> g_local_node_ids g) (all_nodes g)"
    using acc(2,5) by (auto simp: acc(1,3) image_iff intro!: filter_cong)
  then have "resolve_canonical g' = resolve_canonical g" by (simp add: graph_ok_views [OF ok] graph_ok_views [OF ok'])
  then show "read_canonical g' k = read_canonical g k"
    by (simp add: resolve_canonical_def winner_values_def read_canonical_def fun_eq_iff)
qed

section \<open>Properties\<close>

text \<open>C4: a remote node is accepted exactly when its identity is its hash, its clock is within the
  slack, its wall time within the skew, its identity already verified or its signature valid, its
  parents present, its author permitted to write every key, and it is not present; acceptance adds it,
  and a rejection changes nothing but the set of verified identities.\<close>

theorem remote_admission_decided:
  assumes "env_ok e" "graph_reach e g" "apply_remote_checked e n now g = Ret (r, g')"
  shows "(r = Inr () \<longleftrightarrow> admissible e now n g)
    \<and> (r = Inr () \<longrightarrow> all_nodes g' = all_nodes g @ [n] \<and> g_leaves g' = insert (n_id n) (g_leaves g - set (tx_parents (n_tx n))))
    \<and> (r \<noteq> Inr () \<longrightarrow> g' = g \<or> g' = g\<lparr>g_verified_ids := insert (n_id n) (g_verified_ids g)\<rparr>)"
proof -
  note d = remote_decided [OF assms(3)]
  have m: "mns_ok (g_nodes g)" using graph_reach_ok [OF assms(1,2)] by (simp add: graph_ok_def)
  have "all_nodes g' = all_nodes g @ [n] \<and> g_leaves g' = insert (n_id n) (g_leaves g - set (tx_parents (n_tx n)))" if acc: "r = Inr ()"
  proof -
    obtain h where h: "h = g \<or> h = g\<lparr>g_verified_ids := insert (n_id n) (g_verified_ids g)\<rparr>" "dag g' = dag (admitted n True h)"
      using d(3) [OF acc] by blast
    then have eq: "all_nodes h = all_nodes g" "g_nodes h = g_nodes g" "g_leaves h = g_leaves g" by (auto simp: all_nodes_def)
    have new: "\<not> mns_contains (g_nodes g) (n_id n)" using d(1) acc by (simp add: admissible_def contains_ids)
    have "all_nodes g' = all_nodes (admitted n True h)" by (rule dag_all_nodes [OF h(2)])
    then show ?thesis
      using dag_eqD(2) [OF h(2)] all_nodes_admitted [of h n True] m new eq by (simp add: admitted_def)
  qed
  with d(1,2) show ?thesis by blast
qed

theorem remote_admission_decided_witness:
  "admissible sample_env None sample_first graph_new"
proof -
  have "sample_first = sample_set 1 2 [7] []" "(1 :: u64) \<le> 2" by (simp_all add: sample_first_def word_le_nat_alt)
  from sample_ok_accept(1) [OF sample_ok_new(1) this]
  have "apply_remote_checked sample_env sample_first None graph_new = Ret (Inr (), sample_accept sample_first graph_new)"
    by (simp add: sample_ok_new)
  from remote_admission_decided [OF env_ok_sample reach_new this] show ?thesis by simp
qed

text \<open>C8: a batch accounts for every node exactly once: the accepted and rejected identities are
  distinct and together are those of the input that were not in the graph, and exactly the accepted
  ones are added, in the order of the input.\<close>

theorem batch_accounts_for_every_node:
  assumes "env_ok e" "graph_reach e g" "apply_remote_batch_checked e nodes now g = Ret (b, g')"
  shows "distinct (br_accepted b @ map fst (br_rejected b))
    \<and> set (br_accepted b) \<union> fst ` set (br_rejected b) = n_id ` set nodes - set (mns_all_ids (g_nodes g))
    \<and> mns_all_ids (g_nodes g') = mns_all_ids (g_nodes g) @ br_accepted b"
proof -
  have m: "mns_ok (g_nodes g)" using graph_reach_ok [OF assms(1,2)] by (simp add: graph_ok_def)
  have "batch_sound e" using assms(1) by (simp add: env_ok_def)
  from this assms(3) obtain rj tv rj2 ac g1 where b: "batch_filter e now g {} nodes = (rj, tv)"
    "batch_apply (map (\<lambda>n. (n, n_id n \<in> g_verified_ids g \<or> verify_signature e n = Inr ())) tv) g = (rj2, ac, g1)"
    "br_accepted b = map n_id ac" "br_rejected b = rj @ rj2" "dag g' = dag g1" by (rule batch_parts)
  note f = batch_filter_ids [OF b(1)] and a = batch_apply_ids [OF b(2) m]
  have ms: "mset (map fst rj2) + mset (map n_id ac) = mset (map n_id tv)" using a(1) by (simp add: comp_def)
  then have "mset (br_accepted b @ map fst (br_rejected b)) = mset (map fst rj @ map n_id tv)" by (simp add: b(3,4) add.commute)
  then have "distinct (br_accepted b @ map fst (br_rejected b))" "set (br_accepted b @ map fst (br_rejected b)) = set (map fst rj @ map n_id tv)"
    using f(1) mset_eq_imp_distinct_iff mset_eq_setD by metis+
  moreover have "mns_all_ids (g_nodes g') = mns_all_ids (g_nodes g) @ br_accepted b"
    using ids_all_nodes [OF m] ids_all_nodes [of g1] a(2,3) dag_eqD(1) [OF b(5)] by (simp add: b(3))
  ultimately show ?thesis using f(2) by auto
qed

lemma sample_batch:
  "\<exists>g'. apply_remote_batch_checked sample_env [sample_second, sample_first, sample_second] None (sample_accept sample_first graph_new)
     = Ret (\<lparr>br_accepted = [513], br_rejected = []\<rparr>, g')"
proof -
  let ?g = "sample_accept sample_first graph_new"
  have le: "(1 :: u64) \<le> 2" by (simp add: word_le_nat_alt)
  have g: "sample_ok ?g" "all_nodes ?g = [sample_first]"
    using sample_ok_accept [OF sample_ok_new(1) sample_first_def le] by (simp_all add: sample_ok_new)
  then have c: "mns_contains (g_nodes ?g) i \<longleftrightarrow> i = 258" for i by (simp add: sample_ok_def contains_all_nodes)
  have "unat (g_lamport ?g) \<le> 2" using g(1) by (simp add: sample_ok_def word_le_nat_alt)
  then have "2 \<le> sat_add (g_lamport ?g) LAMPORT_SLACK" by (simp add: word_le_nat_alt unat_sat_add LAMPORT_SLACK_def)
  then have "precheck sample_env None sample_second ?g = Inr ()" by (simp add: precheck_Inr) (simp add: sample_second_def sample_hash of_be_sample)
  then have f: "batch_filter sample_env None ?g {} [sample_second, sample_first, sample_second] = ([], [sample_second])"
    by (simp add: c)
  have v: "verify_nodes_batched sample_env [sample_second] ?g = [True]"
    using verify_nodes_batched_spec [OF sample_env_ok(2)] by (simp add: sample_second_def sample_set_ok)
  let ?h = "?g\<lparr>g_verified_ids := insert 513 (g_verified_ids ?g)\<rparr>"
  have "apply_remote_verified_no_projection sample_second ?h = (Inr (), admitted sample_second True ?h)"
    using g(1) by (simp add: no_projection_spec c sample_ok_def) (simp add: sample_second_def sample_set_ok)
  then have a: "batch_apply [(sample_second, True)] ?g = ([], [sample_second], admitted sample_second True ?h)" by simp
  have "node_text_keys sample_second = {}" by (simp add: sample_second_def sample_set_ok)
  then obtain g' where "update_text_projection_from_nodes_batch sample_env [sample_second] (admitted sample_second True ?h) = Ret g'"
    using sample_set_ok(4) by (simp add: update_text_projection_from_nodes_batch_def Let_def)
  then show ?thesis unfolding apply_remote_batch_checked_def f by (simp add: v a del: batch_apply.simps)
qed

theorem batch_accounts_for_every_node_witness:
  "\<exists>b g'. apply_remote_batch_checked sample_env [sample_second, sample_first, sample_second] None (sample_accept sample_first graph_new) = Ret (b, g')
     \<and> set (br_accepted b) = {513} \<and> mns_all_ids (g_nodes g') = mns_all_ids (g_nodes (sample_accept sample_first graph_new)) @ [513]"
  using sample_batch batch_accounts_for_every_node [OF env_ok_sample sample_accept_reach [OF reach_new]] by fastforce

text \<open>Batched verification gives, node by node, what checking each signature alone gives: true for
  identities verified before, for unsigned nodes and for valid signatures, and false otherwise.\<close>

theorem batch_verifies_like_single:
  assumes "batch_sound e"
  shows "verify_nodes_batched e nodes g = map (\<lambda>n. n_id n \<in> g_verified_ids g \<or> verify_signature e n = Inr ()) nodes"
  by (rule verify_nodes_batched_spec [OF assms])

theorem batch_verifies_like_single_witness:
  "verify_nodes_batched sample_env [sample_first, sample_second\<lparr>n_sig := 7\<rparr>, sample_second\<lparr>n_sig := 1\<rparr>] graph_new = [True, False, True]"
  using batch_verifies_like_single [OF sample_env_ok(2)]
  by (simp add: graph_new_def graph_with_store_def verify_signature_def sig_is_zero_def sample_first_def sample_env_def)

text \<open>C14: remote input moves the clock forward only, and by at most the slack, whether it comes node
  by node or in one batch.\<close>

theorem remote_clock_bounded:
  assumes "batch_sound e"
  shows "(apply_remote_checked e n now g = Ret (r, g1) \<longrightarrow> g_lamport g \<le> g_lamport g1 \<and> g_lamport g1 \<le> sat_add (g_lamport g) LAMPORT_SLACK)
    \<and> (apply_remote_batch_checked e nodes now g = Ret (b, g2) \<longrightarrow> g_lamport g \<le> g_lamport g2 \<and> g_lamport g2 \<le> sat_add (g_lamport g) LAMPORT_SLACK)"
  using remote_clock [of e n now g r g1] batch_clock [OF assms, of nodes now g b g2] by blast

theorem remote_clock_bounded_witness:
  "\<exists>g'. apply_remote_checked sample_env sample_first None graph_new = Ret (Inr (), g') \<and> g_lamport g' \<le> 1048576"
proof -
  have "sample_first = sample_set 1 2 [7] []" "(1 :: u64) \<le> 2" by (simp_all add: sample_first_def word_le_nat_alt)
  from sample_ok_accept(1) [OF sample_ok_new(1) this]
  have r: "apply_remote_checked sample_env sample_first None graph_new = Ret (Inr (), sample_accept sample_first graph_new)"
    by (simp add: sample_ok_new)
  have "sat_add (g_lamport graph_new) LAMPORT_SLACK = 1048576"
    by (simp add: graph_new_def graph_with_store_def word_unat_eq_iff unat_sat_add LAMPORT_SLACK_def)
  with r remote_clock_bounded [OF sample_env_ok(2), of sample_first None graph_new "Inr ()" "sample_accept sample_first graph_new"]
  show ?thesis by auto
qed

end
