(* ===== verification/Replay.thy ===== *)
theory Replay
  imports Graph_Admission
begin

text \<open>
  Deterministic replay (\<open>replay.rs\<close>): the hash of a resolved map, policy timelines, and the retry loop
  that feeds a list of nodes to a fresh graph. A \<open>BTreeMap\<close> is its list of entries in key order. A pass
  of the loop returns the nodes that still miss a parent; the loop ends because every pass that does
  not end it drops a node.
\<close>

section \<open>Resolved states\<close>

type_synonym btree = "(string \<times> bytes) list"

definition btree_of :: "(string \<rightharpoonup> bytes) \<Rightarrow> btree" where
  "btree_of m = map (\<lambda>k. (k, the (m k))) (sorted_list_of_set (dom m))"

record resolved_state =
  rs_map :: btree
  rs_hash :: hash

record policy_timeline_entry =
  te_effective_lamport :: u64
  te_policy :: policy

definition E2EE_KEY :: string where
  "E2EE_KEY = CHR 0x00 # ''e2ee''"

definition entry_bytes :: "string \<times> bytes \<Rightarrow> bytes" where
  "entry_bytes = (\<lambda>(key, v). to_le_bytes 4 (word_of_nat (length key) :: u32) @ map of_char key
     @ to_le_bytes 4 (word_of_nat (length v) :: u32) @ v)"

definition canonical_hash :: "env \<Rightarrow> btree \<Rightarrow> hash" where
  "canonical_hash e m = blake3 e (concat (map entry_bytes m))"

section \<open>Policy timelines\<close>

definition sorted_timeline :: "policy_timeline_entry list \<Rightarrow> policy_timeline_entry list" where
  "sorted_timeline timeline = sort_key te_effective_lamport timeline"

definition policy_timeline_hash :: "env \<Rightarrow> (policy_timeline_entry list \<Rightarrow> bytes) \<Rightarrow> policy_timeline_entry list \<Rightarrow> hash" where
  "policy_timeline_hash e postcard_timeline timeline = blake3 e (postcard_timeline (sorted_timeline timeline))"

definition policy_timeline_cutover_lamport :: "policy_timeline_entry list \<Rightarrow> u64 option" where
  "policy_timeline_cutover_lamport timeline =
     (if timeline = [] then None else Some (Max (set (map te_effective_lamport timeline))))"

fun policy_for_lamport :: "u64 \<Rightarrow> policy_timeline_entry list \<Rightarrow> policy \<Rightarrow> policy" where
  "policy_for_lamport lamport [] selected = selected"
| "policy_for_lamport lamport (entry # rest) selected =
     (if te_effective_lamport entry \<le> lamport then policy_for_lamport lamport rest (te_policy entry) else selected)"

section \<open>Replay\<close>

definition policy_of :: "policy_timeline_entry list \<Rightarrow> sync_node \<Rightarrow> policy" where
  "policy_of timeline node = policy_for_lamport (tx_lamport (n_tx node)) timeline default_policy"

datatype pass_verdict = Settled | Retry | Fail sync_error

fun verdict :: "unit res \<Rightarrow> pass_verdict" where
  "verdict (Inr _) = Settled"
| "verdict (Inl (DuplicateNode _)) = Settled"
| "verdict (Inl (MissingParent _)) = Retry"
| "verdict (Inl er) = Fail er"

fun insert_pass :: "env \<Rightarrow> (sync_node \<Rightarrow> state_graph \<Rightarrow> state_graph) \<Rightarrow> sync_node list \<Rightarrow> state_graph \<Rightarrow> sync_node list outcome" where
  "insert_pass e prepare [] g = Ret (Inr [], g)"
| "insert_pass e prepare (node # rest) g =
     rbind (apply_remote e node (prepare node g)) (\<lambda>(r, g1). case verdict r of
         Settled \<Rightarrow> insert_pass e prepare rest g1
       | Retry \<Rightarrow> map_rust (\<lambda>(r2, g2). (map_sum id ((#) node) r2, g2)) (insert_pass e prepare rest g1)
       | Fail er \<Rightarrow> Ret (Inl er, g1))"

lemma insert_pass_ConsE:
  assumes "insert_pass e prepare (node # rest) g = Ret (Inr still, g')"
  obtains r g1 where "apply_remote e node (prepare node g) = Ret (r, g1)" "verdict r = Settled" "insert_pass e prepare rest g1 = Ret (Inr still, g')"
  | r g1 still' where "apply_remote e node (prepare node g) = Ret (r, g1)" "verdict r = Retry" "insert_pass e prepare rest g1 = Ret (Inr still', g')"
      "still = node # still'"
proof -
  obtain r g1 where r: "apply_remote e node (prepare node g) = Ret (r, g1)" using assms by auto
  show ?thesis
  proof (cases "verdict r")
    case Settled
    with assms r that(1) show ?thesis by simp
  next
    case Retry
    with assms r obtain q where q: "insert_pass e prepare rest g1 = Ret (q, g')" "map_sum id ((#) node) q = Inr still" by auto
    then obtain still' where "q = Inr still'" "still = node # still'" by (cases q) auto
    with q r Retry that(2) show ?thesis by blast
  next
    case (Fail er)
    with assms r show ?thesis by simp
  qed
qed

lemma insert_pass_length: "insert_pass e prepare pending g = Ret (Inr still, g') \<Longrightarrow> length still \<le> length pending"
proof (induction pending arbitrary: g still)
  case (Cons node rest)
  from Cons.prems show ?case by (cases rule: insert_pass_ConsE) (use Cons.IH le_SucI in fastforce)+
qed simp

function replay_loop ::
  "env \<Rightarrow> policy_timeline_entry list \<Rightarrow> sync_node list \<Rightarrow> state_graph \<Rightarrow> unit outcome" where
  "replay_loop e timeline pending g =
     (if pending = [] then Ret (Inr (), g)
      else case insert_pass e (\<lambda>node. set_policy (policy_of timeline node)) pending g of
          Panic \<Rightarrow> Panic
        | Ret (Inl er, g1) \<Rightarrow> Ret (Inl er, g1)
        | Ret (Inr still, g1) \<Rightarrow>
            if length still = length pending
            then Ret (Inl (MissingParent (case tx_parents (n_tx (hd still)) of p # _ \<Rightarrow> p | [] \<Rightarrow> n_id (hd still))), g1)
            else replay_loop e timeline still g1)"
  by pat_completeness auto
termination
  by (relation "measure (\<lambda>(e, timeline, pending, g). length pending)")
    (auto dest!: insert_pass_length)

declare replay_loop.simps [simp del]

definition replay_with_policy_timeline :: "env \<Rightarrow> sync_node list \<Rightarrow> policy_timeline_entry list \<Rightarrow> resolved_state res rust" where
  "replay_with_policy_timeline e nodes timeline =
     map_rust (\<lambda>(r, graph). case r of
         Inl er \<Rightarrow> Inl er
       | Inr _ \<Rightarrow>
           let raw = btree_of ((graph_resolve graph)(E2EE_KEY := None)) in
           Inr \<lparr>rs_map = raw, rs_hash = canonical_hash e raw\<rparr>)
       (replay_loop e (sorted_timeline timeline) nodes graph_new)"

definition replay :: "env \<Rightarrow> sync_node list \<Rightarrow> policy option \<Rightarrow> resolved_state res rust" where
  "replay e nodes p =
     replay_with_policy_timeline e nodes (case p of Some pol \<Rightarrow> [\<lparr>te_effective_lamport = 0, te_policy = pol\<rparr>] | None \<Rightarrow> [])"

section \<open>One node\<close>

abbreviation mark_verified :: "sync_node \<Rightarrow> state_graph \<Rightarrow> state_graph" where
  "mark_verified n g \<equiv> g\<lparr>g_verified_ids := insert (n_id n) (g_verified_ids g)\<rparr>"

lemma marked: "n_id n \<in> g_verified_ids g \<Longrightarrow> mark_verified n g = g"
  by (simp add: insert_absorb)

lemma remote_passed:
  assumes "apply_remote_checked e n now g = Ret (r, g1)" "\<forall>er. verdict r \<noteq> Fail er"
  shows "precheck e now n g = Inr ()" "n_id n \<in> g_verified_ids g \<or> verify_signature e n = Inr ()"
    "apply_remote_verified e n (mark_verified n g) = Ret (r, g1)"
proof -
  have pre: "verdict (Inl er) = Fail er" if "precheck e now n g = Inl er" for er
    using that by (auto simp: precheck_def check_lamport_ceiling_def check_wall_skew_def Let_def split: option.splits if_splits)
  have sig: "verdict (Inl er) = Fail er" if "verify_signature e n = Inl er" for er
    using that by (auto simp: verify_signature_def split: if_splits)
  show p: "precheck e now n g = Inr ()"
  proof (cases "precheck e now n g")
    case (Inl er)
    then have "r = Inl er" using assms(1) by (simp add: apply_remote_checked_def)
    with pre [OF Inl] assms(2) show ?thesis by simp
  qed simp
  show s: "n_id n \<in> g_verified_ids g \<or> verify_signature e n = Inr ()"
  proof (cases "verify_signature e n")
    case (Inl er)
    then have "n_id n \<in> g_verified_ids g \<or> r = Inl er" using assms(1) p by (auto simp: apply_remote_checked_def split: if_splits)
    with sig [OF Inl] assms(2) show ?thesis by auto
  qed simp
  from assms(1) p s marked [of n g] show "apply_remote_verified e n (mark_verified n g) = Ret (r, g1)"
    by (auto simp: apply_remote_checked_def split: if_splits)
qed

lemma remote_settles:
  assumes "apply_remote_checked e n now g = Ret (r, g1)" "\<forall>er. verdict r \<noteq> Fail er" "graph_ok e g"
  obtains (stored) "verdict r = Settled" "all_nodes g1 = all_nodes g @ [n]" "policy_check (g_policy g) n = Inr ()"
      "\<forall>p \<in> set (tx_parents (n_tx n)). mns_contains (g_nodes g) p" "g_verified_ids g1 = insert (n_id n) (g_verified_ids g)"
  | (known) "verdict r = Settled" "g1 = mark_verified n g" "mns_contains (g_nodes g) (n_id n)"
  | (orphan) "verdict r = Retry" "g1 = mark_verified n g"
proof -
  note p = remote_passed [OF assms(1,2)]
  obtain q h where h: "apply_remote_verified_no_projection n (mark_verified n g) = (q, h)" by fastforce
  from h show ?thesis
  proof (cases rule: no_projection_cases)
    case accepted
    then have "r = Inr ()" using p(3) h by (auto simp: apply_remote_verified_def)
    have d: "dag g1 = dag (admitted n True (mark_verified n g))" using apply_remote_verified_dag [OF p(3)] h accepted(2) by simp
    have "mns_ok (g_nodes (mark_verified n g))" using assms(3) by (simp add: graph_ok_def)
    from all_nodes_admitted(1) [OF this accepted(3), of True] dag_all_nodes [OF d]
    have "all_nodes g1 = all_nodes g @ [n]" by (simp add: all_nodes_def)
    moreover have "g_verified_ids g1 = insert (n_id n) (g_verified_ids g)" using dag_eqD(6) [OF d] by (simp add: admitted_def)
    ultimately show ?thesis using accepted \<open>r = Inr ()\<close> by (intro stored) simp_all
  next
    case (rejected er)
    then have r: "r = Inl er" "g1 = mark_verified n g" using p(3) h by (auto simp: apply_remote_verified_def)
    have "policy_check (g_policy g) n \<noteq> Inl er" if "verdict (Inl er) = Settled \<or> verdict (Inl er) = Retry"
      using that by (auto simp: policy_check_def Let_def split: option.splits)
    then have "er = DuplicateNode (n_id n) \<and> mns_contains (g_nodes g) (n_id n) \<or> (\<exists>pa. er = MissingParent pa)"
      using h rejected assms(2) r(1) by (cases "verdict r") (auto simp: no_projection_spec split: option.splits sum.splits if_splits)
    with r known orphan show ?thesis by auto
  qed
qed

section \<open>A successful replay\<close>

definition replay_valid :: "env \<Rightarrow> policy_timeline_entry list \<Rightarrow> sync_node \<Rightarrow> bool" where
  "replay_valid e pt n \<longleftrightarrow> tx_hash e (n_tx n) = n_id n \<and> verify_signature e n = Inr () \<and> policy_check (policy_of pt n) n = Inr ()"

definition replay_inv :: "env \<Rightarrow> policy_timeline_entry list \<Rightarrow> sync_node set \<Rightarrow> state_graph \<Rightarrow> bool" where
  "replay_inv e pt N g \<longleftrightarrow> graph_ok e g \<and> set (all_nodes g) \<subseteq> {n \<in> N. replay_valid e pt n}
     \<and> (\<forall>n \<in> N. n_id n \<in> g_verified_ids g \<longrightarrow> verify_signature e n = Inr ())"

abbreviation under_policy :: "policy_timeline_entry list \<Rightarrow> sync_node \<Rightarrow> state_graph \<Rightarrow> state_graph" where
  "under_policy pt n \<equiv> set_policy (policy_of pt n)"

lemma set_policy_fields [simp]:
  "g_nodes (set_policy p g) = g_nodes g" "all_nodes (set_policy p g) = all_nodes g" "g_verified_ids (set_policy p g) = g_verified_ids g"
  "g_policy (set_policy p g) = p" "g_lamport (set_policy p g) = g_lamport g" "g_text_projections (set_policy p g) = g_text_projections g"
  by (simp_all add: set_policy_def all_nodes_def)

lemma graph_ok_set_policy: "graph_ok e g \<Longrightarrow> graph_ok e (set_policy p g)"
  by (erule graph_ok_dag) (simp add: dag_def set_policy_def)

lemma known_stored:
  assumes "graph_ok e g" "mns_contains (g_nodes g) (n_id n)" "set (all_nodes g) \<subseteq> N" "n \<in> N" "inj_on n_id N"
  shows "n \<in> set (all_nodes g)"
proof -
  have "n_id n \<in> n_id ` set (all_nodes g)" using assms(1,2) contains_all_nodes by (simp add: graph_ok_def)
  then show ?thesis using assms(3-5) by (auto dest: inj_onD)
qed

lemma replay_inv_step:
  assumes inv: "replay_inv e pt N g" and n: "n \<in> N" "inj_on n_id N"
    and r: "apply_remote e n (under_policy pt n g) = Ret (r, g1)" "\<forall>er. verdict r \<noteq> Fail er"
  shows "replay_inv e pt N g1" "set (all_nodes g) \<subseteq> set (all_nodes g1)" "verdict r = Settled \<Longrightarrow> n \<in> set (all_nodes g1)"
proof -
  let ?h = "under_policy pt n g"
  have ok: "graph_ok e ?h" using inv by (simp add: replay_inv_def graph_ok_set_policy)
  have rc: "apply_remote_checked e n None ?h = Ret (r, g1)" using r(1) by (simp add: apply_remote_def)
  note p = remote_passed [OF rc r(2)]
  have sig: "verify_signature e n = Inr ()"
    using p(2) inv n by (auto simp: replay_inv_def)
  have hash: "tx_hash e (n_tx n) = n_id n" using p(1) by (simp add: precheck_Inr)
  have ok1: "graph_ok e g1" by (rule graph_ok_remote [OF ok rc])
  have ver: "\<forall>m \<in> N. n_id m \<in> insert (n_id n) (g_verified_ids g) \<longrightarrow> verify_signature e m = Inr ()"
    using inv sig n by (auto simp: replay_inv_def dest: inj_onD)
  have "replay_inv e pt N g1 \<and> set (all_nodes g) \<subseteq> set (all_nodes g1) \<and> (verdict r = Settled \<longrightarrow> n \<in> set (all_nodes g1))"
    using rc r(2) ok
  proof (cases rule: remote_settles)
    case stored
    then show ?thesis using inv ok1 n(1) hash sig ver by (auto simp: replay_inv_def replay_valid_def)
  next
    case known
    then have "all_nodes g1 = all_nodes g" by (simp add: all_nodes_def set_policy_def)
    moreover have "n \<in> set (all_nodes g)" using known_stored [of e g n N] inv known(3) n by (auto simp: replay_inv_def)
    ultimately show ?thesis using inv ok1 ver known(2) by (simp add: replay_inv_def)
  next
    case orphan
    then have "all_nodes g1 = all_nodes g" by (simp add: all_nodes_def set_policy_def)
    then show ?thesis using inv ok1 ver orphan by (simp add: replay_inv_def)
  qed
  then show "replay_inv e pt N g1" "set (all_nodes g) \<subseteq> set (all_nodes g1)" "verdict r = Settled \<Longrightarrow> n \<in> set (all_nodes g1)" by blast+
qed

lemma replay_inv_pass:
  assumes "insert_pass e (under_policy pt) pending g = Ret (Inr still, g1)" "replay_inv e pt N g" "set pending \<subseteq> N" "inj_on n_id N"
  shows "replay_inv e pt N g1 \<and> set still \<subseteq> set pending \<and> set pending \<subseteq> set still \<union> set (all_nodes g1) \<and> set (all_nodes g) \<subseteq> set (all_nodes g1)"
  using assms(1-3)
proof (induction pending arbitrary: g still)
  case (Cons n rest)
  from Cons.prems(1) show ?case
  proof (cases rule: insert_pass_ConsE)
    case (1 r g2)
    note s = replay_inv_step [OF Cons.prems(2) _ assms(4) 1(1)]
    from Cons.IH [OF 1(3)] s 1(2) Cons.prems(3) show ?thesis by auto
  next
    case (2 r g2 still')
    note s = replay_inv_step [OF Cons.prems(2) _ assms(4) 2(1)]
    from Cons.IH [OF 2(3)] s 2(2,4) Cons.prems(3) show ?thesis by auto
  qed
qed simp

lemma replay_run:
  assumes "replay_loop e pt pending g = Ret (Inr (), g1)" "replay_inv e pt N g" "set pending \<subseteq> N" "inj_on n_id N"
  shows "replay_inv e pt N g1 \<and> set pending \<union> set (all_nodes g) \<subseteq> set (all_nodes g1)"
  using assms(1-3)
proof (induction e pt pending g rule: replay_loop.induct)
  case (1 e pt pending g)
  show ?case
  proof (cases "pending = []")
    case True
    with "1.prems" show ?thesis by (simp add: replay_loop.simps)
  next
    case False
    then obtain still g2 where p: "insert_pass e (under_policy pt) pending g = Ret (Inr still, g2)"
      "length still \<noteq> length pending" "replay_loop e pt still g2 = Ret (Inr (), g1)"
      using "1.prems"(1) by (auto simp: replay_loop.simps [of e pt pending] split: rust.splits prod.splits sum.splits if_splits)
    note s = replay_inv_pass [OF p(1) "1.prems"(2,3) assms(4)]
    have "replay_inv e pt N g1 \<and> set still \<union> set (all_nodes g2) \<subseteq> set (all_nodes g1)"
      by (rule "1.IH" [OF False p(1)]) (use s p "1.prems"(3) in auto)
    with s show ?thesis by blast
  qed
qed

section \<open>A replay of the same nodes in another order\<close>

text \<open>
  Nodes that no policy, signature or clock check of the replay refuses and that write no text.
\<close>

definition replayable :: "env \<Rightarrow> policy_timeline_entry list \<Rightarrow> sync_node set \<Rightarrow> bool" where
  "replayable e pt N \<longleftrightarrow> inj_on n_id N \<and> key_iter e {} = []
     \<and> (\<forall>n \<in> N. replay_valid e pt n \<and> tx_lamport (n_tx n) \<le> LAMPORT_SLACK \<and> node_text_keys n = {})"

lemma slack_le: "LAMPORT_SLACK \<le> sat_add l LAMPORT_SLACK"
  by (simp add: word_le_nat_alt unat_sat_add LAMPORT_SLACK_def)

lemma replayable_step:
  assumes N: "replayable e pt N" "n \<in> N" and g: "g_text_projections g = []"
  obtains r g1 where "apply_remote e n (under_policy pt n g) = Ret (r, g1)" "\<forall>er. verdict r \<noteq> Fail er" "g_text_projections g1 = []"
    "(\<forall>p \<in> set (tx_parents (n_tx n)). mns_contains (g_nodes g) p) \<longrightarrow> verdict r = Settled" "g_policy g1 = policy_of pt n"
proof -
  let ?h = "under_policy pt n g"
  have v: "tx_hash e (n_tx n) = n_id n" "verify_signature e n = Inr ()" "policy_check (g_policy ?h) n = Inr ()"
    using N by (simp_all add: replayable_def replay_valid_def)
  have "tx_lamport (n_tx n) \<le> sat_add (g_lamport ?h) LAMPORT_SLACK"
    using N by (auto simp: replayable_def intro: order_trans slack_le)
  then have pre: "precheck e None n ?h = Inr ()" using v(1) by (simp add: precheck_Inr)
  have known: "apply_remote_checked e n None ?h = apply_remote_verified e n (mark_verified n ?h)"
    using pre v(2) marked [of n ?h] by (auto simp: apply_remote_checked_def simp del: set_policy_fields)
  show ?thesis
  proof (cases "find (\<lambda>p. \<not> mns_contains (g_nodes g) p) (tx_parents (n_tx n))")
    case (Some p)
    then have "apply_remote e n ?h = Ret (Inl (MissingParent p), mark_verified n ?h)"
      using known by (simp add: apply_remote_def apply_remote_verified_def no_projection_spec)
    then show ?thesis by (rule that) (use Some g in \<open>auto simp: find_Some_iff\<close>)
  next
    case None
    then have par: "\<forall>p \<in> set (tx_parents (n_tx n)). mns_contains (g_nodes ?h) p" by (simp add: find_None_iff)
    show ?thesis
    proof (cases "mns_contains (g_nodes g) (n_id n)")
      case True
      then have "apply_remote e n ?h = Ret (Inl (DuplicateNode (n_id n)), mark_verified n ?h)"
        using known v(3) None by (simp add: apply_remote_def apply_remote_verified_def no_projection_spec)
      then show ?thesis by (rule that) (use g in auto)
    next
      case False
      from remote_text_free [OF pre _ par v(3)] v(2) False N g
      have "apply_remote_checked e n None ?h = Ret (Inr (), (admitted n True (mark_verified n ?h))
        \<lparr>g_text_apply_projection_update_calls := g_text_apply_projection_update_calls ?h + 1\<rparr>)" by (simp add: replayable_def)
      then show ?thesis unfolding apply_remote_def [symmetric] by (rule that) (use g in \<open>auto simp: admitted_def\<close>)
    qed
  qed
qed

lemma replayable_pass:
  assumes "replayable e pt N" "set pending \<subseteq> N" "replay_inv e pt N g" "g_text_projections g = []"
  shows "\<exists>still g1. insert_pass e (under_policy pt) pending g = Ret (Inr still, g1) \<and> g_text_projections g1 = []
    \<and> ((\<exists>n \<in> set pending. \<forall>p \<in> set (tx_parents (n_tx n)). mns_contains (g_nodes g) p) \<longrightarrow> length still < length pending)"
  using assms(2-)
proof (induction pending arbitrary: g)
  case (Cons n rest)
  have n: "n \<in> N" "set rest \<subseteq> N" using Cons.prems(1) by auto
  from replayable_step [OF assms(1) n(1) Cons.prems(3)] obtain r g2 where
    r: "apply_remote e n (under_policy pt n g) = Ret (r, g2)" "\<forall>er. verdict r \<noteq> Fail er" "g_text_projections g2 = []"
      "(\<forall>p \<in> set (tx_parents (n_tx n)). mns_contains (g_nodes g) p) \<longrightarrow> verdict r = Settled" "g_policy g2 = policy_of pt n" .
  have "inj_on n_id N" using assms(1) by (simp add: replayable_def)
  note s = replay_inv_step [OF Cons.prems(2) n(1) this r(1,2)]
  from Cons.IH [OF n(2) s(1) r(3)] obtain still g1 where
    i: "insert_pass e (under_policy pt) rest g2 = Ret (Inr still, g1)" "g_text_projections g1 = []"
      "(\<exists>n \<in> set rest. \<forall>p \<in> set (tx_parents (n_tx n)). mns_contains (g_nodes g2) p) \<longrightarrow> length still < length rest" by blast
  have mono: "mns_contains (g_nodes g2) p" if "mns_contains (g_nodes g) p" for p
    using that s(1,2) Cons.prems(2) by (auto simp: replay_inv_def graph_ok_def contains_all_nodes)
  show ?case
  proof (cases "verdict r")
    case Settled
    then show ?thesis using r(1) i insert_pass_length [OF i(1)] by simp
  next
    case Retry
    then have "\<not> (\<forall>p \<in> set (tx_parents (n_tx n)). mns_contains (g_nodes g) p)" using r(4) by auto
    then show ?thesis using r(1) Retry i mono by auto
  qed (use r(2) in auto)
qed simp

lemma linked_first_missing:
  assumes "linked S ns" "\<not> set ns \<subseteq> M"
  shows "\<exists>n \<in> set ns. n \<notin> M \<and> set (tx_parents (n_tx n)) \<subseteq> S \<union> n_id ` (set ns \<inter> M)"
  using assms
proof (induction ns arbitrary: S)
  case (Cons n ns)
  show ?case
  proof (cases "n \<in> M")
    case True
    then obtain m where "m \<in> set ns" "m \<notin> M" "set (tx_parents (n_tx m)) \<subseteq> insert (n_id n) S \<union> n_id ` (set ns \<inter> M)"
      using Cons.IH [of "insert (n_id n) S"] Cons.prems by auto
    then show ?thesis using True by auto
  qed (use Cons.prems in auto)
qed simp

lemma ready_node:
  assumes "linked {} L" "set L = N" "graph_ok e g" "N \<subseteq> set pending \<union> set (all_nodes g)" "set pending \<subseteq> N" "pending \<noteq> []"
  shows "\<exists>n \<in> set pending. \<forall>p \<in> set (tx_parents (n_tx n)). mns_contains (g_nodes g) p"
proof -
  have c: "mns_contains (g_nodes g) p \<longleftrightarrow> p \<in> n_id ` set (all_nodes g)" for p
    using assms(3) contains_all_nodes by (simp add: graph_ok_def)
  show ?thesis
  proof (cases "set L \<subseteq> set (all_nodes g)")
    case True
    have "hd pending \<in> set pending" using assms(6) by simp
    moreover from this have "hd pending \<in> set (all_nodes g)" using True assms(2,5) by auto
    ultimately show ?thesis
      using linked_parents [of "{}" "all_nodes g" "hd pending"] assms(3) unfolding c by (auto simp: graph_ok_def)
  next
    case False
    from linked_first_missing [OF assms(1) this] show ?thesis using assms(2,4) unfolding c by blast
  qed
qed

lemma replayable_loop:
  assumes "replayable e pt N" "linked {} L" "set L = N"
    and "set pending \<subseteq> N" "N \<subseteq> set pending \<union> set (all_nodes g)" "replay_inv e pt N g" "g_text_projections g = []"
  shows "\<exists>g1. replay_loop e pt pending g = Ret (Inr (), g1)"
  using assms(4-)
proof (induction pending arbitrary: g rule: length_induct)
  case (1 pending)
  show ?case
  proof (cases "pending = []")
    case False
    have inj: "inj_on n_id N" using assms(1) by (simp add: replayable_def)
    have ok: "graph_ok e g" using "1.prems"(3) by (simp add: replay_inv_def)
    have "\<exists>n \<in> set pending. \<forall>p \<in> set (tx_parents (n_tx n)). mns_contains (g_nodes g) p"
      by (rule ready_node [OF assms(2,3) ok "1.prems"(2,1) False])
    with replayable_pass [OF assms(1) "1.prems"(1,3,4)] obtain still g1 where
      p: "insert_pass e (under_policy pt) pending g = Ret (Inr still, g1)" "g_text_projections g1 = []" "length still < length pending" by blast
    note s = replay_inv_pass [OF p(1) "1.prems"(3,1) inj]
    have "set still \<subseteq> N" "N \<subseteq> set still \<union> set (all_nodes g1)" using s "1.prems"(1,2) by blast+
    then have "\<exists>g2. replay_loop e pt still g1 = Ret (Inr (), g2)"
      using "1.IH" [rule_format, OF p(3)] s p(2) by blast
    then show ?thesis using p False by (simp add: replay_loop.simps [of e pt pending])
  qed (simp add: replay_loop.simps)
qed

lemma replay_inv_new: "replay_inv e pt N graph_new"
  by (simp add: replay_inv_def graph_ok_new) (simp add: graph_new_def graph_with_store_def mns_new_def all_nodes_def mns_all_ids_def List.map_filter_simps)

lemma replay_resolves:
  "replay_with_policy_timeline e nodes timeline = Ret (Inr s) \<longleftrightarrow>
     (\<exists>g. replay_loop e (sorted_timeline timeline) nodes graph_new = Ret (Inr (), g)
       \<and> s = (let raw = btree_of ((graph_resolve g)(E2EE_KEY := None)) in \<lparr>rs_map = raw, rs_hash = canonical_hash e raw\<rparr>))"
  by (cases "replay_loop e (sorted_timeline timeline) nodes graph_new")
    (auto simp: replay_with_policy_timeline_def Let_def split: sum.splits prod.splits)

definition sample_reply :: sync_node where
  "sample_reply = sample_set 2 3 [5] [258]"

lemma sample_reply_id: "n_id sample_reply = 515"
  by (simp add: sample_reply_def of_be_def nat_of_be_def)

lemma sample_replayable: "replayable sample_env [] {sample_first, sample_reply}"
  using sample_set_ok sample_reply_id
  by (simp add: replayable_def replay_valid_def policy_of_def)
    (auto simp: sample_first_def sample_reply_def sample_hash word_le_nat_alt LAMPORT_SLACK_def of_be_sample)

lemma sample_replay: "\<exists>s. replay_with_policy_timeline sample_env [sample_first, sample_reply] [] = Ret (Inr s)"
proof -
  have "linked {} [sample_first, sample_reply]"
    using sample_reply_id by simp (simp add: sample_first_def sample_reply_def)
  then obtain g where "replay_loop sample_env [] [sample_first, sample_reply] graph_new = Ret (Inr (), g)"
    using replayable_loop [OF sample_replayable, of "[sample_first, sample_reply]" "[sample_first, sample_reply]" graph_new] replay_inv_new
    by (auto simp: graph_new_def graph_with_store_def)
  then show ?thesis unfolding replay_resolves by (simp add: sorted_timeline_def)
qed



end
