(* ===== verification/Graph_Local.thy ===== *)
theory Graph_Local
  imports Graph_Admission
begin

text \<open>
  Local writes and what becomes of them: a local write is seen at once in the speculative view, it
  does not enter the canonical view when it comes back from a peer, and an identity once verified
  admits a copy of the node under any signature.
\<close>

section \<open>Echoes\<close>

lemma known_node_rejected:
  assumes "apply_remote_checked e n now g = Ret (r, g')" "n_id n \<in> set (mns_all_ids (g_nodes g))"
  shows "r \<noteq> Inr () \<and> (g' = g \<or> g' = g\<lparr>g_verified_ids := insert (n_id n) (g_verified_ids g)\<rparr>)"
proof -
  have "r \<noteq> Inr ()" using remote_decided(1) [OF assms(1)] assms(2) by (simp add: admissible_def)
  with remote_decided(2) [OF assms(1)] show ?thesis by blast
qed

lemma known_node_returns:
  "mns_contains (g_nodes g) (n_id n) \<Longrightarrow> \<exists>r g'. apply_remote_checked e n now g = Ret (r, g')"
  by (auto simp: apply_remote_checked_def apply_remote_verified_def no_projection_spec split: sum.split option.split)

lemma local_id_known:
  assumes "graph_ok e g" "graph_ok e g'" "apply_local e sk wall ops g = Ret (Inr i, g')"
  shows "i \<in> set (mns_all_ids (g_nodes g'))"
proof -
  have "mns_ok (g_nodes g')" using assms(2) by (simp add: graph_ok_def)
  from ids_all_nodes [OF this, symmetric] local_accepted(1,2) [OF assms(1,3)] show ?thesis by simp
qed

section \<open>Verified identities\<close>

lemma missing_parent_verified:
  assumes "apply_remote_checked e n now g = Ret (Inl (MissingParent p), g')"
  shows "n_id n \<in> g_verified_ids g'"
proof -
  have pre: "precheck e now n g \<noteq> Inl (MissingParent p)"
    by (auto simp: precheck_def check_lamport_ceiling_def check_wall_skew_def Let_def split: option.split)
  have sig: "verify_signature e n \<noteq> Inl (MissingParent p)" by (auto simp: verify_signature_def)
  have "precheck e now n g = Inr ()" using assms pre by (cases "precheck e now n g") (auto simp: apply_remote_checked_def)
  then consider "n_id n \<in> g_verified_ids g" "apply_remote_verified e n g = Ret (Inl (MissingParent p), g')"
    | "apply_remote_verified e n (g\<lparr>g_verified_ids := insert (n_id n) (g_verified_ids g)\<rparr>) = Ret (Inl (MissingParent p), g')"
    using assms sig by (cases "verify_signature e n") (auto simp: apply_remote_checked_def split: if_splits)
  then show ?thesis by cases (use apply_remote_verified_rejects in fastforce)+
qed

lemma admissible_any_signature:
  "n_id n \<in> g_verified_ids g \<Longrightarrow> admissible e now (n\<lparr>n_sig := s\<rparr>) g \<longleftrightarrow> admissible e now n g"
  by (simp add: admissible_def is_snapshot_node_def)

lemma remote_accepted_stored:
  assumes "graph_ok e g" "apply_remote_checked e n now g = Ret (Inr (), g')"
  shows "n \<in> set (all_nodes g')"
proof -
  obtain h where h: "h = g \<or> h = g\<lparr>g_verified_ids := insert (n_id n) (g_verified_ids g)\<rparr>" "dag g' = dag (admitted n True h)"
    using remote_decided(3) [OF assms(2)] by blast
  have "\<not> mns_contains (g_nodes g) (n_id n)" using remote_decided(1) [OF assms(2)] by (simp add: admissible_def contains_ids)
  then have "all_nodes (admitted n True h) = all_nodes h @ [n]"
    using h(1) assms(1) by (intro all_nodes_admitted(1)) (auto simp: graph_ok_def)
  with dag_all_nodes [OF h(2)] show ?thesis by simp
qed

section \<open>A sample session\<close>

abbreviation sample_ops :: "op list" where
  "sample_ops \<equiv> [OpMap (MapSet ''k'' [9]), OpMap (MapSet ''k'' [10])]"

definition sample_local :: state_graph where
  "sample_local = (case apply_local sample_env 5 0 sample_ops graph_new of Ret (r, h) \<Rightarrow> h | Panic \<Rightarrow> graph_new)"

lemma sample_local_applied: "apply_local sample_env 5 0 sample_ops graph_new = Ret (Inr 261, sample_local)"
proof -
  let ?n = "local_node sample_env 5 0 sample_ops graph_new"
  have id: "n_id ?n = 261"
    by (simp add: local_node_def graph_new_def graph_with_store_def sync_node_new_signed_def Let_def tx_hash_def of_be_def nat_of_be_def sample_env_def)
  have tk: "node_text_keys ?n = {}"
    by (simp add: node_text_keys_def op_text_key_def List.map_filter_simps)
  have "\<exists>h. apply_local sample_env 5 0 sample_ops graph_new = Ret (Inr 261, h)"
    using update_projection_text_free [OF tk sample_set_ok(4)] id
    by (simp add: apply_local_spec Let_def graph_new_def graph_with_store_def mns_new_def mns_contains_def admitted_def)
  then show ?thesis by (auto simp: sample_local_def)
qed

lemma sample_local_reach: "graph_reach sample_env sample_local"
  by (rule reach_step [OF reach_new local_step [OF sample_local_applied]])

lemma sample_new_clock: "clock_ok graph_new" "g_lamport graph_new \<noteq> - 1"
  by (simp_all add: clock_ok_def sample_ok_new) (simp add: graph_new_def graph_with_store_def)

definition sample_child :: sync_node where
  "sample_child = (sample_set 2 3 [5] [258])\<lparr>n_sig := 1\<rparr>"

definition sample_waiting :: state_graph where
  "sample_waiting = graph_new\<lparr>g_verified_ids := {515}\<rparr>"

lemma sample_child_id: "n_id sample_child = 515"
  by (simp add: sample_child_def of_be_def nat_of_be_def)

lemma sample_child_ok:
  "verify_signature sample_env (sample_child\<lparr>n_sig := 1\<rparr>) = Inr ()" "verify_signature sample_env (sample_child\<lparr>n_sig := 7\<rparr>) \<noteq> Inr ()"
  "node_text_keys (sample_child\<lparr>n_sig := s\<rparr>) = {}" "policy_check default_policy (sample_child\<lparr>n_sig := s\<rparr>) = Inr ()"
  "sample_child\<lparr>n_sig := 1\<rparr> = sample_child"
  by (simp_all add: sample_child_def verify_signature_def sig_is_zero_def sample_env_def node_text_keys_def op_text_key_def
      List.map_filter_simps policy_check_def default_policy_def can_write_def Let_def)

lemma sample_child_precheck:
  assumes "g_lamport g \<le> 2"
  shows "precheck sample_env None (sample_child\<lparr>n_sig := s\<rparr>) g = Inr ()"
proof -
  have "unat (g_lamport g) \<le> 2" using assms by (simp add: word_le_nat_alt)
  then have "2 \<le> sat_add (g_lamport g) LAMPORT_SLACK" by (simp add: word_le_nat_alt unat_sat_add LAMPORT_SLACK_def)
  then show ?thesis by (simp add: precheck_Inr sample_child_id) (simp add: sample_child_def sample_hash of_be_def nat_of_be_def)
qed

lemma sample_child_waits:
  "apply_remote_checked sample_env sample_child None graph_new = Ret (Inl (MissingParent 258), sample_waiting)"
proof -
  have "precheck sample_env None sample_child graph_new = Inr ()"
    using sample_child_precheck [of graph_new 1] by (simp add: sample_child_ok(5) graph_new_def graph_with_store_def)
  then show ?thesis using sample_child_ok(1)
    by (simp add: apply_remote_checked_def sample_child_id sample_child_ok(5) apply_remote_verified_def no_projection_spec
        graph_new_def graph_with_store_def mns_new_def mns_contains_def sample_waiting_def) (simp add: sample_child_def)
qed

definition sample_parent_arrived :: state_graph where
  "sample_parent_arrived = sample_accept sample_first sample_waiting"

lemma sample_parent_arrived:
  "sample_ok sample_parent_arrived" "all_nodes sample_parent_arrived = [sample_first]"
  "g_verified_ids sample_parent_arrived = {515, 258}" "graph_reach sample_env sample_parent_arrived"
proof -
  have le: "(1 :: u64) \<le> 2" by (simp add: word_le_nat_alt)
  have w: "sample_ok sample_waiting" "all_nodes sample_waiting = []"
    using sample_ok_new by (simp_all add: sample_ok_def sample_waiting_def all_nodes_def)
  show "sample_ok sample_parent_arrived" "all_nodes sample_parent_arrived = [sample_first]"
    using sample_ok_accept [OF w(1) sample_first_def le] w(2) by (simp_all add: sample_parent_arrived_def)
  show "g_verified_ids sample_parent_arrived = {515, 258}"
    using sample_accept(2) [OF sample_first_def le, of sample_waiting] w
    by (simp add: sample_parent_arrived_def sample_ok_def admitted_def contains_all_nodes) (auto simp: sample_waiting_def)
  show "graph_reach sample_env sample_parent_arrived"
    unfolding sample_parent_arrived_def
    by (rule sample_accept_reach) (rule reach_step [OF reach_new remote_step [OF sample_child_waits]])
qed

lemma sample_forged_accepted:
  "\<exists>h. apply_remote_checked sample_env (sample_child\<lparr>n_sig := 7\<rparr>) None sample_parent_arrived = Ret (Inr (), h)"
proof -
  note g = sample_parent_arrived
  have c: "mns_contains (g_nodes sample_parent_arrived) i \<longleftrightarrow> i = 258" for i
    using g(1,2) by (simp add: sample_ok_def contains_all_nodes)
  show ?thesis
    by (rule exI, rule remote_text_free)
      (use g(1,3) sample_child_precheck sample_child_ok(3,4) sample_set_ok(4) in
        \<open>auto simp: sample_ok_def c sample_child_id\<close>, simp_all add: sample_child_def)
qed

section \<open>Properties\<close>

text \<open>A local write is at once what the speculative view shows for its key (the first write of
  the key when the transaction has several), and leaves the canonical view of every key unchanged.\<close>

theorem local_write_visible:
  assumes "env_ok e" "graph_reach e g" "clock_ok g" "g_lamport g \<noteq> - 1"
    and "apply_local e sk wall ops g = Ret (Inr i, g')" "first_write key ops = Some m"
  shows "read_speculative g' key = map_op_value m \<and> read_canonical g' k = read_canonical g k"
  using local_write_read [OF assms(1) graph_reach_ok [OF assms(1,2)] assms(3-6)] by blast

theorem local_write_visible_witness:
  "read_speculative sample_local ''k'' = Some [9] \<and> read_canonical sample_local ''k'' = None"
proof -
  have "first_write ''k'' sample_ops = Some (MapSet ''k'' [9])" by (simp add: first_write_def List.map_filter_simps)
  from local_write_visible [OF env_ok_sample reach_new sample_new_clock sample_local_applied this, of "''k''"]
  show ?thesis by (simp add: read_canonical_def graph_new_def graph_with_store_def state_caches_default_def)
qed



text \<open>C33: once a valid copy of a node was turned away for a missing parent, the signature of a later
  copy plays no part: a copy under any signature is accepted exactly when the node itself would be,
  and it is the copy that is stored.\<close>

theorem forged_signature_admitted:
  assumes "env_ok e" "graph_reach e h" "apply_remote_checked e n now g = Ret (Inl (MissingParent p), g1)"
    and "g_verified_ids g1 \<subseteq> g_verified_ids h" "apply_remote_checked e (n\<lparr>n_sig := s\<rparr>) now' h = Ret (r, h')"
  shows "(r = Inr () \<longleftrightarrow> admissible e now' n h) \<and> (r = Inr () \<longrightarrow> n\<lparr>n_sig := s\<rparr> \<in> set (all_nodes h'))"
proof -
  have "n_id n \<in> g_verified_ids h" using missing_parent_verified [OF assms(3)] assms(4) by blast
  then have "r = Inr () \<longleftrightarrow> admissible e now' n h"
    using remote_decided(1) [OF assms(5)] admissible_any_signature by metis
  then show ?thesis using remote_accepted_stored [OF graph_reach_ok [OF assms(1,2)]] assms(5) by blast
qed

theorem forged_signature_admitted_witness:
  "\<exists>h'. apply_remote_checked sample_env (sample_child\<lparr>n_sig := 7\<rparr>) None sample_parent_arrived = Ret (Inr (), h')
     \<and> sample_child\<lparr>n_sig := 7\<rparr> \<in> set (all_nodes h') \<and> verify_signature sample_env (sample_child\<lparr>n_sig := 7\<rparr>) \<noteq> Inr ()"
proof -
  have v: "g_verified_ids sample_waiting \<subseteq> g_verified_ids sample_parent_arrived"
    by (simp add: sample_parent_arrived(3)) (simp add: sample_waiting_def)
  obtain h' where h: "apply_remote_checked sample_env (sample_child\<lparr>n_sig := 7\<rparr>) None sample_parent_arrived = Ret (Inr (), h')"
    using sample_forged_accepted by blast
  from forged_signature_admitted [OF env_ok_sample sample_parent_arrived(4) sample_child_waits v h] h sample_child_ok(2)
  show ?thesis by blast
qed

end
