(* ===== verification/Compaction.thy ===== *)
theory Compaction
  imports Replay Graph_Local
begin

text \<open>
  Compaction (\<open>compaction.rs\<close>): a snapshot node that carries the hash of the resolved map and the frontier
  it stands for, its verification, and the graph that is rebuilt from it. The postcard coding of
  identifier lists and policy timelines is the record \<open>snap_codec\<close>. The theory also has the
  \<open>compact-room\<close> handler of the server (\<open>ws_handler.rs\<close>).
\<close>

section \<open>Sentinel keys\<close>

definition SNAP_FRONT_KEY :: string where
  "SNAP_FRONT_KEY = CHR 0x00 # ''snap:front''"

definition SNAP_BASE_KEY :: string where
  "SNAP_BASE_KEY = CHR 0x00 # ''snap:base''"

definition SNAP_POLICY_TIMELINE_HASH_KEY :: string where
  "SNAP_POLICY_TIMELINE_HASH_KEY = CHR 0x00 # ''snap:policy:hash''"

definition SNAP_POLICY_CUTOVER_LAMPORT_KEY :: string where
  "SNAP_POLICY_CUTOVER_LAMPORT_KEY = CHR 0x00 # ''snap:policy:cutover''"

lemmas snap_key_defs = SNAP_HASH_KEY_def SNAP_FRONT_KEY_def SNAP_BASE_KEY_def SNAP_POLICY_TIMELINE_HASH_KEY_def
  SNAP_POLICY_CUTOVER_LAMPORT_KEY_def

record snapshot_meta =
  sm_snapshot_hash :: hash
  sm_frontier :: "node_id list"
  sm_author :: pubkey
  sm_base_id :: "node_id option"
  sm_policy_timeline_hash :: "hash option"
  sm_policy_cutover_lamport :: "u64 option"

record snap_codec =
  postcard_ids :: "node_id list \<Rightarrow> bytes option"
  unpostcard_ids :: "bytes \<Rightarrow> node_id list option"
  postcard_timeline :: "policy_timeline_entry list \<Rightarrow> bytes"

definition ids_roundtrip :: "snap_codec \<Rightarrow> bool" where
  "ids_roundtrip c \<longleftrightarrow> (\<forall>ids. \<exists>bs. postcard_ids c ids = Some bs \<and> unpostcard_ids c bs = Some ids)"

section \<open>Making a snapshot\<close>

definition no_hash :: sync_error where
  "no_hash = HashMismatch 0 0"

definition set_op :: "string \<Rightarrow> bytes \<Rightarrow> op" where
  "set_op key v = OpMap (MapSet key v)"

definition snapshot_map :: "state_graph \<Rightarrow> btree" where
  "snapshot_map g = btree_of (\<lambda>k. if k \<noteq> [] \<and> hd k = CHR 0x00 then None else graph_resolve g k)"

definition frontier_ids :: "state_graph \<Rightarrow> node_id list" where
  "frontier_ids g = sort (heads (g_frontier g))"

definition policy_timeline_ops :: "env \<Rightarrow> snap_codec \<Rightarrow> policy_timeline_entry list \<Rightarrow> op list" where
  "policy_timeline_ops e c timeline =
     (if timeline = [] then []
      else set_op SNAP_POLICY_TIMELINE_HASH_KEY (be_bytes 32 (policy_timeline_hash e (postcard_timeline c) timeline))
        # (case policy_timeline_cutover_lamport timeline of
             Some cutover \<Rightarrow> [set_op SNAP_POLICY_CUTOVER_LAMPORT_KEY (to_le_bytes 8 cutover)]
           | None \<Rightarrow> []))"

definition snapshot_tx :: "env \<Rightarrow> seed \<Rightarrow> state_graph \<Rightarrow> op list \<Rightarrow> transaction" where
  "snapshot_tx e signing_key g ops =
     \<lparr>tx_author = ed_public e signing_key, tx_lamport = g_lamport g + 1, tx_wall_ms = 0, tx_ops = ops, tx_parents = []\<rparr>"

definition compact_with_policy_timeline ::
  "env \<Rightarrow> snap_codec \<Rightarrow> state_graph \<Rightarrow> seed \<Rightarrow> policy_timeline_entry list \<Rightarrow> sync_node res" where
  "compact_with_policy_timeline e c g signing_key timeline =
     (let snap_hash = canonical_hash e (snapshot_map g) in
      case postcard_ids c (frontier_ids g) of
        None \<Rightarrow> Inl no_hash
      | Some frontier_bytes \<Rightarrow>
          let ops = [set_op SNAP_HASH_KEY (be_bytes 32 snap_hash), set_op SNAP_FRONT_KEY frontier_bytes]
                @ policy_timeline_ops e c timeline
          in Inr (sync_node_new_signed e (snapshot_tx e signing_key g ops) signing_key))"

definition compact :: "env \<Rightarrow> snap_codec \<Rightarrow> state_graph \<Rightarrow> seed \<Rightarrow> sync_node res" where
  "compact e c g signing_key = compact_with_policy_timeline e c g signing_key []"

definition compact_incremental_with_policy_timeline ::
  "env \<Rightarrow> snap_codec \<Rightarrow> state_graph \<Rightarrow> seed \<Rightarrow> node_id \<Rightarrow> policy_timeline_entry list \<Rightarrow> sync_node res" where
  "compact_incremental_with_policy_timeline e c g signing_key base_snapshot_id timeline =
     (let snap_hash = canonical_hash e (snapshot_map g) in
      case postcard_ids c (frontier_ids g) of
        None \<Rightarrow> Inl no_hash
      | Some frontier_bytes \<Rightarrow>
          let ops = [set_op SNAP_HASH_KEY (be_bytes 32 snap_hash), set_op SNAP_FRONT_KEY frontier_bytes,
                set_op SNAP_BASE_KEY (be_bytes 32 base_snapshot_id)] @ policy_timeline_ops e c timeline
          in Inr (sync_node_new_signed e (snapshot_tx e signing_key g ops) signing_key))"

definition compact_incremental :: "env \<Rightarrow> snap_codec \<Rightarrow> state_graph \<Rightarrow> seed \<Rightarrow> node_id \<Rightarrow> sync_node res" where
  "compact_incremental e c g signing_key base_snapshot_id =
     compact_incremental_with_policy_timeline e c g signing_key base_snapshot_id []"

section \<open>Reading a snapshot\<close>

record snap_fields =
  sf_hash :: "hash option"
  sf_frontier :: "node_id list option"
  sf_base :: "node_id option"
  sf_policy_hash :: "hash option"
  sf_cutover :: "u64 option"

definition no_fields :: snap_fields where
  "no_fields = \<lparr>sf_hash = None, sf_frontier = None, sf_base = None, sf_policy_hash = None, sf_cutover = None\<rparr>"

definition read_field :: "snap_codec \<Rightarrow> string \<Rightarrow> bytes \<Rightarrow> snap_fields \<Rightarrow> snap_fields res" where
  "read_field c key v f =
     (if key = SNAP_HASH_KEY then if length v = 32 then Inr (f\<lparr>sf_hash := Some (of_be v)\<rparr>) else Inl no_hash
      else if key = SNAP_FRONT_KEY then
        (case unpostcard_ids c v of None \<Rightarrow> Inl no_hash | Some ids \<Rightarrow> Inr (f\<lparr>sf_frontier := Some ids\<rparr>))
      else if key = SNAP_BASE_KEY then Inr (if length v = 32 then f\<lparr>sf_base := Some (of_be v)\<rparr> else f)
      else if key = SNAP_POLICY_TIMELINE_HASH_KEY then Inr (if length v = 32 then f\<lparr>sf_policy_hash := Some (of_be v)\<rparr> else f)
      else if key = SNAP_POLICY_CUTOVER_LAMPORT_KEY then Inr (if length v = 8 then f\<lparr>sf_cutover := Some (from_le_bytes v)\<rparr> else f)
      else Inr f)"

fun read_fields :: "snap_codec \<Rightarrow> op list \<Rightarrow> snap_fields \<Rightarrow> snap_fields res" where
  "read_fields c [] f = Inr f"
| "read_fields c (OpMap (MapSet key v) # ops) f = (case read_field c key v f of Inl er \<Rightarrow> Inl er | Inr f1 \<Rightarrow> read_fields c ops f1)"
| "read_fields c (_ # ops) f = read_fields c ops f"

definition verify_snapshot :: "env \<Rightarrow> snap_codec \<Rightarrow> sync_node \<Rightarrow> snapshot_meta res" where
  "verify_snapshot e c node =
     (case verify_signature e node of
        Inl er \<Rightarrow> Inl er
      | Inr _ \<Rightarrow>
          (case read_fields c (tx_ops (n_tx node)) no_fields of
             Inl er \<Rightarrow> Inl er
           | Inr f \<Rightarrow>
               (case sf_hash f of
                  None \<Rightarrow> Inl no_hash
                | Some snapshot_hash \<Rightarrow>
                    (case sf_frontier f of
                       None \<Rightarrow> Inl no_hash
                     | Some frontier \<Rightarrow>
                         Inr \<lparr>sm_snapshot_hash = snapshot_hash, sm_frontier = frontier, sm_author = tx_author (n_tx node),
                           sm_base_id = sf_base f, sm_policy_timeline_hash = sf_policy_hash f,
                           sm_policy_cutover_lamport = sf_cutover f\<rparr>))))"

definition snapshot_policy_timeline_compatible :: "env \<Rightarrow> snap_codec \<Rightarrow> snapshot_meta \<Rightarrow> policy_timeline_entry list \<Rightarrow> bool" where
  "snapshot_policy_timeline_compatible e c meta timeline \<longleftrightarrow>
     sm_policy_timeline_hash meta = None \<and> sm_policy_cutover_lamport meta = None
     \<or> sm_policy_timeline_hash meta = Some (policy_timeline_hash e (postcard_timeline c) timeline)
       \<and> sm_policy_cutover_lamport meta = policy_timeline_cutover_lamport timeline"

section \<open>Rebuilding\<close>

function rebuild_loop :: "env \<Rightarrow> sync_node list \<Rightarrow> state_graph \<Rightarrow> state_graph res rust" where
  "rebuild_loop e pending g =
     (if pending = [] then Ret (Inr g)
      else case insert_pass e (\<lambda>_ g. g) pending g of
          Panic \<Rightarrow> Panic
        | Ret (Inl er, g1) \<Rightarrow> Ret (Inl er)
        | Ret (Inr still, g1) \<Rightarrow> if length still = length pending then Ret (Inr g1) else rebuild_loop e still g1)"
  by pat_completeness auto
termination
  by (relation "measure (\<lambda>(e, pending, g). length pending)") (auto dest!: insert_pass_length)

declare rebuild_loop.simps [simp del]

definition rebuild_from_snapshot :: "env \<Rightarrow> snap_codec \<Rightarrow> sync_node \<Rightarrow> sync_node list \<Rightarrow> state_graph res rust" where
  "rebuild_from_snapshot e c snapshot delta =
     (case verify_snapshot e c snapshot of
        Inl er \<Rightarrow> Ret (Inl er)
      | Inr _ \<Rightarrow>
          (case apply_remote e snapshot graph_new of
             Panic \<Rightarrow> Panic
           | Ret (Inl er, _) \<Rightarrow> Ret (Inl er)
           | Ret (Inr _, graph) \<Rightarrow> rebuild_loop e delta graph))"

definition pack_snapshot_pack :: "env \<Rightarrow> sync_node \<Rightarrow> sync_node list \<Rightarrow> bytes" where
  "pack_snapshot_pack e snapshot delta = pack_nodes e (snapshot # delta)"

definition unpack_snapshot_pack :: "env \<Rightarrow> bytes \<Rightarrow> (sync_node \<times> sync_node list) res" where
  "unpack_snapshot_pack e bs =
     (case unpack_nodes e bs of
        Inl er \<Rightarrow> Inl er
      | Inr [] \<Rightarrow> Inl (MissingParent 0)
      | Inr (snapshot # nodes) \<Rightarrow> if is_snapshot_node snapshot then Inr (snapshot, nodes) else Inl (HashMismatch 0 (n_id snapshot)))"

section \<open>The server's \<open>compact-room\<close> command\<close>

datatype compact_room_reply = CompactFailed sync_error | VerifyFailed sync_error | RebuildFailed sync_error | CompactAck string bytes

definition handle_compact_room :: "env \<Rightarrow> snap_codec \<Rightarrow> seed \<Rightarrow> state_graph \<Rightarrow> (compact_room_reply \<times> state_graph) rust" where
  "handle_compact_room e c server_key room_graph =
     (case compact e c room_graph server_key of
        Inl er \<Rightarrow> Ret (CompactFailed er, room_graph)
      | Inr snap \<Rightarrow>
          (case verify_snapshot e c snap of
             Inl er \<Rightarrow> Ret (VerifyFailed er, room_graph)
           | Inr meta \<Rightarrow>
               (case rebuild_from_snapshot e c snap [] of
                  Panic \<Rightarrow> Panic
                | Ret (Inl er) \<Rightarrow> Ret (RebuildFailed er, room_graph)
                | Ret (Inr rebuilt) \<Rightarrow>
                    Ret (CompactAck (hash_to_hex (sm_snapshot_hash meta)) (pack_snapshot_pack e snap []), rebuilt))))"

section \<open>What a snapshot says\<close>

abbreviation sentinel :: "string \<Rightarrow> bool" where
  "sentinel key \<equiv> key \<noteq> [] \<and> hd key = CHR 0x00"

lemma snap_keys_distinct:
  "SNAP_FRONT_KEY \<noteq> SNAP_HASH_KEY" "SNAP_BASE_KEY \<noteq> SNAP_HASH_KEY" "SNAP_BASE_KEY \<noteq> SNAP_FRONT_KEY"
  "SNAP_POLICY_TIMELINE_HASH_KEY \<notin> {SNAP_HASH_KEY, SNAP_FRONT_KEY, SNAP_BASE_KEY}"
  "SNAP_POLICY_CUTOVER_LAMPORT_KEY \<notin> {SNAP_HASH_KEY, SNAP_FRONT_KEY, SNAP_BASE_KEY, SNAP_POLICY_TIMELINE_HASH_KEY}"
  by (simp_all add: snap_key_defs)

lemma read_snapshot_fields:
  "read_field c SNAP_HASH_KEY (be_bytes 32 h) f = Inr (f\<lparr>sf_hash := Some h\<rparr>)"
  "unpostcard_ids c bs = Some ids \<Longrightarrow> read_field c SNAP_FRONT_KEY bs f = Inr (f\<lparr>sf_frontier := Some ids\<rparr>)"
  "read_field c SNAP_BASE_KEY (be_bytes 32 b) f = Inr (f\<lparr>sf_base := Some b\<rparr>)"
  "read_field c SNAP_POLICY_TIMELINE_HASH_KEY (be_bytes 32 p) f = Inr (f\<lparr>sf_policy_hash := Some p\<rparr>)"
  "read_field c SNAP_POLICY_CUTOVER_LAMPORT_KEY (to_le_bytes 8 l) f = Inr (f\<lparr>sf_cutover := Some l\<rparr>)"
  using snap_keys_distinct by (simp_all add: read_field_def of_be_be_bytes to_le_bytes_def from_le_bytes_def)

definition timeline_fields :: "env \<Rightarrow> snap_codec \<Rightarrow> policy_timeline_entry list \<Rightarrow> snap_fields \<Rightarrow> snap_fields" where
  "timeline_fields e c timeline f =
     (if timeline = [] then f
      else f\<lparr>sf_policy_hash := Some (policy_timeline_hash e (postcard_timeline c) timeline),
             sf_cutover := policy_timeline_cutover_lamport timeline\<rparr>)"

lemma read_timeline: "read_fields c (policy_timeline_ops e c timeline) f = Inr (timeline_fields e c timeline f)"
  by (simp add: policy_timeline_ops_def timeline_fields_def policy_timeline_cutover_lamport_def set_op_def read_snapshot_fields)

lemma compacted:
  assumes "ids_roundtrip c"
  obtains bs where "compact_with_policy_timeline e c g sk timeline =
      Inr (sync_node_new_signed e (snapshot_tx e sk g (set_op SNAP_HASH_KEY (be_bytes 32 (canonical_hash e (snapshot_map g)))
        # set_op SNAP_FRONT_KEY bs # policy_timeline_ops e c timeline)) sk)" "unpostcard_ids c bs = Some (frontier_ids g)"
proof -
  obtain bs where "postcard_ids c (frontier_ids g) = Some bs" "unpostcard_ids c bs = Some (frontier_ids g)"
    using assms by (auto simp: ids_roundtrip_def)
  then show ?thesis by (intro that [of bs]) (simp_all add: compact_with_policy_timeline_def Let_def)
qed

lemma snapshot_signed: "sign_correct e \<Longrightarrow> verify_signature e (sync_node_new_signed e (snapshot_tx e sk g ops) sk) = Inr ()"
  by (simp add: verify_signature_def sync_node_new_signed_def sign_correct_def Let_def sig_is_zero_def snapshot_tx_def)

lemma snapshot_verifies:
  assumes "sign_correct e" "ids_roundtrip c" "compact_with_policy_timeline e c g sk timeline = Inr n"
  shows "verify_snapshot e c n = Inr \<lparr>sm_snapshot_hash = canonical_hash e (snapshot_map g), sm_frontier = frontier_ids g,
      sm_author = ed_public e sk, sm_base_id = None,
      sm_policy_timeline_hash = (if timeline = [] then None else Some (policy_timeline_hash e (postcard_timeline c) timeline)),
      sm_policy_cutover_lamport = (if timeline = [] then None else policy_timeline_cutover_lamport timeline)\<rparr>"
proof -
  obtain bs where n: "n = sync_node_new_signed e (snapshot_tx e sk g (set_op SNAP_HASH_KEY (be_bytes 32 (canonical_hash e (snapshot_map g)))
        # set_op SNAP_FRONT_KEY bs # policy_timeline_ops e c timeline)) sk" "unpostcard_ids c bs = Some (frontier_ids g)"
    using compacted [OF assms(2), of e g sk timeline] assms(3) by auto
  have "read_fields c (tx_ops (n_tx n)) no_fields = Inr (timeline_fields e c timeline
      (no_fields\<lparr>sf_hash := Some (canonical_hash e (snapshot_map g)), sf_frontier := Some (frontier_ids g)\<rparr>))"
    using n(2) by (simp add: n(1) sync_node_new_signed_def Let_def snapshot_tx_def set_op_def read_snapshot_fields read_timeline)
  moreover have "tx_author (n_tx n) = ed_public e sk" by (simp add: n(1) sync_node_new_signed_def Let_def snapshot_tx_def)
  moreover have "verify_signature e n = Inr ()" using snapshot_signed [OF assms(1)] by (simp add: n(1))
  ultimately show ?thesis by (simp add: verify_snapshot_def timeline_fields_def no_fields_def)
qed

lemma replay_map_unwritten:
  assumes "\<forall>n \<in> set ns. \<forall>m. OpMap m \<in> set (tx_ops (n_tx n)) \<longrightarrow> map_op_key m \<noteq> key"
  shows "replay_map ns key = None"
proof -
  have "node_writes key n = []" if "n \<in> set ns" for n
  proof -
    have "op_write (n_tx n) key op = None" if "op \<in> set (tx_ops (n_tx n))" for op
      using assms that \<open>n \<in> set ns\<close> by (cases op) auto
    then show ?thesis by (simp add: node_writes_def List.map_filter_def filter_empty_conv)
  qed
  then have "fold (replay_node key) ns s = s" for s
    by (induction ns arbitrary: s) simp_all
  then show ?thesis by (simp add: replay_map_entries)
qed

lemma finite_resolved: "graph_ok e g \<Longrightarrow> finite (dom (graph_resolve g))"
proof -
  assume ok: "graph_ok e g"
  let ?K = "\<Union>n \<in> set (all_nodes g). (\<lambda>op. case op of OpMap m \<Rightarrow> map_op_key m | _ \<Rightarrow> []) ` set (tx_ops (n_tx n))"
  have "dom (graph_resolve g) \<subseteq> ?K"
  proof
    fix key assume "key \<in> dom (graph_resolve g)"
    then have "replay_map (all_nodes g) key \<noteq> None" by (auto simp: graph_ok_views(1) [OF ok])
    with replay_map_unwritten [of "all_nodes g" key] show "key \<in> ?K" by force
  qed
  then show ?thesis by (rule finite_subset) simp
qed

lemma btree_of_inj: "finite (dom m) \<Longrightarrow> finite (dom m') \<Longrightarrow> btree_of m = btree_of m' \<longleftrightarrow> m = m'"
proof
  have r: "map_of (btree_of m) = m" if "finite (dom m)" for m
  proof
    fix k
    show "map_of (btree_of m) k = m k"
      using that by (cases "m k") (auto simp: btree_of_def map_of_map_restrict restrict_map_def dom_def)
  qed
  assume "finite (dom m)" "finite (dom m')" "btree_of m = btree_of m'"
  then show "m = m'" using r by metis
qed simp

section \<open>Installing a snapshot\<close>

lemma timeline_ops_keys: "op \<in> set (policy_timeline_ops e c timeline) \<Longrightarrow> \<exists>k v. op = OpMap (MapSet k v) \<and> sentinel k"
  by (auto simp: policy_timeline_ops_def set_op_def snap_key_defs split: if_splits option.splits)

lemma snapshot_shape:
  assumes "compact_with_policy_timeline e c g sk timeline = Inr n"
  shows "tx_hash e (n_tx n) = n_id n" "tx_lamport (n_tx n) = g_lamport g + 1" "tx_parents (n_tx n) = []" "is_snapshot_node n"
    "node_text_keys n = {}" "\<forall>op \<in> set (tx_ops (n_tx n)). \<exists>k v. op = OpMap (MapSet k v) \<and> sentinel k"
proof -
  obtain h bs where n: "n = sync_node_new_signed e (snapshot_tx e sk g (set_op SNAP_HASH_KEY h # set_op SNAP_FRONT_KEY bs
      # policy_timeline_ops e c timeline)) sk"
    using assms by (auto simp: compact_with_policy_timeline_def Let_def split: option.splits)
  show "tx_hash e (n_tx n) = n_id n" "tx_lamport (n_tx n) = g_lamport g + 1" "tx_parents (n_tx n) = []" "is_snapshot_node n"
    by (simp_all add: n sync_node_new_signed_def snapshot_tx_def Let_def is_snapshot_node_def set_op_def)
  show keys: "\<forall>op \<in> set (tx_ops (n_tx n)). \<exists>k v. op = OpMap (MapSet k v) \<and> sentinel k"
    using timeline_ops_keys [of _ e c timeline]
    by (auto simp: n sync_node_new_signed_def snapshot_tx_def Let_def set_op_def SNAP_HASH_KEY_def SNAP_FRONT_KEY_def)
  have "op_text_key op = None" if "op \<in> set (tx_ops (n_tx n))" for op
    using keys that by (auto simp: op_text_key_def)
  then show "node_text_keys n = {}" by (simp add: node_text_keys_def List.map_filter_def filter_empty_conv)
qed

lemma new_graph_fields: "g_lamport graph_new = 0" "g_text_projections graph_new = []" "all_nodes graph_new = []"
    "g_policy graph_new = default_policy" "\<not> mns_contains (g_nodes graph_new) i"
  by (simp_all add: graph_new_def graph_with_store_def mns_new_def all_nodes_def mns_all_ids_def mns_contains_def List.map_filter_simps)

lemma sat_add_zero: "sat_add 0 LAMPORT_SLACK = LAMPORT_SLACK"
  by (simp add: sat_add_def LAMPORT_SLACK_def)

lemma snapshot_applies:
  assumes "env_ok e" "compact_with_policy_timeline e c g sk timeline = Inr n" "verify_signature e n = Inr ()"
  shows "g_lamport g + 1 \<le> LAMPORT_SLACK \<Longrightarrow> \<exists>h. apply_remote e n graph_new = Ret (Inr (), h) \<and> graph_ok e h \<and> all_nodes h = [n]"
    "LAMPORT_SLACK < g_lamport g + 1 \<Longrightarrow> apply_remote e n graph_new =
       Ret (Inl (LamportCeiling (n_id n) (g_lamport g + 1) LAMPORT_SLACK), graph_new)"
proof -
  note sh = snapshot_shape [OF assms(2)]
  have k: "key_iter e {} = []" using assms(1) by (metis env_ok_def finite.emptyI iter_enumerates_def set_empty)
  assume le: "g_lamport g + 1 \<le> LAMPORT_SLACK"
  then have pre: "precheck e None n graph_new = Inr ()" using sh(1,2) by (simp add: precheck_Inr new_graph_fields sat_add_zero)
  obtain h where h: "apply_remote_checked e n None graph_new = Ret (Inr (), h)"
    using remote_text_free [OF pre _ _ _ new_graph_fields(5) sh(5) k new_graph_fields(2)] assms(3) sh(3,4)
    by (auto simp: policy_check_def)
  have ok: "graph_ok e h" by (rule graph_ok_remote [OF graph_ok_new h])
  from h have "all_nodes h = [n]"
    by (rule remote_settles [OF _ _ graph_ok_new]) (auto simp: new_graph_fields)
  with h ok show "\<exists>h. apply_remote e n graph_new = Ret (Inr (), h) \<and> graph_ok e h \<and> all_nodes h = [n]"
    by (auto simp: apply_remote_def)
next
  note sh = snapshot_shape [OF assms(2)]
  assume "LAMPORT_SLACK < g_lamport g + 1"
  then show "apply_remote e n graph_new = Ret (Inl (LamportCeiling (n_id n) (g_lamport g + 1) LAMPORT_SLACK), graph_new)"
    using sh(1,2) by (simp add: apply_remote_def apply_remote_checked_def precheck_def check_lamport_ceiling_def new_graph_fields sat_add_zero)
qed

section \<open>Sample codec\<close>

fun read_ids :: "nat \<Rightarrow> bytes \<Rightarrow> node_id list" where
  "read_ids 0 bs = []"
| "read_ids (Suc n) bs = of_be (take 32 bs) # read_ids n (drop 32 bs)"

definition sample_codec :: snap_codec where
  "sample_codec = \<lparr>postcard_ids = (\<lambda>ids. Some (concat (map (be_bytes 32) ids))),
     unpostcard_ids = (\<lambda>bs. Some (read_ids (length bs div 32) bs)), postcard_timeline = (\<lambda>tl. [])\<rparr>"

lemma sample_codec_ok: "ids_roundtrip sample_codec"
proof -
  have "read_ids (length ids) (concat (map (be_bytes 32) ids)) = ids" for ids
    by (induction ids) (simp_all add: of_be_be_bytes)
  moreover have "length (concat (map (be_bytes 32) ids)) = 32 * length ids" for ids :: "node_id list"
    by (induction ids) simp_all
  ultimately show ?thesis by (simp add: ids_roundtrip_def sample_codec_def)
qed

section \<open>Properties\<close>

text \<open>C31: compacting a room discards its state. After a \<open>compact-room\<close> command that succeeds the room's
  graph holds the snapshot node alone and no user key of the map has a value any more; the command
  succeeds exactly while the clock is below the slack of a fresh graph, and afterwards always fails with a
  clock error and leaves the room unchanged.\<close>

theorem compact_room_loses_state:
  assumes "env_ok e" "ids_roundtrip c"
  shows "\<exists>snap reply h. compact e c g sk = Inr snap \<and> handle_compact_room e c sk g = Ret (reply, h)
    \<and> (if g_lamport g + 1 \<le> LAMPORT_SLACK
       then reply = CompactAck (hash_to_hex (canonical_hash e (snapshot_map g))) (pack_nodes e [snap])
         \<and> all_nodes h = [snap] \<and> (\<forall>key. \<not> sentinel key \<longrightarrow> graph_resolve h key = None)
       else reply = RebuildFailed (LamportCeiling (n_id snap) (g_lamport g + 1) LAMPORT_SLACK) \<and> h = g)"
proof -
  have sc: "sign_correct e" using assms(1) by (simp add: env_ok_def)
  obtain n where n: "compact_with_policy_timeline e c g sk [] = Inr n" using compacted [OF assms(2)] by metis
  note v = snapshot_verifies [OF sc assms(2) n]
  have sig: "verify_signature e n = Inr ()" using v by (cases "verify_signature e n") (auto simp: verify_snapshot_def)
  note a = snapshot_applies [OF assms(1) n sig]
  show ?thesis
  proof (cases "g_lamport g + 1 \<le> LAMPORT_SLACK")
    case True
    from a(1) [OF True] obtain h where h: "apply_remote e n graph_new = Ret (Inr (), h)" "graph_ok e h" "all_nodes h = [n]" by blast
    have "graph_resolve h key = None" if "\<not> sentinel key" for key
      using replay_map_unwritten [of "[n]" key] snapshot_shape(6) [OF n] that by (fastforce simp: graph_ok_views(1) [OF h(2)] h(3))
    then show ?thesis using True n v h
      by (simp add: compact_def handle_compact_room_def rebuild_from_snapshot_def rebuild_loop.simps pack_snapshot_pack_def)
  next
    case False
    then show ?thesis using n v a(2) by (simp add: compact_def handle_compact_room_def rebuild_from_snapshot_def)
  qed
qed

lemma sample_clock: "g_lamport sample_g12 + 1 \<le> LAMPORT_SLACK"
proof -
  have le: "(1 :: u64) \<le> 2" by (simp add: word_le_nat_alt)
  note a = sample_ok_accept [OF sample_ok_new(1) sample_first_def le]
  have "sample_ok sample_g12" unfolding sample_g12_def
    by (rule sample_ok_accept(2) [OF a(2) sample_second_def]) (simp_all add: a(3) sample_ok_new)
  then have "g_lamport sample_g12 \<le> 2" by (simp add: sample_ok_def)
  then show ?thesis by (simp add: word_le_nat_alt LAMPORT_SLACK_def unat_word_ariths)
qed

theorem compact_room_loses_state_witness:
  "graph_resolve sample_g12 ''k'' = Some [8]
   \<and> (\<exists>reply h. handle_compact_room sample_env sample_codec 0 sample_g12 = Ret (reply, h) \<and> graph_resolve h ''k'' = None)"
proof -
  have "graph_resolve sample_g12 ''k'' = Some [8]"
    by (simp add: graph_ok_views(1) [OF graph_reach_ok [OF env_ok_sample sample_reach(1)]] sample_g12_nodes
        replay_map_def sample_first_def sample_second_def Let_def)
  with compact_room_loses_state [OF env_ok_sample sample_codec_ok, of sample_g12 0] sample_clock show ?thesis by auto
qed

lemma linked_ids: "linked S ns \<Longrightarrow> distinct (map n_id ns) \<and> n_id ` set ns \<inter> S = {}"
  by (induction S ns rule: linked.induct) auto

lemma replayed_state:
  assumes "graph_ok e g" "replay_with_policy_timeline e (all_nodes g) timeline = Ret (Inr s)"
    "inj_on (\<lambda>tx. (tx_lamport tx, tx_author tx)) (transactions g)"
  shows "rs_map s = btree_of ((graph_resolve g)(E2EE_KEY := None))" "rs_hash s = canonical_hash e (rs_map s)"
proof -
  from assms(2) obtain h where h: "replay_loop e (sorted_timeline timeline) (all_nodes g) graph_new = Ret (Inr (), h)"
    "s = (let raw = btree_of ((graph_resolve h)(E2EE_KEY := None)) in \<lparr>rs_map = raw, rs_hash = canonical_hash e raw\<rparr>)"
    unfolding replay_resolves by blast
  have "linked {} (all_nodes g)" using assms(1) by (simp add: graph_ok_def)
  from linked_ids [OF this] have inj: "inj_on n_id (set (all_nodes g))" by (simp add: distinct_map)
  from replay_run [OF h(1) replay_inv_new subset_refl inj]
  have r: "graph_ok e h" "set (all_nodes h) = set (all_nodes g)" by (auto simp: replay_inv_def)
  from same_transactions_same_state(1) [OF assms(1) r(1) _ assms(3)] r(2) have "graph_resolve h = graph_resolve g" by simp
  with h(2) show "rs_map s = btree_of ((graph_resolve g)(E2EE_KEY := None))" "rs_hash s = canonical_hash e (rs_map s)"
    by (simp_all add: Let_def)
qed

lemma snapshot_map_replayed:
  assumes "graph_ok e g"
  shows "btree_of ((graph_resolve g)(E2EE_KEY := None)) = snapshot_map g
    \<longleftrightarrow> (\<forall>key. sentinel key \<and> key \<noteq> E2EE_KEY \<longrightarrow> graph_resolve g key = None)"
proof -
  let ?r = "graph_resolve g" and ?m = "\<lambda>k. if sentinel k then None else graph_resolve g k"
  have fin: "finite (dom (?r(E2EE_KEY := None)))" "finite (dom ?m)"
    using finite_resolved [OF assms] by (auto elim!: rev_finite_subset simp: dom_def)
  have "?r(E2EE_KEY := None) = ?m \<longleftrightarrow> (\<forall>key. sentinel key \<and> key \<noteq> E2EE_KEY \<longrightarrow> ?r key = None)"
    by (auto simp: fun_eq_iff E2EE_KEY_def)
  with btree_of_inj [OF fin] show ?thesis by (simp add: snapshot_map_def)
qed

text \<open>C17: a snapshot made from a graph verifies under the key that signed it, names the graph's frontier
  and is compatible with the policy timeline it was made for, and its hash is the one that replaying the graph's
  nodes gives when the only reserved key with a value is the encryption one; with any other
  reserved key, as an earlier snapshot leaves, the replayed map is a different one.\<close>

theorem snapshot_verified_by_replay:
  assumes "env_ok e" "ids_roundtrip c" "graph_reach e g" "compact_with_policy_timeline e c g sk timeline = Inr n"
    and "replay_with_policy_timeline e (all_nodes g) timeline = Ret (Inr s)"
    and "inj_on (\<lambda>tx. (tx_lamport tx, tx_author tx)) (transactions g)"
  shows "\<exists>meta. verify_snapshot e c n = Inr meta \<and> sm_author meta = ed_public e sk \<and> set (sm_frontier meta) = g_leaves g
    \<and> snapshot_policy_timeline_compatible e c meta timeline
    \<and> (if \<forall>key. sentinel key \<and> key \<noteq> E2EE_KEY \<longrightarrow> graph_resolve g key = None
       then sm_snapshot_hash meta = rs_hash s else sm_snapshot_hash meta = canonical_hash e (snapshot_map g) \<and> rs_map s \<noteq> snapshot_map g)"
proof -
  have sc: "sign_correct e" using assms(1) by (simp add: env_ok_def)
  have ok: "graph_ok e g" by (rule graph_reach_ok [OF assms(1,3)])
  then have "set (frontier_ids g) = g_leaves g" by (simp add: frontier_ids_def graph_ok_def)
  then show ?thesis
    using snapshot_verifies [OF sc assms(2,4)] replayed_state [OF ok assms(5,6)] snapshot_map_replayed [OF ok]
    by (auto simp: snapshot_policy_timeline_compatible_def)
qed

lemma sample_pair_replays: "\<exists>s. replay_with_policy_timeline sample_env [sample_first, sample_second] [] = Ret (Inr s)"
proof -
  have "replayable sample_env [] {sample_first, sample_second}"
    using sample_set_ok by (simp add: replayable_def replay_valid_def policy_of_def)
      (auto simp: sample_first_def sample_second_def sample_hash word_le_nat_alt LAMPORT_SLACK_def of_be_sample)
  moreover have "linked {} [sample_first, sample_second]" by simp (simp add: sample_first_def sample_second_def)
  ultimately obtain g where "replay_loop sample_env [] [sample_first, sample_second] graph_new = Ret (Inr (), g)"
    using replayable_loop [of sample_env "[]" "{sample_first, sample_second}" "[sample_first, sample_second]"
        "[sample_first, sample_second]" graph_new] replay_inv_new new_graph_fields by auto
  then show ?thesis unfolding replay_resolves by (simp add: sorted_timeline_def)
qed

lemma sample_no_sentinel: "sentinel key \<Longrightarrow> graph_resolve sample_g12 key = None"
  by (subst graph_ok_views(1) [OF graph_reach_ok [OF env_ok_sample sample_reach(1)]])
    (rule replay_map_unwritten, auto simp: sample_g12_nodes sample_first_def sample_second_def)

theorem snapshot_verified_by_replay_witness:
  "\<exists>n s meta. compact_with_policy_timeline sample_env sample_codec sample_g12 0 [] = Inr n
     \<and> replay_with_policy_timeline sample_env (all_nodes sample_g12) [] = Ret (Inr s)
     \<and> verify_snapshot sample_env sample_codec n = Inr meta \<and> sm_snapshot_hash meta = rs_hash s"
proof -
  obtain n where n: "compact_with_policy_timeline sample_env sample_codec sample_g12 0 [] = Inr n"
    using compacted [OF sample_codec_ok] by metis
  obtain s where s: "replay_with_policy_timeline sample_env (all_nodes sample_g12) [] = Ret (Inr s)"
    using sample_pair_replays by (auto simp: sample_g12_nodes)
  from snapshot_verified_by_replay [OF env_ok_sample sample_codec_ok sample_reach(1) n s sample_transactions(2)] sample_no_sentinel n s
  show ?thesis by auto
qed

text \<open>C30: the write policy binds only nodes without a snapshot marker: a node that writes the reserved key of
  snapshot hashes among its operations, by any author, is admitted under every policy if an open room would
  admit it, and all its operations with it.\<close>

theorem snapshot_marker_bypasses_policy:
  assumes "env_ok e" "graph_reach e g" "OpMap (MapSet SNAP_HASH_KEY v) \<in> set (tx_ops (n_tx n))"
    and "apply_remote_checked e n now (set_policy default_policy g) = Ret (Inr (), h)"
    and "apply_remote_checked e n now (set_policy p g) = Ret (r, h')"
  shows "r = Inr () \<and> all_nodes h' = all_nodes g @ [n]"
proof -
  have "is_snapshot_node n" using assms(3) by (force simp: is_snapshot_node_def list_ex_iff)
  moreover have "admissible e now n (set_policy default_policy g)" using remote_decided(1) [OF assms(4)] by simp
  ultimately have adm: "admissible e now n (set_policy p g)" by (simp add: admissible_def)
  then have r: "r = Inr ()" using remote_decided(1) [OF assms(5)] by simp
  have ok: "graph_ok e (set_policy p g)" by (rule graph_ok_set_policy [OF graph_reach_ok [OF assms(1,2)]])
  from assms(5) have "all_nodes h' = all_nodes g @ [n]"
    by (rule remote_settles [OF _ _ ok]) (use r adm in \<open>auto simp: admissible_def contains_ids\<close>)
  with r show ?thesis by simp
qed

definition sample_marked :: sync_node where
  "sample_marked = sync_node_new sample_env \<lparr>tx_author = 9, tx_lamport = 1, tx_wall_ms = 0,
     tx_ops = [OpMap (MapSet ''k'' [66]), OpMap (MapSet SNAP_HASH_KEY [])], tx_parents = []\<rparr>"

abbreviation deny_all :: policy where
  "deny_all \<equiv> \<lparr>p_rules = [], p_default = DenyAll\<rparr>"

lemma sample_marked_admitted:
  obtains h where "apply_remote_checked sample_env sample_marked None (set_policy p graph_new) = Ret (Inr (), h)"
proof -
  have "precheck sample_env None sample_marked (set_policy p graph_new) = Inr ()"
    by (simp add: precheck_Inr new_graph_fields sat_add_zero)
      (simp add: sample_marked_def sync_node_new_def word_le_nat_alt LAMPORT_SLACK_def)
  moreover have "node_text_keys sample_marked = {}" "verify_signature sample_env sample_marked = Inr ()" "tx_parents (n_tx sample_marked) = []"
    "policy_check p sample_marked = Inr ()"
    by (simp_all add: sample_marked_def sync_node_new_def node_text_keys_def op_text_key_def List.map_filter_simps verify_signature_def
        sig_is_zero_def policy_check_def is_snapshot_node_def)
  ultimately show ?thesis
    using remote_text_free [of sample_env None sample_marked "set_policy p graph_new"] sample_set_ok(4) new_graph_fields that by simp
qed

theorem snapshot_marker_bypasses_policy_witness:
  "\<not> can_write deny_all ''k'' 9 \<and> (\<exists>h. apply_remote_checked sample_env sample_marked None (set_policy deny_all graph_new) = Ret (Inr (), h)
     \<and> all_nodes h = [sample_marked] \<and> OpMap (MapSet ''k'' [66]) \<in> set (tx_ops (n_tx sample_marked)) \<and> tx_author (n_tx sample_marked) = 9)"
proof -
  obtain h h' where h: "apply_remote_checked sample_env sample_marked None (set_policy default_policy graph_new) = Ret (Inr (), h)"
    "apply_remote_checked sample_env sample_marked None (set_policy deny_all graph_new) = Ret (Inr (), h')"
    using sample_marked_admitted by metis
  have "OpMap (MapSet SNAP_HASH_KEY []) \<in> set (tx_ops (n_tx sample_marked))" by (simp add: sample_marked_def sync_node_new_def)
  from snapshot_marker_bypasses_policy [OF env_ok_sample reach_new this h] h(2) show ?thesis
    by (auto simp: new_graph_fields can_write_def) (simp_all add: sample_marked_def sync_node_new_def)
qed

end
