(* ===== verification/Crypto.thy ===== *)
theory Crypto
  imports Replay
begin

text \<open>
  End-to-end encryption of operations (\<open>crypto.rs\<close>). HKDF, AES-256-GCM and the postcard coding of an operation
  list are the record \<open>cipher\<close>; \<open>cipher_ok\<close> states what the module relies on: key derivation fills
  its output, decryption inverts encryption under the same key and nonce, and decoding inverts encoding.
\<close>

record cipher =
  hkdf :: "bytes \<Rightarrow> bytes \<Rightarrow> nat \<Rightarrow> bytes"
  aes_encrypt :: "bytes \<Rightarrow> bytes \<Rightarrow> bytes \<Rightarrow> bytes option"
  aes_decrypt :: "bytes \<Rightarrow> bytes \<Rightarrow> bytes \<Rightarrow> bytes option"
  postcard_ops :: "op list \<Rightarrow> string + bytes"
  unpostcard_ops :: "bytes \<Rightarrow> string + op list"

definition cipher_ok :: "cipher \<Rightarrow> bool" where
  "cipher_ok c \<longleftrightarrow> (\<forall>ikm info n. length (hkdf c ikm info n) = n)
     \<and> (\<forall>key nonce p x. aes_encrypt c key nonce p = Some x \<longrightarrow> aes_decrypt c key nonce x = Some p)
     \<and> (\<forall>ops bs. postcard_ops c ops = Inr bs \<longrightarrow> unpostcard_ops c bs = Inr ops)"

section \<open>Key and nonce derivation\<close>

definition derive_room_key :: "cipher \<Rightarrow> seed \<Rightarrow> hash" where
  "derive_room_key c room_seed = of_be (hkdf c (be_bytes 32 room_seed) (map of_char ''nodalmerge-e2ee-v1'') 32)"

definition derive_nonce :: "cipher \<Rightarrow> hash \<Rightarrow> pubkey \<Rightarrow> u64 \<Rightarrow> bytes" where
  "derive_nonce c room_key author lamport =
     hkdf c (be_bytes 32 room_key) (map of_char ''nodalmerge-nonce-v1'' @ be_bytes 32 author @ to_le_bytes 8 lamport) 12"

section \<open>Encryption\<close>

definition encrypt_ops :: "cipher \<Rightarrow> hash \<Rightarrow> pubkey \<Rightarrow> u64 \<Rightarrow> op list \<Rightarrow> bytes res" where
  "encrypt_ops c room_key author lamport ops =
     (let nonce = derive_nonce c room_key author lamport in
      case postcard_ops c ops of
        Inl msg \<Rightarrow> Inl (Serialization msg)
      | Inr plaintext \<Rightarrow>
          (case aes_encrypt c (be_bytes 32 room_key) nonce plaintext of
             None \<Rightarrow> Inl EncryptionFailed
           | Some ciphertext \<Rightarrow> Inr (nonce @ ciphertext)))"

definition decrypt_ops :: "cipher \<Rightarrow> hash \<Rightarrow> bytes \<Rightarrow> op list res" where
  "decrypt_ops c room_key payload =
     (if length payload < 12 then Inl DecryptionFailed
      else case aes_decrypt c (be_bytes 32 room_key) (take 12 payload) (drop 12 payload) of
          None \<Rightarrow> Inl DecryptionFailed
        | Some plaintext \<Rightarrow>
            (case unpostcard_ops c plaintext of Inl msg \<Rightarrow> Inl (Serialization msg) | Inr ops \<Rightarrow> Inr ops))"

fun extract_encrypted_payload :: "op list \<Rightarrow> bytes option" where
  "extract_encrypted_payload [OpMap (MapSet key v)] = (if key = E2EE_KEY then Some v else None)"
| "extract_encrypted_payload _ = None"

fun is_encrypted_node :: "op list \<Rightarrow> bool" where
  "is_encrypted_node [OpMap (MapSet key v)] = (key = E2EE_KEY)"
| "is_encrypted_node _ = False"

definition wrap_encrypted_ops :: "cipher \<Rightarrow> hash \<Rightarrow> pubkey \<Rightarrow> u64 \<Rightarrow> op list \<Rightarrow> op list res" where
  "wrap_encrypted_ops c room_key author lamport ops =
     map_sum id (\<lambda>payload. [OpMap (MapSet E2EE_KEY payload)]) (encrypt_ops c room_key author lamport ops)"

section \<open>Round trip\<close>

lemma encrypted_payload: "is_encrypted_node ops \<Longrightarrow> \<exists>p. extract_encrypted_payload ops = Some p"
  by (cases ops rule: is_encrypted_node.cases) simp_all

lemma wrapped_is_encrypted:
  "wrap_encrypted_ops c k a l ops = Inr w \<Longrightarrow> is_encrypted_node w \<and> (\<exists>p. w = [OpMap (MapSet E2EE_KEY p)])"
  by (cases "encrypt_ops c k a l ops") (auto simp: wrap_encrypted_ops_def)

lemma decrypt_encrypt:
  assumes "cipher_ok c" "encrypt_ops c k a l ops = Inr payload"
  shows "decrypt_ops c k payload = Inr ops"
proof -
  obtain p x where p: "postcard_ops c ops = Inr p" "aes_encrypt c (be_bytes 32 k) (derive_nonce c k a l) p = Some x"
    "payload = derive_nonce c k a l @ x"
    using assms(2) by (auto simp: encrypt_ops_def Let_def split: sum.splits option.splits)
  have "length (derive_nonce c k a l) = 12" using assms(1) by (simp add: derive_nonce_def cipher_ok_def)
  moreover have "aes_decrypt c (be_bytes 32 k) (derive_nonce c k a l) x = Some p" "unpostcard_ops c p = Inr ops"
    using assms(1) p(1,2) by (auto simp: cipher_ok_def)
  ultimately show ?thesis by (simp add: decrypt_ops_def p(3))
qed

text \<open>
  A concrete instance: the key stream is constant, encryption leaves the text as it is, and the operations of
  the samples are coded by their position in a list.
\<close>

definition sample_cipher :: cipher where
  "sample_cipher = \<lparr>hkdf = (\<lambda>ikm info n. replicate n 0), aes_encrypt = (\<lambda>k n p. Some p), aes_decrypt = (\<lambda>k n p. Some p),
     postcard_ops = (\<lambda>ops. if ops = [OpMap (MapSet ''k'' [7])] then Inr [1] else Inl ''unsupported''),
     unpostcard_ops = (\<lambda>bs. if bs = [1] then Inr [OpMap (MapSet ''k'' [7])] else Inl ''unsupported'')\<rparr>"

lemma sample_cipher_ok: "cipher_ok sample_cipher"
  by (simp add: cipher_ok_def sample_cipher_def)

end
