(* ===== verification/Token.thy ===== *)
theory Token
  imports Op_Node
begin

text \<open>
  Access: the capability tokens that admit a peer to a room (\<open>token.rs\<close>) and the negotiation of protocol
  features between two peers (\<open>capabilities.rs\<close>). A room identifier and a capability are strings, read as their
  bytes where they are signed.
\<close>

section \<open>Room tokens\<close>

definition DOMAIN :: bytes where
  "DOMAIN = map of_char ''nodalmerge-room-token-v1''"

datatype token_error = Expired | BadSignature | PeerMismatch | Malformed string

record room_token =
  rt_peer_pubkey :: pubkey
  rt_expiry_secs :: u64
  rt_capabilities :: "string list"
  rt_signature :: sig64

fun join_lines :: "string list \<Rightarrow> string" where
  "join_lines [] = []"
| "join_lines [s] = s"
| "join_lines (s # t # rest) = s @ CHR 0x0A # join_lines (t # rest)"

definition token_message :: "string \<Rightarrow> pubkey \<Rightarrow> u64 \<Rightarrow> string list \<Rightarrow> bytes" where
  "token_message room_id peer_pubkey expiry_secs sorted_caps =
     DOMAIN @ [0] @ map of_char room_id @ [0] @ be_bytes 32 peer_pubkey @ to_le_bytes 8 expiry_secs @ [0]
       @ map of_char (join_lines sorted_caps)"

definition token_from_wire :: "string \<Rightarrow> u64 \<Rightarrow> string list \<Rightarrow> string \<Rightarrow> token_error + room_token" where
  "token_from_wire peer_pubkey_hex expiry_secs capabilities sig_hex =
     (case hex_to_array 32 peer_pubkey_hex of
        None \<Rightarrow> Inl (Malformed ''peer_pubkey'')
      | Some peer_pubkey \<Rightarrow>
          (case hex_to_array 64 sig_hex of
             None \<Rightarrow> Inl (Malformed ''sig'')
           | Some sig_bytes \<Rightarrow>
               Inr \<lparr>rt_peer_pubkey = of_be peer_pubkey, rt_expiry_secs = expiry_secs, rt_capabilities = capabilities,
                 rt_signature = of_be sig_bytes\<rparr>))"

definition token_sign :: "env \<Rightarrow> string \<Rightarrow> pubkey \<Rightarrow> u64 \<Rightarrow> string list \<Rightarrow> seed \<Rightarrow> room_token" where
  "token_sign e room_id peer_pubkey expiry_secs capabilities signing_key =
     (let sorted_caps = sort capabilities in
      \<lparr>rt_peer_pubkey = peer_pubkey, rt_expiry_secs = expiry_secs, rt_capabilities = sorted_caps,
       rt_signature = ed_sign e signing_key (token_message room_id peer_pubkey expiry_secs sorted_caps)\<rparr>)"

definition token_verify :: "env \<Rightarrow> room_token \<Rightarrow> string \<Rightarrow> pubkey \<Rightarrow> pubkey \<Rightarrow> u64 \<Rightarrow> token_error + unit" where
  "token_verify e t room_id room_verifying_key connecting_peer_pubkey now_secs =
     (if rt_peer_pubkey t \<noteq> connecting_peer_pubkey then Inl PeerMismatch
      else if rt_expiry_secs t \<le> now_secs then Inl Expired
      else if ed_verify e room_verifying_key
          (token_message room_id (rt_peer_pubkey t) (rt_expiry_secs t) (sort (rt_capabilities t))) (rt_signature t)
        then Inr () else Inl BadSignature)"

definition sig_hex :: "room_token \<Rightarrow> string" where
  "sig_hex t = bytes_to_hex (be_bytes 64 (rt_signature t))"

definition peer_pubkey_hex :: "room_token \<Rightarrow> string" where
  "peer_pubkey_hex t = bytes_to_hex (be_bytes 32 (rt_peer_pubkey t))"

section \<open>Feature negotiation\<close>

record sync_capabilities =
  supports_ibf :: bool
  supports_mst :: bool
  supports_postcard :: bool
  supports_encryption :: bool
  supports_webrtc :: bool
  max_tick_interval_ms :: "u64 option"
  supports_list_crdt :: bool
  supports_direct_blob_io :: bool

definition default_capabilities :: sync_capabilities where
  "default_capabilities = \<lparr>supports_ibf = True, supports_mst = True, supports_postcard = True, supports_encryption = True,
     supports_webrtc = False, max_tick_interval_ms = None, supports_list_crdt = True, supports_direct_blob_io = True\<rparr>"

definition intersect :: "sync_capabilities \<Rightarrow> sync_capabilities \<Rightarrow> sync_capabilities" where
  "intersect a b =
     \<lparr>supports_ibf = (supports_ibf a \<and> supports_ibf b),
      supports_mst = (supports_mst a \<and> supports_mst b),
      supports_postcard = (supports_postcard a \<and> supports_postcard b),
      supports_encryption = (supports_encryption a \<and> supports_encryption b),
      supports_webrtc = (supports_webrtc a \<and> supports_webrtc b),
      max_tick_interval_ms =
        (case (max_tick_interval_ms a, max_tick_interval_ms b) of (Some x, Some y) \<Rightarrow> Some (max x y) | _ \<Rightarrow> None),
      supports_list_crdt = (supports_list_crdt a \<and> supports_list_crdt b),
      supports_direct_blob_io = (supports_direct_blob_io a \<and> supports_direct_blob_io b)\<rparr>"

section \<open>What a token binds\<close>

lemma split_at_marker:
  assumes "xs @ m # ys = xs' @ m # ys'" "m \<notin> set xs" "m \<notin> set xs'"
  shows "xs = xs' \<and> ys = ys'"
  using assms
proof (induction xs arbitrary: xs')
  case Nil
  then show ?case by (cases xs') auto
next
  case (Cons x xs)
  then show ?case by (cases xs') auto
qed

lemma unat_of_char: "unat (of_char c :: u8) = of_char c"
proof -
  have "unat (of_nat (of_char c) :: u8) = of_char c mod 2 ^ LENGTH(8)" by (rule unat_of_nat)
  also have "\<dots> = of_char c" using of_char_mod_256 [of c] by simp
  finally show ?thesis by (simp only: of_nat_of_char)
qed

lemma map_of_char_inj: "map (of_char :: char \<Rightarrow> u8) s = map of_char t \<longleftrightarrow> s = t"
proof -
  have "inj (of_char :: char \<Rightarrow> u8)" by (rule injI) (metis unat_of_char of_char_eqI)
  then show ?thesis by (simp add: inj_map_eq_map)
qed

lemma join_lines_inj:
  assumes "join_lines cs = join_lines ds" "\<forall>s \<in> set cs \<union> set ds. CHR 0x0A \<notin> set s \<and> s \<noteq> []"
  shows "cs = ds"
  using assms
proof (induction cs arbitrary: ds rule: join_lines.induct)
  case 1
  then show ?case by (cases ds rule: join_lines.cases) auto
next
  case (2 s)
  then show ?case by (cases ds rule: join_lines.cases) auto
next
  case (3 s t rest)
  show ?case
  proof (cases ds rule: join_lines.cases)
    case (3 s' t' rest')
    have "s = s' \<and> join_lines (t # rest) = join_lines (t' # rest')"
      using "3.prems" by (intro split_at_marker) (auto simp: 3)
    with "3.IH" [of "t' # rest'"] "3.prems"(2) show ?thesis by (auto simp: 3)
  qed (use "3.prems" in auto)
qed

lemma marker_free: "CHR 0x00 \<notin> set s \<Longrightarrow> (0 :: u8) \<notin> of_char ` set s"
proof
  assume n: "CHR 0x00 \<notin> set s" and "(0 :: u8) \<in> of_char ` set s"
  then obtain c where c: "c \<in> set s" "(of_char c :: u8) = 0" by auto
  then have "of_char c = (0 :: nat)" using unat_of_char [of c] by simp
  then have "c = CHR 0x00" by (intro of_char_eqI [where 'a = nat]) simp
  with c n show False by simp
qed

section \<open>Properties\<close>



text \<open>Outside these bounds the bytes are ambiguous: a token granted the single empty capability verifies just as
  well when it is presented with no capabilities at all, which \<open>token.rs\<close> documents as full access.\<close>

lemma token_empty_capability_ambiguous:
  assumes "sign_correct e" "now < expiry"
  shows "token_verify e ((token_sign e room peer expiry [[]] sk)\<lparr>rt_capabilities := []\<rparr>) room (ed_public e sk) peer now = Inr ()"
  using assms by (simp add: token_verify_def token_sign_def Let_def token_message_def sign_correct_def not_le)

lemma token_signed_verifies:
  assumes "sign_correct e" "now < expiry"
  shows "token_verify e (token_sign e room peer expiry caps sk) room (ed_public e sk) peer now = Inr ()"
  using assms by (simp add: token_verify_def token_sign_def Let_def sign_correct_def not_le sorted_sort_id)

lemma token_wire_roundtrip:
  "token_from_wire (peer_pubkey_hex t) (rt_expiry_secs t) (rt_capabilities t) (sig_hex t) = Inr t"
  by (simp add: token_from_wire_def peer_pubkey_hex_def sig_hex_def hex_to_array_bytes_to_hex of_be_be_bytes)

text \<open>Negotiation is symmetric and grants only features that both sides have; the negotiated tick interval is the
  larger of the two, so it may exceed what one side accepts.\<close>

lemma intersect_commute: "intersect a b = intersect b a"
  by (auto simp: intersect_def max.commute split: option.split)

lemma intersect_idem: "intersect a a = a"
  by (simp add: intersect_def split: option.split)

lemma intersect_tick_interval:
  "max_tick_interval_ms a = Some x \<Longrightarrow> max_tick_interval_ms b = Some y \<Longrightarrow> x < y
   \<Longrightarrow> max_tick_interval_ms (intersect a b) = Some y"
  by (simp add: intersect_def)

end
