(* ===== verification/Base64.thy ===== *)
theory Base64
  imports Prelude
begin

text \<open>
  The base64 codec of the browser client (\<open>clients/bridge-wasm/src/lib.rs\<close>). The decoder stops at a group that
  starts with \<open>=\<close> and accepts a last group without padding.
\<close>

definition B64_CHARS :: string where
  "B64_CHARS = ''ABCDEFGHIJKLMNOPQRSTUVWXYZabcdefghijklmnopqrstuvwxyz0123456789+/''"

definition B64_TABLE :: "u8 list" where
  "B64_TABLE = map word_of_nat (replicate 43 255 @ [62] @ replicate 3 255 @ [63] @ [52..<62] @ replicate 7 255
     @ [0..<26] @ replicate 6 255 @ [26..<52] @ replicate 5 255)"

section \<open>Encoding\<close>

definition b64_char :: "u64 \<Rightarrow> char" where
  "b64_char i = B64_CHARS ! unat i"

definition b64_group :: "u8 \<Rightarrow> u8 option \<Rightarrow> u8 option \<Rightarrow> string" where
  "b64_group x y z =
     (let b0 = ucast x :: u64;
          b1 = ucast (case y of Some v \<Rightarrow> v | None \<Rightarrow> 0) :: u64;
          b2 = ucast (case z of Some v \<Rightarrow> v | None \<Rightarrow> 0) :: u64
      in [b64_char (drop_bit 2 b0), b64_char (push_bit 4 (b0 AND 3) OR drop_bit 4 b1),
          if y \<noteq> None then b64_char (push_bit 2 (b1 AND 0xF) OR drop_bit 6 b2) else CHR ''='',
          if z \<noteq> None then b64_char (b2 AND 0x3F) else CHR ''=''])"

fun base64_encode :: "bytes \<Rightarrow> string" where
  "base64_encode [] = []"
| "base64_encode [x] = b64_group x None None"
| "base64_encode [x, y] = b64_group x (Some y) None"
| "base64_encode (x # y # z # rest) = b64_group x (Some y) (Some z) @ base64_encode rest"

section \<open>Decoding\<close>

definition b64_value :: "char \<Rightarrow> u32 option" where
  "b64_value c =
     (let b = of_char c :: nat in
      if length B64_TABLE \<le> b then None
      else let v = B64_TABLE ! b in if v = 0xFF then None else Some (ucast v))"

definition b64_bytes :: "char \<Rightarrow> char \<Rightarrow> char \<Rightarrow> char \<Rightarrow> bytes option" where
  "b64_bytes b0 b1 b2 b3 =
     (case b64_value b0 of None \<Rightarrow> None | Some v0 \<Rightarrow>
      (case b64_value b1 of None \<Rightarrow> None | Some v1 \<Rightarrow>
        (let o0 = ucast (push_bit 2 v0 OR drop_bit 4 v1) :: u8 in
         if b2 = CHR ''='' then Some [o0]
         else case b64_value b2 of None \<Rightarrow> None | Some v2 \<Rightarrow>
           (let o1 = ucast (push_bit 4 v1 OR drop_bit 2 v2) :: u8 in
            if b3 = CHR ''='' then Some [o0, o1]
            else case b64_value b3 of None \<Rightarrow> None | Some v3 \<Rightarrow>
              Some [o0, o1, ucast (push_bit 6 v2 OR v3)]))))"

definition char_or_pad :: "string \<Rightarrow> nat \<Rightarrow> char" where
  "char_or_pad s i = (if i < length s then s ! i else CHR ''='')"

fun base64_decode :: "string \<Rightarrow> bytes option" where
  "base64_decode [] = Some []"
| "base64_decode [b0] = None"
| "base64_decode (b0 # b1 # rest) =
     (if b0 = CHR ''='' then Some []
      else case b64_bytes b0 b1 (char_or_pad rest 0) (char_or_pad rest 1) of
          None \<Rightarrow> None
        | Some out \<Rightarrow> map_option ((@) out) (base64_decode (drop 2 rest)))"

section \<open>Round trip\<close>

lemma b64_tables: "\<forall>i \<in> set [0..<64]. b64_value (B64_CHARS ! i) = Some (word_of_nat i) \<and> B64_CHARS ! i \<noteq> CHR ''=''"
  by code_simp

lemma b64_value_char:
  assumes "i < 64"
  shows "b64_value (b64_char i) = Some (ucast i)" "b64_char i \<noteq> CHR ''=''"
proof -
  have "unat i \<in> set [0..<64]" using assms by (simp add: word_less_nat_alt)
  with b64_tables show "b64_value (b64_char i) = Some (ucast i)" "b64_char i \<noteq> CHR ''=''"
    by (auto simp: b64_char_def)
qed

lemma b64_small: "(w :: u64) = take_bit 6 w \<Longrightarrow> w < 64"
proof -
  assume "w = take_bit 6 w"
  then have "unat w = take_bit 6 (unat w)" by (metis unsigned_take_bit_eq)
  also have "\<dots> < 2 ^ 6" by (rule take_bit_nat_less_exp)
  finally show ?thesis by (simp add: word_less_nat_alt)
qed

lemma byte_bit: "bit (x :: u8) n \<Longrightarrow> n < 8"
  by (drule bit_imp_le_length) simp

lemma byte_high: "8 \<le> n \<Longrightarrow> \<not> bit (x :: u8) n"
  using byte_bit [of x n] by auto

lemma byte_eqI:
  fixes x y :: u8
  assumes "bit x 0 = bit y 0" "bit x 1 = bit y 1" "bit x 2 = bit y 2" "bit x 3 = bit y 3"
    "bit x 4 = bit y 4" "bit x 5 = bit y 5" "bit x 6 = bit y 6" "bit x 7 = bit y 7"
  shows "x = y"
proof (rule bit_word_eqI)
  fix n assume "n < LENGTH(8)"
  then have "n = 0 \<or> n = 1 \<or> n = 2 \<or> n = 3 \<or> n = 4 \<or> n = 5 \<or> n = 6 \<or> n = 7" by simp presburger
  with assms show "bit x n = bit y n" by blast
qed

lemma b64_indices:
  fixes x y z :: u8
  shows "drop_bit 2 (ucast x :: u64) < 64" "push_bit 4 (ucast x AND 3) OR drop_bit 4 (ucast y :: u64) < 64"
    "push_bit 2 (ucast y AND 0xF) OR drop_bit 6 (ucast z :: u64) < 64" "ucast z AND 0x3F < (64 :: u64)"
proof -
  have m: "(3 :: u64) = mask 2" "(0xF :: u64) = mask 4" "(0x3F :: u64) = mask 6" by (simp_all add: mask_eq_exp_minus_1)
  show "drop_bit 2 (ucast x :: u64) < 64"
    by (intro b64_small bit_eqI) (auto simp: bit_simps dest: byte_bit)
  show "push_bit 4 (ucast x AND 3) OR drop_bit 4 (ucast y :: u64) < 64"
    unfolding m by (intro b64_small bit_eqI) (auto simp: bit_simps dest: byte_bit)
  show "push_bit 2 (ucast y AND 0xF) OR drop_bit 6 (ucast z :: u64) < 64"
    unfolding m by (intro b64_small bit_eqI) (auto simp: bit_simps dest: byte_bit)
  show "ucast z AND 0x3F < (64 :: u64)"
    unfolding m by (intro b64_small bit_eqI) (auto simp: bit_simps)
qed

lemma b64_join:
  fixes x y z :: u8
  shows "ucast (push_bit 2 (ucast (drop_bit 2 (ucast x :: u64)) :: u32) OR drop_bit 4 (ucast (push_bit 4 (ucast x AND 3) OR drop_bit 4 (ucast y :: u64)))) = x"
    "ucast (push_bit 4 (ucast (push_bit 4 (ucast x AND 3) OR drop_bit 4 (ucast y :: u64)) :: u32)
        OR drop_bit 2 (ucast (push_bit 2 (ucast y AND 0xF) OR drop_bit 6 (ucast z :: u64)))) = y"
    "ucast (push_bit 6 (ucast (push_bit 2 (ucast y AND 0xF) OR drop_bit 6 (ucast z :: u64)) :: u32) OR ucast (ucast z AND 0x3F :: u64)) = z"
proof -
  have m: "(3 :: u64) = mask 2" "(0xF :: u64) = mask 4" "(0x3F :: u64) = mask 6" by (simp_all add: mask_eq_exp_minus_1)
  show "ucast (push_bit 2 (ucast (drop_bit 2 (ucast x :: u64)) :: u32) OR drop_bit 4 (ucast (push_bit 4 (ucast x AND 3) OR drop_bit 4 (ucast y :: u64)))) = x"
    unfolding m by (rule byte_eqI) (simp_all add: bit_simps byte_high)
  show "ucast (push_bit 4 (ucast (push_bit 4 (ucast x AND 3) OR drop_bit 4 (ucast y :: u64)) :: u32)
        OR drop_bit 2 (ucast (push_bit 2 (ucast y AND 0xF) OR drop_bit 6 (ucast z :: u64)))) = y"
    unfolding m by (rule byte_eqI) (simp_all add: bit_simps byte_high)
  show "ucast (push_bit 6 (ucast (push_bit 2 (ucast y AND 0xF) OR drop_bit 6 (ucast z :: u64)) :: u32) OR ucast (ucast z AND 0x3F :: u64)) = z"
    unfolding m by (rule byte_eqI) (simp_all add: bit_simps byte_high)
qed

lemma b64_group_decodes:
  "b64_group x None None = [a, b, c, d] \<Longrightarrow> b64_bytes a b c d = Some [x] \<and> a \<noteq> CHR ''=''"
  "b64_group x (Some y) None = [a, b, c, d] \<Longrightarrow> b64_bytes a b c d = Some [x, y] \<and> a \<noteq> CHR ''=''"
  "b64_group x (Some y) (Some z) = [a, b, c, d] \<Longrightarrow> b64_bytes a b c d = Some [x, y, z] \<and> a \<noteq> CHR ''=''"
proof -
  note v = b64_value_char [OF b64_indices(1)] b64_value_char [OF b64_indices(2)] b64_value_char [OF b64_indices(3)]
    b64_value_char [OF b64_indices(4)]
  show "b64_group x None None = [a, b, c, d] \<Longrightarrow> b64_bytes a b c d = Some [x] \<and> a \<noteq> CHR ''=''"
    using v(1,2) [of x] v(3,4) [of x 0] b64_join(1) [of x 0] by (auto simp: b64_group_def b64_bytes_def Let_def)
  show "b64_group x (Some y) None = [a, b, c, d] \<Longrightarrow> b64_bytes a b c d = Some [x, y] \<and> a \<noteq> CHR ''=''"
    using v(1,2) [of x] v(3,4) [of x y] v(5,6) [of y 0] b64_join(1) [of x y] b64_join(2) [of x y 0]
    by (auto simp: b64_group_def b64_bytes_def Let_def)
  show "b64_group x (Some y) (Some z) = [a, b, c, d] \<Longrightarrow> b64_bytes a b c d = Some [x, y, z] \<and> a \<noteq> CHR ''=''"
    using v(1,2) [of x] v(3,4) [of x y] v(5,6) [of y z] v(7,8) [of z] b64_join(1) [of x y] b64_join(2) [of x y z] b64_join(3) [of y z]
    by (auto simp: b64_group_def b64_bytes_def Let_def)
qed

lemma b64_group_shape: obtains a b c d where "b64_group x y z = [a, b, c, d]"
  by (simp add: b64_group_def Let_def)

lemma base64_step:
  assumes "b64_bytes a b c d = Some out" "a \<noteq> CHR ''=''"
  shows "base64_decode (a # b # c # d # rest) = map_option ((@) out) (base64_decode rest)"
  using assms by (simp add: char_or_pad_def)

lemma base64_roundtrip: "base64_decode (base64_encode bs) = Some bs"
proof (induction bs rule: base64_encode.induct)
  case (2 x)
  obtain a b c d where g: "b64_group x None None = [a, b, c, d]" by (rule b64_group_shape)
  with base64_step [of a b c d "[x]" "[]"] b64_group_decodes(1) [OF g] show ?case by simp
next
  case (3 x y)
  obtain a b c d where g: "b64_group x (Some y) None = [a, b, c, d]" by (rule b64_group_shape)
  with base64_step [of a b c d "[x, y]" "[]"] b64_group_decodes(2) [OF g] show ?case by simp
next
  case (4 x y z rest)
  obtain a b c d where g: "b64_group x (Some y) (Some z) = [a, b, c, d]" by (rule b64_group_shape)
  with base64_step [of a b c d "[x, y, z]" "base64_encode rest"] b64_group_decodes(3) [OF g] "4.IH" show ?case by simp
qed simp

end
