(* ===== verification/Ibf.thy ===== *)
theory Ibf
  imports Op_Node "HOL-Library.Sublist"
begin

text \<open>
  Set reconciliation with an invertible Bloom filter (\<open>ibf.rs\<close>) and the choice of the nodes to
  exchange after a handshake (\<open>decide_sync_diff\<close> of the host engine's \<open>protocol.rs\<close>). A cell is an
  element of an abelian group, so a filter is a family of sums and subtracting filters subtracts them.
  The keyed and unkeyed Blake3 functions and the width of \<open>usize\<close> on the peer are the record
  \<open>ibf_hash\<close>. Cell counters are 32-bit words that wrap.
\<close>

unbundle bit_operations_syntax

section \<open>Filters\<close>

datatype ibf_cell = IbfCell (c_count: "32 word") (c_id_sum: node_id) (c_hash_sum: u32)

type_synonym ibf = "ibf_cell list"

record ibf_hash =
  ih_keyed :: "bytes \<Rightarrow> bytes \<Rightarrow> hash"
  ih_hash :: "bytes \<Rightarrow> hash"
  ih_usize :: nat

definition IBF_CELLS :: nat where
  "IBF_CELLS = 80"

definition IBF_KEY0 :: bytes where
  "IBF_KEY0 = map of_char ''nodalmerge-ibf-h0-00000000000000''"

definition IBF_KEY1 :: bytes where
  "IBF_KEY1 = map of_char ''nodalmerge-ibf-h1-00000000000000''"

definition IBF_KEY2 :: bytes where
  "IBF_KEY2 = map of_char ''nodalmerge-ibf-h2-00000000000000''"

definition usize_of :: "nat \<Rightarrow> u64 \<Rightarrow> nat" where
  "usize_of width x = unat x mod 2 ^ width"

definition cell_index :: "ibf_hash \<Rightarrow> bytes \<Rightarrow> node_id \<Rightarrow> nat" where
  "cell_index h key i = usize_of (ih_usize h) (from_le_bytes (take 8 (be_bytes 32 (ih_keyed h key (be_bytes 32 i))))) mod IBF_CELLS"

definition cell_indices :: "ibf_hash \<Rightarrow> node_id \<Rightarrow> nat list" where
  "cell_indices h i = [cell_index h IBF_KEY0 i, cell_index h IBF_KEY1 i, cell_index h IBF_KEY2 i]"

definition id_checksum :: "ibf_hash \<Rightarrow> node_id \<Rightarrow> u32" where
  "id_checksum h i = of_be (take 4 (be_bytes 32 (ih_hash h (be_bytes 32 i))))"

instantiation ibf_cell :: ab_group_add
begin

definition zero_ibf_cell :: ibf_cell where
  "zero_ibf_cell = IbfCell 0 0 0"

definition plus_ibf_cell :: "ibf_cell \<Rightarrow> ibf_cell \<Rightarrow> ibf_cell" where
  "plus_ibf_cell a b = IbfCell (c_count a + c_count b) (c_id_sum a XOR c_id_sum b) (c_hash_sum a XOR c_hash_sum b)"

definition uminus_ibf_cell :: "ibf_cell \<Rightarrow> ibf_cell" where
  "uminus_ibf_cell a = IbfCell (- c_count a) (c_id_sum a) (c_hash_sum a)"

definition minus_ibf_cell :: "ibf_cell \<Rightarrow> ibf_cell \<Rightarrow> ibf_cell" where
  "minus_ibf_cell a b = IbfCell (c_count a - c_count b) (c_id_sum a XOR c_id_sum b) (c_hash_sum a XOR c_hash_sum b)"

instance
  by standard (simp_all add: zero_ibf_cell_def plus_ibf_cell_def uminus_ibf_cell_def minus_ibf_cell_def ac_simps)

end

definition ibf_new :: ibf where
  "ibf_new = replicate IBF_CELLS (IbfCell 0 0 0)"

definition apply_cells :: "ibf_hash \<Rightarrow> 32 word \<Rightarrow> node_id \<Rightarrow> ibf \<Rightarrow> ibf rust" where
  "apply_cells h d i b =
     fold_rust (\<lambda>j cells. if j < length cells then Ret (cells[j := cells ! j + IbfCell d i (id_checksum h i)]) else Panic)
       (cell_indices h i) b"

definition ibf_insert :: "ibf_hash \<Rightarrow> node_id \<Rightarrow> ibf \<Rightarrow> ibf rust" where
  "ibf_insert h i b = apply_cells h 1 i b"

definition ibf_from_ids :: "ibf_hash \<Rightarrow> node_id list \<Rightarrow> ibf rust" where
  "ibf_from_ids h ids = fold_rust (ibf_insert h) ids ibf_new"

definition ibf_subtract :: "ibf \<Rightarrow> ibf \<Rightarrow> ibf" where
  "ibf_subtract a b = map2 (-) a b @ drop (length b) a"

section \<open>Decoding\<close>

definition pure_cell :: "ibf_hash \<Rightarrow> ibf_cell \<Rightarrow> bool" where
  "pure_cell h c \<longleftrightarrow> (c_count c = 1 \<or> c_count c = - 1) \<and> id_checksum h (c_id_sum c) = c_hash_sum c"

fun scan_pure :: "ibf_hash \<Rightarrow> nat list \<Rightarrow> ibf \<Rightarrow> nat option rust" where
  "scan_pure h [] cells = Ret None"
| "scan_pure h (i # is) cells =
     (if i < length cells then if pure_cell h (cells ! i) then Ret (Some i) else scan_pure h is cells else Panic)"

fun decode_loop :: "ibf_hash \<Rightarrow> nat \<Rightarrow> ibf \<Rightarrow> node_id list \<Rightarrow> node_id list \<Rightarrow> (ibf \<times> node_id list \<times> node_id list) option rust" where
  "decode_loop h 0 cells mine theirs = Ret None"
| "decode_loop h (Suc n) cells mine theirs =
     rbind (scan_pure h [0..<IBF_CELLS] cells) (\<lambda>r. case r of
         None \<Rightarrow> Ret (Some (cells, mine, theirs))
       | Some i \<Rightarrow>
           let c = cells ! i; is_mine = (0 < sint (c_count c)) in
           rbind (apply_cells h (if is_mine then - 1 else 1) (c_id_sum c) cells) (\<lambda>cells'.
             decode_loop h n cells' (if is_mine then mine @ [c_id_sum c] else mine) (if is_mine then theirs else theirs @ [c_id_sum c])))"

definition ibf_decode :: "ibf_hash \<Rightarrow> ibf \<Rightarrow> (node_id list \<times> node_id list) option rust" where
  "ibf_decode h b = map_rust (\<lambda>r. case r of
       None \<Rightarrow> None
     | Some (cells, mine, theirs) \<Rightarrow>
         if \<forall>c \<in> set cells. c_count c = 0 \<and> c_id_sum c = 0 \<and> c_hash_sum c = 0 then Some (mine, theirs) else None)
     (decode_loop h (IBF_CELLS * 4) b [] [])"

section \<open>Filters as sums\<close>

lemma cell_indices_bound: "j \<in> set (cell_indices h i) \<Longrightarrow> j < IBF_CELLS"
  by (auto simp: cell_indices_def cell_index_def IBF_CELLS_def)

lemma length_ibf_new [simp]: "length ibf_new = IBF_CELLS"
  by (simp add: ibf_new_def)

lemma cell_parts [simp]:
  "c_count (a + b) = c_count a + c_count b" "c_id_sum (a + b) = c_id_sum a XOR c_id_sum b" "c_hash_sum (a + b) = c_hash_sum a XOR c_hash_sum b"
  "c_count (a - b) = c_count a - c_count b" "c_id_sum (a - b) = c_id_sum a XOR c_id_sum b" "c_hash_sum (a - b) = c_hash_sum a XOR c_hash_sum b"
  "c_count 0 = 0" "c_id_sum 0 = 0" "c_hash_sum 0 = 0" for a b :: ibf_cell
  by (simp_all add: plus_ibf_cell_def minus_ibf_cell_def zero_ibf_cell_def)

lemma cell_zero_iff: "c_count c = 0 \<and> c_id_sum c = 0 \<and> c_hash_sum c = 0 \<longleftrightarrow> c = 0"
  by (cases c) (simp add: zero_ibf_cell_def)

definition token :: "ibf_hash \<Rightarrow> node_id \<Rightarrow> ibf_cell" where
  "token h i = IbfCell 1 i (id_checksum h i)"

lemma token_parts [simp]: "c_count (token h i) = 1" "c_id_sum (token h i) = i" "c_hash_sum (token h i) = id_checksum h i"
  by (simp_all add: token_def)

lemma token_neg: "IbfCell (- 1) i (id_checksum h i) = - token h i"
  by (simp add: token_def uminus_ibf_cell_def)

definition share :: "ibf_cell \<Rightarrow> nat list \<Rightarrow> nat \<Rightarrow> ibf_cell" where
  "share c js j = sum_list (replicate (count_list js j) c)"

lemma fold_cells:
  assumes "\<forall>j \<in> set js. j < length b"
  shows "\<exists>b'. fold_rust (\<lambda>j cells. if j < length cells then Ret (cells[j := cells ! j + c]) else Panic) js b = Ret b'
     \<and> length b' = length b \<and> (\<forall>j < length b. b' ! j = b ! j + share c js j)"
  using assms
proof (induction js arbitrary: b)
  case (Cons k js)
  let ?b = "b[k := b ! k + c]"
  obtain b' where "fold_rust (\<lambda>j cells. if j < length cells then Ret (cells[j := cells ! j + c]) else Panic) js ?b = Ret b'"
    "length b' = length b" "\<forall>j < length b. b' ! j = ?b ! j + share c js j"
    using Cons.IH [of ?b] Cons.prems by auto
  then show ?case using Cons.prems by (auto simp: share_def nth_list_update add.assoc)
qed (simp add: share_def)

lemma apply_cells_sum:
  assumes "length b = IBF_CELLS"
  obtains b' where "apply_cells h d i b = Ret b'" "length b' = IBF_CELLS"
    "\<forall>j < IBF_CELLS. b' ! j = b ! j + share (IbfCell d i (id_checksum h i)) (cell_indices h i) j"
  using fold_cells [of "cell_indices h i" b "IbfCell d i (id_checksum h i)"] cell_indices_bound assms that
  by (auto simp: apply_cells_def)

abbreviation slot :: "ibf_hash \<Rightarrow> nat \<Rightarrow> node_id \<Rightarrow> ibf_cell" where
  "slot h j i \<equiv> share (token h i) (cell_indices h i) j"

lemma from_ids_sum:
  obtains b where "ibf_from_ids h ids = Ret b" "length b = IBF_CELLS"
    "\<forall>j < IBF_CELLS. b ! j = (\<Sum>i\<leftarrow>ids. slot h j i)"
proof -
  have "\<exists>b'. fold_rust (ibf_insert h) ids b = Ret b' \<and> length b' = IBF_CELLS \<and> (\<forall>j < IBF_CELLS. b' ! j = b ! j + (\<Sum>i\<leftarrow>ids. slot h j i))"
    if "length b = IBF_CELLS" for b
    using that
  proof (induction ids arbitrary: b)
    case (Cons i ids)
    from Cons.prems obtain b1 where b1: "apply_cells h 1 i b = Ret b1" "length b1 = IBF_CELLS"
      "\<forall>j < IBF_CELLS. b1 ! j = b ! j + slot h j i" unfolding token_def by (rule apply_cells_sum [of b h 1 i])
    from Cons.IH [OF b1(2)] b1 show ?case by (auto simp: ibf_insert_def add.assoc)
  qed simp
  from this [of ibf_new] that show ?thesis
    by (auto simp: ibf_from_ids_def ibf_new_def zero_ibf_cell_def [symmetric])
qed

lemma sum_difference:
  fixes f :: "'a \<Rightarrow> 'b::ab_group_add"
  assumes "finite A" "finite B"
  shows "sum f A - sum f B = sum f (A - B) - sum f (B - A)"
proof -
  have "sum f A = sum f (A - B) + sum f (A \<inter> B)" "sum f B = sum f (B - A) + sum f (A \<inter> B)"
    using assms sum.Int_Diff [of A f B] sum.Int_Diff [of B f A] by (simp_all add: Int_commute add.commute)
  then show ?thesis by simp
qed

lemma subtract_sum:
  assumes "distinct A" "distinct B"
  obtains a b where "ibf_from_ids h A = Ret a" "ibf_from_ids h B = Ret b" "length (ibf_subtract a b) = IBF_CELLS"
    "\<forall>j < IBF_CELLS. ibf_subtract a b ! j = (\<Sum>i \<in> set A - set B. slot h j i) - (\<Sum>i \<in> set B - set A. slot h j i)"
proof -
  obtain a where a: "ibf_from_ids h A = Ret a" "length a = IBF_CELLS" "\<forall>j < IBF_CELLS. a ! j = (\<Sum>i\<leftarrow>A. slot h j i)"
    by (rule from_ids_sum [of h A])
  obtain b where b: "ibf_from_ids h B = Ret b" "length b = IBF_CELLS" "\<forall>j < IBF_CELLS. b ! j = (\<Sum>i\<leftarrow>B. slot h j i)"
    by (rule from_ids_sum [of h B])
  have "ibf_subtract a b ! j = (\<Sum>i \<in> set A - set B. slot h j i) - (\<Sum>i \<in> set B - set A. slot h j i)" if "j < IBF_CELLS" for j
    using that a b assms sum_difference [of "set A" "set B" "slot h j"]
    by (simp add: ibf_subtract_def nth_append sum_list_distinct_conv_sum_set)
  with a b that show ?thesis by (simp add: ibf_subtract_def)
qed

section \<open>Peeling\<close>

definition at_cell :: "ibf_hash \<Rightarrow> nat \<Rightarrow> node_id set \<Rightarrow> node_id set" where
  "at_cell h j S = {i \<in> S. j \<in> set (cell_indices h i)}"

definition load :: "ibf_hash \<Rightarrow> node_id set \<Rightarrow> ibf_cell" where
  "load h S = (\<Sum>i \<in> S. token h i)"

definition separates :: "ibf_hash \<Rightarrow> node_id set \<Rightarrow> bool" where
  "separates h D \<longleftrightarrow> (\<forall>S \<subseteq> D. 2 \<le> card S \<longrightarrow>
     id_checksum h (c_id_sum (load h S)) \<noteq> c_hash_sum (load h S) \<and> (c_id_sum (load h S) \<noteq> 0 \<or> c_hash_sum (load h S) \<noteq> 0))"

definition spread :: "ibf_hash \<Rightarrow> node_id set \<Rightarrow> bool" where
  "spread h D \<longleftrightarrow> (\<forall>i \<in> D. distinct (cell_indices h i))"

inductive peelable :: "ibf_hash \<Rightarrow> node_id set \<Rightarrow> bool" for h where
  peel_none: "peelable h {}"
| peel_one: "at_cell h j D = {i} \<Longrightarrow> peelable h (D - {i}) \<Longrightarrow> peelable h D"

lemma peelable_subset: "peelable h D \<Longrightarrow> E \<subseteq> D \<Longrightarrow> peelable h E"
proof (induction arbitrary: E rule: peelable.induct)
  case peel_none
  then show ?case by (auto intro: peelable.peel_none)
next
  case (peel_one j D i)
  show ?case
  proof (cases "i \<in> E")
    case True
    with peel_one.hyps(1) peel_one.prems have "at_cell h j E = {i}" by (auto simp: at_cell_def)
    moreover have "peelable h (E - {i})" using peel_one.prems by (intro peel_one.IH) blast
    ultimately show ?thesis by (rule peelable.peel_one)
  next
    case False
    with peel_one show ?thesis by blast
  qed
qed

lemma peelable_step: "at_cell h j D = {i} \<Longrightarrow> peelable h D \<longleftrightarrow> peelable h (D - {i})"
  using peelable_subset [of h D "D - {i}"] peel_one by blast

lemma peelable_stuck: "peelable h D \<Longrightarrow> D \<noteq> {} \<Longrightarrow> \<exists>j i. at_cell h j D = {i}"
  by (induction rule: peelable.induct) auto

definition ibf_state :: "ibf_hash \<Rightarrow> node_id set \<Rightarrow> node_id set \<Rightarrow> ibf \<Rightarrow> bool" where
  "ibf_state h M T cells \<longleftrightarrow> length cells = IBF_CELLS \<and> finite M \<and> finite T \<and> M \<inter> T = {}
     \<and> (\<forall>j < IBF_CELLS. cells ! j = load h (at_cell h j M) - load h (at_cell h j T))"

lemma at_cell_union: "at_cell h j (M \<union> T) = at_cell h j M \<union> at_cell h j T"
  and at_cell_diff: "at_cell h j (M - {x}) = at_cell h j M - {x}"
  and at_cell_sub: "at_cell h j M \<subseteq> M"
  by (auto simp: at_cell_def)

lemma load_single [simp]: "load h {i} = token h i" "load h {} = 0"
  by (simp_all add: load_def)

lemma count_load: "c_count (load h S) = of_nat (card S)"
  by (cases "finite S") (induction S rule: finite_induct, auto simp: load_def)

lemma cell_mix:
  assumes "finite P" "finite Q" "P \<inter> Q = {}"
  shows "c_id_sum (load h P - load h Q) = c_id_sum (load h (P \<union> Q))" "c_hash_sum (load h P - load h Q) = c_hash_sum (load h (P \<union> Q))"
  using sum.union_disjoint [OF assms, of "token h"] by (simp_all add: load_def)

lemma state_cell:
  assumes "ibf_state h M T cells" "separates h (M \<union> T)" "j < IBF_CELLS"
  shows "pure_cell h (cells ! j) \<longleftrightarrow> card (at_cell h j (M \<union> T)) = 1"
    and "at_cell h j (M \<union> T) = {i} \<Longrightarrow> i \<in> M \<and> cells ! j = token h i \<or> i \<in> T \<and> cells ! j = - token h i"
    and "2 \<le> card (at_cell h j (M \<union> T)) \<Longrightarrow> cells ! j \<noteq> 0"
proof -
  let ?P = "at_cell h j M" and ?Q = "at_cell h j T" and ?S = "at_cell h j (M \<union> T)"
  have cell: "cells ! j = load h ?P - load h ?Q" using assms(1,3) by (simp add: ibf_state_def)
  have fin: "finite ?P" "finite ?Q" "?P \<inter> ?Q = {}" "finite ?S"
    using assms(1) by (auto simp: ibf_state_def at_cell_def)
  have S: "?S = ?P \<union> ?Q" by (rule at_cell_union)
  note mix = cell_mix [OF fin(1-3), of h, folded S cell]
  show one: "i \<in> M \<and> cells ! j = token h i \<or> i \<in> T \<and> cells ! j = - token h i" if "?S = {i}" for i
  proof -
    have "?P = {i} \<and> ?Q = {} \<or> ?P = {} \<and> ?Q = {i}" using that fin(3) unfolding S Un_singleton_iff by auto
    then show ?thesis using at_cell_sub [of h j M] at_cell_sub [of h j T] by (auto simp: cell)
  qed
  have sep: "id_checksum h (c_id_sum (cells ! j)) \<noteq> c_hash_sum (cells ! j) \<and> (c_id_sum (cells ! j) \<noteq> 0 \<or> c_hash_sum (cells ! j) \<noteq> 0)"
    if "2 \<le> card ?S"
    using assms(2) that at_cell_sub [of h j "M \<union> T"] unfolding separates_def mix by blast
  then show "cells ! j \<noteq> 0" if "2 \<le> card ?S" using that by force
  show "pure_cell h (cells ! j) \<longleftrightarrow> card ?S = 1"
  proof
    assume p: "pure_cell h (cells ! j)"
    have "?S \<noteq> {}"
    proof
      assume "?S = {}"
      then have "cells ! j = 0" using S by (simp add: cell)
      with p show False by (simp add: pure_cell_def)
    qed
    then have "card ?S \<noteq> 0" using fin(4) by simp
    moreover have "\<not> 2 \<le> card ?S" using sep p by (auto simp: pure_cell_def)
    ultimately show "card ?S = 1" by linarith
  next
    assume "card ?S = 1"
    then obtain i where "?S = {i}" by (auto simp: card_1_singleton_iff)
    from one [OF this] show "pure_cell h (cells ! j)"
      by (auto simp: pure_cell_def uminus_ibf_cell_def)
  qed
qed

lemma share_distinct: "distinct js \<Longrightarrow> share c js j = (if j \<in> set js then c else 0)"
  by (induction js) (auto simp: share_def count_list_0_iff)

lemma slot_spread: "distinct (cell_indices h i) \<Longrightarrow> slot h j i = (if j \<in> set (cell_indices h i) then token h i else 0)"
  by (rule share_distinct)

lemma slots_load: "finite S \<Longrightarrow> spread h S \<Longrightarrow> (\<Sum>i \<in> S. slot h j i) = load h (at_cell h j S)"
  unfolding load_def at_cell_def spread_def
  by (subst sum.inter_filter) (auto intro!: sum.cong simp: slot_spread)

lemma load_remove:
  assumes "finite M" "i \<in> M"
  shows "load h (at_cell h j (M - {i})) = load h (at_cell h j M) - (if j \<in> set (cell_indices h i) then token h i else 0)"
proof (cases "j \<in> set (cell_indices h i)")
  case True
  then have "i \<in> at_cell h j M" "finite (at_cell h j M)" using assms by (auto simp: at_cell_def)
  from sum.remove [OF this(2,1), of "token h"] True show ?thesis by (simp add: load_def at_cell_diff)
next
  case False
  then have "at_cell h j M - {i} = at_cell h j M" by (auto simp: at_cell_def)
  with False show ?thesis by (simp add: at_cell_diff)
qed

lemma peel_state:
  assumes "ibf_state h M T cells" "distinct (cell_indices h i)"
  shows "i \<in> M \<Longrightarrow> \<exists>cells'. apply_cells h (- 1) i cells = Ret cells' \<and> ibf_state h (M - {i}) T cells'"
    and "i \<in> T \<Longrightarrow> \<exists>cells'. apply_cells h 1 i cells = Ret cells' \<and> ibf_state h M (T - {i}) cells'"
proof -
  have len: "length cells = IBF_CELLS" and fin: "finite M" "finite T" using assms(1) by (simp_all add: ibf_state_def)
  show "\<exists>cells'. apply_cells h (- 1) i cells = Ret cells' \<and> ibf_state h (M - {i}) T cells'" if "i \<in> M"
  proof -
    obtain b where b: "apply_cells h (- 1) i cells = Ret b" "length b = IBF_CELLS"
      "\<forall>j < IBF_CELLS. b ! j = cells ! j + share (IbfCell (- 1) i (id_checksum h i)) (cell_indices h i) j"
      by (rule apply_cells_sum [OF len])
    have "ibf_state h (M - {i}) T b"
      using assms b(2,3) that fin by (auto simp: ibf_state_def share_distinct token_neg load_remove)
    with b(1) show ?thesis by blast
  qed
  show "\<exists>cells'. apply_cells h 1 i cells = Ret cells' \<and> ibf_state h M (T - {i}) cells'" if "i \<in> T"
  proof -
    obtain b where b: "apply_cells h 1 i cells = Ret b" "length b = IBF_CELLS"
      "\<forall>j < IBF_CELLS. b ! j = cells ! j + share (IbfCell 1 i (id_checksum h i)) (cell_indices h i) j"
      by (rule apply_cells_sum [OF len])
    have "ibf_state h M (T - {i}) b"
      using assms b(2,3) that fin by (auto simp: ibf_state_def share_distinct token_def [symmetric] load_remove)
    with b(1) show ?thesis by blast
  qed
qed

lemma scan_pure_find:
  "\<forall>j \<in> set js. j < length cells \<Longrightarrow> scan_pure h js cells = Ret (find (\<lambda>j. pure_cell h (cells ! j)) js)"
  by (induction js) auto

lemma subset_conditions: "separates h D \<Longrightarrow> E \<subseteq> D \<Longrightarrow> separates h E" "spread h D \<Longrightarrow> E \<subseteq> D \<Longrightarrow> spread h E"
  unfolding separates_def spread_def by (meson order_trans) blast

lemma sint_unit: "0 < sint (1 :: 32 word)" "\<not> 0 < sint (- 1 :: 32 word)"
  by simp_all

definition stuck :: "ibf_hash \<Rightarrow> node_id set \<Rightarrow> bool" where
  "stuck h D \<longleftrightarrow> (\<forall>j < IBF_CELLS. card (at_cell h j D) \<noteq> 1)"

lemma stuck_peelable:
  assumes "stuck h D"
  shows "peelable h D \<longleftrightarrow> D = {}"
proof -
  have "j < IBF_CELLS" if "at_cell h j D = {i}" for j i
    using that cell_indices_bound by (auto simp: at_cell_def)
  then have "at_cell h j D \<noteq> {i}" for j i using assms unfolding stuck_def by (metis card_1_singleton_iff One_nat_def)
  then show ?thesis using peelable_stuck [of h D] peel_none by blast
qed

lemma decode_step:
  assumes st: "ibf_state h M T cells" and sep: "separates h (M \<union> T)" and spr: "spread h (M \<union> T)" and n: "card (M \<union> T) < Suc n"
  obtains (finished) "decode_loop h (Suc n) cells mine theirs = Ret (Some (cells, mine, theirs))" "stuck h (M \<union> T)"
  | (own) i b where "i \<in> M" "M - {i} \<union> T = M \<union> T - {i}" "ibf_state h (M - {i}) T b"
      "decode_loop h (Suc n) cells mine theirs = decode_loop h n b (mine @ [i]) theirs"
      "peelable h (M \<union> T) \<longleftrightarrow> peelable h (M \<union> T - {i})" "card (M \<union> T - {i}) < n"
  | (other) i b where "i \<in> T" "M \<union> (T - {i}) = M \<union> T - {i}" "ibf_state h M (T - {i}) b"
      "decode_loop h (Suc n) cells mine theirs = decode_loop h n b mine (theirs @ [i])"
      "peelable h (M \<union> T) \<longleftrightarrow> peelable h (M \<union> T - {i})" "card (M \<union> T - {i}) < n"
proof -
  have len: "length cells = IBF_CELLS" and fin: "finite (M \<union> T)" and dis: "M \<inter> T = {}" using st by (auto simp: ibf_state_def)
  have scan: "scan_pure h [0..<IBF_CELLS] cells = Ret (find (\<lambda>j. pure_cell h (cells ! j)) [0..<IBF_CELLS])"
    using len by (intro scan_pure_find) simp
  show ?thesis
  proof (cases "find (\<lambda>j. pure_cell h (cells ! j)) [0..<IBF_CELLS]")
    case None
    then have "stuck h (M \<union> T)" using state_cell(1) [OF st sep] by (auto simp: stuck_def find_None_iff)
    with scan None show ?thesis by (intro finished) simp_all
  next
    case (Some j)
    then have j: "j < IBF_CELLS" "pure_cell h (cells ! j)" by (auto simp: find_Some_iff)
    then obtain i where i: "at_cell h j (M \<union> T) = {i}" using state_cell(1) [OF st sep] by (auto simp: card_1_singleton_iff)
    have di: "distinct (cell_indices h i)" "i \<in> M \<union> T" using i spr at_cell_sub [of h j "M \<union> T"] by (auto simp: spread_def)
    have small: "card (M \<union> T - {i}) < n" using n card_Diff1_less [OF fin di(2)] by linarith
    from state_cell(2) [OF st sep j(1) i] show ?thesis
    proof
      assume m: "i \<in> M \<and> cells ! j = token h i"
      then obtain b where b: "apply_cells h (- 1) i cells = Ret b" "ibf_state h (M - {i}) T b" using peel_state(1) [OF st di(1)] by blast
      have "M - {i} \<union> T = M \<union> T - {i}" using m dis by blast
      with m b scan Some small show ?thesis by (intro own [OF _ _ b(2) _ peelable_step [OF i]]) (simp_all add: Let_def)
    next
      assume m: "i \<in> T \<and> cells ! j = - token h i"
      then obtain b where b: "apply_cells h 1 i cells = Ret b" "ibf_state h M (T - {i}) b" using peel_state(2) [OF st di(1)] by blast
      have "M \<union> (T - {i}) = M \<union> T - {i}" using m dis by blast
      with m b scan Some small show ?thesis
        by (intro other [OF _ _ b(2) _ peelable_step [OF i]]) (simp_all add: Let_def uminus_ibf_cell_def)
    qed
  qed
qed

lemma decode_loop_peels:
  assumes "ibf_state h M T cells" "separates h (M \<union> T)" "spread h (M \<union> T)" "card (M \<union> T) < n"
  shows "\<exists>cells' ms ts M' T'. decode_loop h n cells mine theirs = Ret (Some (cells', mine @ ms, theirs @ ts))
     \<and> ibf_state h M' T' cells' \<and> stuck h (M' \<union> T') \<and> (peelable h (M \<union> T) \<longleftrightarrow> peelable h (M' \<union> T'))
     \<and> distinct ms \<and> set ms = M - M' \<and> M' \<subseteq> M \<and> distinct ts \<and> set ts = T - T' \<and> T' \<subseteq> T"
  using assms
proof (induction n arbitrary: M T cells mine theirs)
  case (Suc n)
  note sub = subset_conditions(1) [OF Suc.prems(2)] subset_conditions(2) [OF Suc.prems(3)]
  from Suc.prems show ?case
  proof (cases rule: decode_step [where mine = mine and theirs = theirs])
    case finished
    with Suc.prems(1) show ?thesis by (intro exI [of _ cells] exI [of _ "[]"] exI [of _ M] exI [of _ T]) simp
  next
    case (own i b)
    obtain cells' ms ts M' T' where r:
      "decode_loop h n b (mine @ [i]) theirs = Ret (Some (cells', (mine @ [i]) @ ms, theirs @ ts))"
      "ibf_state h M' T' cells'" "stuck h (M' \<union> T')" "peelable h (M - {i} \<union> T) \<longleftrightarrow> peelable h (M' \<union> T')"
      "distinct ms" "set ms = M - {i} - M'" "M' \<subseteq> M - {i}" "distinct ts" "set ts = T - T'" "T' \<subseteq> T"
      using Suc.IH [OF own(3), of "mine @ [i]" theirs] sub own(2,6) by auto
    have "set (i # ms) = M - M'" "distinct (i # ms)" "M' \<subseteq> M" using own(1) r(5-7) by auto
    moreover have "peelable h (M \<union> T) \<longleftrightarrow> peelable h (M' \<union> T')" using own(2,5) r(4) by simp
    moreover have "decode_loop h (Suc n) cells mine theirs = Ret (Some (cells', mine @ i # ms, theirs @ ts))" using own(4) r(1) by simp
    ultimately show ?thesis using r(2,3,8-10) by blast
  next
    case (other i b)
    obtain cells' ms ts M' T' where r:
      "decode_loop h n b mine (theirs @ [i]) = Ret (Some (cells', mine @ ms, (theirs @ [i]) @ ts))"
      "ibf_state h M' T' cells'" "stuck h (M' \<union> T')" "peelable h (M \<union> (T - {i})) \<longleftrightarrow> peelable h (M' \<union> T')"
      "distinct ms" "set ms = M - M'" "M' \<subseteq> M" "distinct ts" "set ts = T - {i} - T'" "T' \<subseteq> T - {i}"
      using Suc.IH [OF other(3), of mine "theirs @ [i]"] sub other(2,6) by auto
    have "set (i # ts) = T - T'" "distinct (i # ts)" "T' \<subseteq> T" using other(1) r(8-10) by auto
    moreover have "peelable h (M \<union> T) \<longleftrightarrow> peelable h (M' \<union> T')" using other(2,5) r(4) by simp
    moreover have "decode_loop h (Suc n) cells mine theirs = Ret (Some (cells', mine @ ms, theirs @ i # ts))" using other(4) r(1) by simp
    ultimately show ?thesis using r(2,3,5-7) by blast
  qed
qed simp

lemma stuck_zero:
  assumes "ibf_state h M T cells" "separates h (M \<union> T)" "stuck h (M \<union> T)"
  shows "(\<forall>c \<in> set cells. c_count c = 0 \<and> c_id_sum c = 0 \<and> c_hash_sum c = 0) \<longleftrightarrow> M \<union> T = {}"
proof -
  have len: "length cells = IBF_CELLS" using assms(1) by (simp add: ibf_state_def)
  have "(\<forall>c \<in> set cells. c = 0) \<longleftrightarrow> (\<forall>j < IBF_CELLS. cells ! j = 0)" using len by (auto simp: all_set_conv_all_nth)
  also have "\<dots> \<longleftrightarrow> M \<union> T = {}"
  proof
    assume z: "\<forall>j < IBF_CELLS. cells ! j = 0"
    show "M \<union> T = {}"
    proof (rule ccontr)
      assume "M \<union> T \<noteq> {}"
      then obtain i where i: "i \<in> M \<union> T" by blast
      let ?j = "cell_index h IBF_KEY0 i"
      have j: "?j < IBF_CELLS" by (simp add: cell_index_def IBF_CELLS_def)
      have "i \<in> at_cell h ?j (M \<union> T)" "finite (at_cell h ?j (M \<union> T))"
        using i assms(1) by (auto simp: at_cell_def cell_indices_def ibf_state_def)
      then have "card (at_cell h ?j (M \<union> T)) \<noteq> 0" by auto
      then have "2 \<le> card (at_cell h ?j (M \<union> T))" using assms(3) j by (force simp: stuck_def)
      with state_cell(3) [OF assms(1,2) j] z j show False by blast
    qed
  qed (use assms(1) in \<open>auto simp: ibf_state_def at_cell_def\<close>)
  finally show ?thesis by (simp add: cell_zero_iff)
qed

lemma decode_difference:
  assumes "ibf_state h M T cells" "separates h (M \<union> T)" "spread h (M \<union> T)" "card (M \<union> T) < IBF_CELLS * 4"
  shows "(\<not> peelable h (M \<union> T) \<and> ibf_decode h cells = Ret None)
    \<or> (peelable h (M \<union> T) \<and> (\<exists>ms ts. ibf_decode h cells = Ret (Some (ms, ts)) \<and> distinct ms \<and> set ms = M \<and> distinct ts \<and> set ts = T))"
proof -
  obtain cells' ms ts M' T' where r: "decode_loop h (IBF_CELLS * 4) cells [] [] = Ret (Some (cells', ms, ts))"
    "ibf_state h M' T' cells'" "stuck h (M' \<union> T')" "peelable h (M \<union> T) \<longleftrightarrow> peelable h (M' \<union> T')"
    "distinct ms" "set ms = M - M'" "M' \<subseteq> M" "distinct ts" "set ts = T - T'" "T' \<subseteq> T"
    using decode_loop_peels [OF assms, of "[]" "[]", unfolded append_Nil] by blast
  have "M' \<union> T' \<subseteq> M \<union> T" using r(7,10) by (rule Un_mono)
  then have "separates h (M' \<union> T')" by (rule subset_conditions(1) [OF assms(2)])
  from stuck_zero [OF r(2) this r(3)] have dec: "ibf_decode h cells = Ret (if M' \<union> T' = {} then Some (ms, ts) else None)"
    by (simp add: ibf_decode_def r(1))
  show ?thesis
  proof (cases "M' \<union> T' = {}")
    case True
    then have "set ms = M" "set ts = T" using r(6,9) by auto
    with True dec r(4,5,8) stuck_peelable [OF r(3)] show ?thesis by simp
  next
    case False
    then have "\<not> peelable h (M \<union> T)" "ibf_decode h cells = Ret None" using dec r(4) stuck_peelable [OF r(3)] by simp_all
    then show ?thesis by blast
  qed
qed

section \<open>The nodes to exchange\<close>

datatype client_ibf_input = IbfPresent ibf | InvalidOrUndecodable | IbfMissing

record sync_diff_input =
  sd_negotiated_supports_ibf :: bool
  sd_client_known :: "node_id list"
  sd_client_ibf :: client_ibf_input
  sd_server_ids :: "node_id list"
  sd_legacy_missing_from_us :: "node_id list"

definition decide_sync_diff :: "env \<Rightarrow> ibf_hash \<Rightarrow> sync_diff_input \<Rightarrow> (node_id list \<times> node_id list) rust" where
  "decide_sync_diff e h inp =
     (let unknown = set_iter e (set (sd_server_ids inp) - set (sd_client_known inp)) in
      if sd_negotiated_supports_ibf inp then
        case sd_client_ibf inp of
          IbfPresent client_ibf \<Rightarrow>
            rbind (ibf_from_ids h (sd_server_ids inp)) (\<lambda>own.
            map_rust (\<lambda>r. case r of
                Some (in_server, in_client) \<Rightarrow> (in_client, in_server)
              | None \<Rightarrow> ([], set_iter e (set (sd_server_ids inp)))) (ibf_decode h (ibf_subtract own client_ibf)))
        | InvalidOrUndecodable \<Rightarrow> Ret ([], sd_server_ids inp)
        | IbfMissing \<Rightarrow> Ret ([], unknown)
      else Ret (sd_legacy_missing_from_us inp, unknown))"

section \<open>Samples\<close>

definition sample_ibf :: ibf_hash where
  "sample_ibf = \<lparr>ih_keyed = (\<lambda>key bs. of_be ((last bs * 3 + key ! 16) # replicate 31 0)),
     ih_hash = (\<lambda>bs. of_be ([0, 0, 0, last bs * last bs + 1] @ replicate 28 0)), ih_usize = 64\<rparr>"

definition sample_wide :: ibf_hash where
  "sample_wide = \<lparr>ih_keyed = (\<lambda>key bs. of_be ([0, 0, 0, 0, 1] @ replicate 27 0)), ih_hash = (\<lambda>bs. 0), ih_usize = 64\<rparr>"

lemma last_be_bytes: "last (be_bytes 32 w) = word_of_nat (unat w)"
  by (simp add: be_bytes_def last_map)

lemma sample_keyed:
  "be_bytes 32 (of_be (b # replicate 31 0) :: hash) = b # replicate 31 0"
  "be_bytes 32 (of_be (0 # 0 # 0 # b # replicate 28 0) :: hash) = 0 # 0 # 0 # b # replicate 28 0"
  "be_bytes 32 (of_be (0 # 0 # 0 # 0 # b # replicate 27 0) :: hash) = 0 # 0 # 0 # 0 # b # replicate 27 0"
  by (rule be_bytes_of_be; simp)+

lemma nat_of_be_zeros: "nat_of_be (replicate n 0 @ bs) = nat_of_be bs"
  by (simp add: nat_of_be_def) (induction n, simp_all)

lemma sample_le: "from_le_bytes (b # replicate 7 0) = (ucast b :: u64)"
  using nat_of_be_zeros [of 7 "[b]"] by (simp add: from_le_bytes_def of_be_def) (simp add: nat_of_be_def)

lemma ibf_key_digits: "IBF_KEY0 ! 16 = 48" "IBF_KEY1 ! 16 = 49" "IBF_KEY2 ! 16 = 50"
  by (simp_all add: IBF_KEY0_def IBF_KEY1_def IBF_KEY2_def)

lemma sample_ibf_cells: "cell_indices sample_ibf 1 = [51, 52, 53]" "cell_indices sample_ibf 3 = [57, 58, 59]"
  by (simp_all add: cell_indices_def cell_index_def sample_ibf_def sample_keyed last_be_bytes sample_le usize_of_def IBF_CELLS_def ibf_key_digits)

lemma sample_ibf_checksums:
  "id_checksum sample_ibf 1 = 2" "id_checksum sample_ibf 3 = 10" "id_checksum sample_ibf 2 = 5"
  by (simp_all add: id_checksum_def sample_ibf_def sample_keyed last_be_bytes take_Cons') (simp_all add: of_be_def nat_of_be_def)

lemma sample_wide_le: "from_le_bytes (0 # 0 # 0 # 0 # 1 # replicate 3 0) = (4294967296 :: u64)"
proof -
  have "replicate 3 (0 :: u8) = [0, 0, 0]" by (simp add: numeral_3_eq_3)
  then show ?thesis by (simp add: from_le_bytes_def of_be_def nat_of_be_def)
qed

lemma sample_wide_cells:
  "cell_indices sample_wide 1 = [16, 16, 16]" "cell_indices (sample_wide\<lparr>ih_usize := 32\<rparr>) 1 = [0, 0, 0]"
  by (simp_all add: cell_indices_def cell_index_def sample_wide_def sample_keyed usize_of_def IBF_CELLS_def take_Cons' sample_wide_le)

lemma sample_ibf_difference:
  "spread sample_ibf {1, 3}" "separates sample_ibf {1, 3}" "peelable sample_ibf {1, 3}"
proof -
  show "spread sample_ibf {1, 3}" by (simp add: spread_def sample_ibf_cells)
  have sums: "c_id_sum (load sample_ibf {1, 3}) = 2" "c_hash_sum (load sample_ibf {1, 3}) = 8"
    by (simp_all add: load_def sample_ibf_checksums)
  show "separates sample_ibf {1, 3}"
    unfolding separates_def
  proof (intro allI impI)
    fix S :: "node_id set"
    assume "S \<subseteq> {1, 3}" "2 \<le> card S"
    then have "S = {1, 3}" using card_subset_eq [of "{1, 3}" S] card_mono [of "{1, 3}" S] by simp
    then show "id_checksum sample_ibf (c_id_sum (load sample_ibf S)) \<noteq> c_hash_sum (load sample_ibf S)
        \<and> (c_id_sum (load sample_ibf S) \<noteq> 0 \<or> c_hash_sum (load sample_ibf S) \<noteq> 0)"
      by (simp add: sums sample_ibf_checksums)
  qed
  have "at_cell sample_ibf 51 {1, 3} = {1}" "at_cell sample_ibf 57 ({1, 3} - {1}) = {3}"
    by (auto simp: at_cell_def sample_ibf_cells)
  moreover have "{1, 3} - {1} - {3 :: node_id} = {}" by auto
  ultimately show "peelable sample_ibf {1, 3}" using peel_none peel_one by metis
qed

section \<open>Properties\<close>

lemma sym_diff_state:
  assumes "distinct A" "distinct B" "spread h (set A - set B)" "spread h (set B - set A)"
    "ibf_from_ids h A = Ret a" "ibf_from_ids h B = Ret b"
  shows "ibf_state h (set A - set B) (set B - set A) (ibf_subtract a b)"
  using assms by (auto simp: ibf_state_def slots_load elim!: subtract_sum [of A B h])


definition sample_handshake :: "ibf \<Rightarrow> sync_diff_input" where
  "sample_handshake b = \<lparr>sd_negotiated_supports_ibf = True, sd_client_known = [], sd_client_ibf = IbfPresent b,
     sd_server_ids = [1, 2], sd_legacy_missing_from_us = []\<rparr>"


lemma decode_loop_SucE:
  assumes "decode_loop h (Suc n) cells mine theirs = Ret (Some (cells', ms, ts))"
  obtains "cells' = cells" "ms = mine" "ts = theirs"
  | b i where "decode_loop h n b (mine @ [i]) theirs = Ret (Some (cells', ms, ts))"
  | b i where "decode_loop h n b mine (theirs @ [i]) = Ret (Some (cells', ms, ts))"
proof -
  obtain r where r: "scan_pure h [0..<IBF_CELLS] cells = Ret r" using assms by auto
  show ?thesis using assms that by (cases r; cases "0 < sint (c_count (cells ! the r))") (auto simp: r Let_def)
qed

lemma decode_loop_grows:
  "decode_loop h n cells mine theirs = Ret (Some (cells', ms, ts)) \<Longrightarrow> prefix mine ms \<and> prefix theirs ts"
proof (induction n arbitrary: cells mine theirs)
  case (Suc n)
  from Suc.prems show ?case by (cases rule: decode_loop_SucE) (auto dest!: Suc.IH append_prefixD)
qed simp

lemma decode_loop_nothing: "decode_loop h n cells [] [] = Ret (Some (cells', [], [])) \<Longrightarrow> cells' = cells"
  by (cases n) (auto simp del: decode_loop.simps(2) elim!: decode_loop_SucE dest: decode_loop_grows)

lemma decode_nothing:
  assumes "ibf_decode h b = Ret (Some ([], []))" "c \<in> set b"
  shows "c = 0"
proof -
  obtain r where r: "decode_loop h (IBF_CELLS * 4) b [] [] = Ret r"
    "Some ([], []) = (case r of None \<Rightarrow> None | Some (cells, mine, theirs) \<Rightarrow> if \<forall>c \<in> set cells. c = 0 then Some (mine, theirs) else None)"
    using assms(1) unfolding ibf_decode_def cell_zero_iff by auto
  then obtain cells where "r = Some (cells, [], [])" "\<forall>c \<in> set cells. c = 0" by (auto split: option.splits if_splits)
  with decode_loop_nothing r(1) assms(2) show ?thesis by blast
qed

lemma count_share: "c_count (share (token h i) js j) = of_nat (count_list js j)"
proof -
  have "c_count (sum_list (replicate n (token h i))) = of_nat n" for n by (induction n) simp_all
  then show ?thesis by (simp add: share_def)
qed

lemma few_counts: "count_list (cell_indices h i) j \<le> 3"
  using count_le_length [of "cell_indices h i" j] by (simp add: cell_indices_def)

lemma equal_counts:
  assumes "(of_nat (count_list (cell_indices h i) j) :: 32 word) = of_nat (count_list (cell_indices k i) j)"
  shows "count_list (cell_indices h i) j = count_list (cell_indices k i) j"
proof -
  have "unat (of_nat m :: 32 word) = m" if "m \<le> 3" for m using that by (simp add: unat_of_nat)
  with assms few_counts show ?thesis by metis
qed

text \<open>C34: filters are not comparable between a peer with 64-bit and a peer with 32-bit \<open>usize\<close>: if some
  node falls into different cells on the two, a server and a client that hold just this node do not
  find their sets equal.\<close>

theorem ibf_width_mismatch:
  assumes "iter_enumerates e" "ih_usize h = 64" "sd_negotiated_supports_ibf inp" "sd_server_ids inp = [i]"
    and "ibf_from_ids (h\<lparr>ih_usize := 32\<rparr>) [i] = Ret b" "sd_client_ibf inp = IbfPresent b"
    and "mset (cell_indices h i) \<noteq> mset (cell_indices (h\<lparr>ih_usize := 32\<rparr>) i)"
  shows "decide_sync_diff e h inp \<noteq> Ret ([], [])"
proof
  assume eq: "decide_sync_diff e h inp = Ret ([], [])"
  let ?k = "h\<lparr>ih_usize := 32\<rparr>"
  obtain a where a: "ibf_from_ids h [i] = Ret a" "length a = IBF_CELLS" "\<forall>j < IBF_CELLS. a ! j = (\<Sum>i\<leftarrow>[i]. slot h j i)"
    by (rule from_ids_sum)
  obtain b' where b: "ibf_from_ids ?k [i] = Ret b'" "length b' = IBF_CELLS" "\<forall>j < IBF_CELLS. b' ! j = (\<Sum>i\<leftarrow>[i]. slot ?k j i)"
    by (rule from_ids_sum)
  have "set_iter e {i} \<noteq> []" using assms(1) by (auto simp: iter_enumerates_def dest: spec [of _ "{i}"])
  moreover have "b = b'" using assms(5) b(1) by simp
  ultimately have dec: "ibf_decode h (ibf_subtract a b') = Ret (Some ([], []))"
    using eq assms(3-6) a(1) by (auto simp: decide_sync_diff_def Let_def split: option.splits)
  have "length (ibf_subtract a b') = IBF_CELLS" using a(2) b(2) by (simp add: ibf_subtract_def)
  then have z: "ibf_subtract a b' ! j = 0" if "j < IBF_CELLS" for j
    using that by (intro decode_nothing [OF dec] nth_mem) simp
  have "count_list (cell_indices h i) j = count_list (cell_indices ?k i) j" for j
  proof (cases "j < IBF_CELLS")
    case True
    have "c_count (ibf_subtract a b' ! j) = of_nat (count_list (cell_indices h i) j) - of_nat (count_list (cell_indices ?k i) j)"
      using True a(2,3) b(2,3) by (simp add: ibf_subtract_def nth_append count_share)
    then show ?thesis using z [OF True] by (intro equal_counts) simp
  next
    case False
    then show ?thesis using cell_indices_bound by (metis count_list_0_iff)
  qed
  then have "mset (cell_indices h i) = mset (cell_indices ?k i)" by (simp add: multiset_eq_iff count_mset)
  with assms(7) show False by blast
qed

theorem ibf_width_mismatch_witness:
  "\<exists>b inp. ibf_from_ids (sample_wide\<lparr>ih_usize := 32\<rparr>) [1] = Ret b \<and> sd_client_ibf inp = IbfPresent b \<and> sd_server_ids inp = [1]
     \<and> decide_sync_diff sample_env sample_wide inp \<noteq> Ret ([], [])"
proof -
  obtain b where b: "ibf_from_ids (sample_wide\<lparr>ih_usize := 32\<rparr>) [1] = Ret b" by (rule from_ids_sum)
  let ?inp = "\<lparr>sd_negotiated_supports_ibf = True, sd_client_known = [], sd_client_ibf = IbfPresent b,
     sd_server_ids = [1], sd_legacy_missing_from_us = []\<rparr>"
  have "set (cell_indices sample_wide 1) \<noteq> set (cell_indices (sample_wide\<lparr>ih_usize := 32\<rparr>) 1)" by (simp add: sample_wide_cells)
  then have "mset (cell_indices sample_wide 1) \<noteq> mset (cell_indices (sample_wide\<lparr>ih_usize := 32\<rparr>) 1)" using mset_eq_setD by blast
  then have "decide_sync_diff sample_env sample_wide ?inp \<noteq> Ret ([], [])"
    by (intro ibf_width_mismatch [OF sample_env_ok(3) _ _ _ b]) (simp_all, simp add: sample_wide_def)
  with b show ?thesis by (intro exI [of _ b] exI [of _ ?inp]) simp
qed

end
