(* ===== verification/Mst.thy ===== *)
theory Mst
  imports Op_Node "HOL-Library.AList"
begin

text \<open>
  The Merkle search tree over node identities (\<open>mst.rs\<close>) and the client's descent through it
  (\<open>mst_process_response_json\<close> of the browser bridge, after the response has been parsed). The keyed
  Blake3 function is the argument \<open>kh\<close>. The hash table of tree nodes is an association list.
\<close>

unbundle bit_operations_syntax

section \<open>Trees\<close>

type_synonym keyed_hash = "bytes \<Rightarrow> bytes \<Rightarrow> hash"

definition MST_LEAF_KEY :: bytes where
  "MST_LEAF_KEY = map of_char ''nodalmerge-mst-leaf-000000000000''"

definition MST_INTERNAL_KEY :: bytes where
  "MST_INTERNAL_KEY = map of_char ''nodalmerge-mst-internal-00000000''"

record mst_node =
  mn_hash :: hash
  mn_children :: "hash option list"
  mn_keys :: "node_id list"

type_synonym merkle_search_tree = "(u8 list \<times> mst_node) list"

definition mst_new :: merkle_search_tree where
  "mst_new = []"

definition leaf_hash :: "keyed_hash \<Rightarrow> node_id list \<Rightarrow> hash" where
  "leaf_hash kh ids = kh MST_LEAF_KEY (concat (map (be_bytes 32) ids))"

definition child_bytes :: "hash option \<Rightarrow> bytes" where
  "child_bytes c = (case c of Some x \<Rightarrow> be_bytes 32 x | None \<Rightarrow> replicate 32 0)"

definition internal_hash :: "keyed_hash \<Rightarrow> hash option list \<Rightarrow> hash" where
  "internal_hash kh children = kh MST_INTERNAL_KEY (concat (map child_bytes children))"

definition nibble_at :: "node_id \<Rightarrow> nat \<Rightarrow> u8" where
  "nibble_at i depth = (let byte = be_bytes 32 i ! (depth div 2) in
     if depth mod 2 = 0 then drop_bit 4 byte AND 0x0f else byte AND 0x0f)"

text \<open>The first number is the count of nibbles left below the path, \<open>64 - path.len()\<close>.\<close>

fun build_recursive ::
  "keyed_hash \<Rightarrow> nat \<Rightarrow> u8 list \<Rightarrow> node_id list \<Rightarrow> merkle_search_tree \<Rightarrow> hash \<times> merkle_search_tree" where
  "build_recursive kh 0 path ids t =
     (leaf_hash kh ids, AList.update path \<lparr>mn_hash = leaf_hash kh ids, mn_children = replicate 16 None, mn_keys = ids\<rparr> t)"
| "build_recursive kh (Suc left) path ids t =
     (if length ids = 1
      then (leaf_hash kh ids, AList.update path \<lparr>mn_hash = leaf_hash kh ids, mn_children = replicate 16 None, mn_keys = ids\<rparr> t)
      else
        let (children, t1) = fold (\<lambda>n (cs, t).
              let group = filter (\<lambda>i. unat (nibble_at i (length path)) = n) ids in
              if group = [] then (cs @ [None], t)
              else let (x, t') = build_recursive kh left (path @ [word_of_nat n]) group t in (cs @ [Some x], t'))
              [0..<16] ([], t);
            x = internal_hash kh children
        in (x, AList.update path \<lparr>mn_hash = x, mn_children = children, mn_keys = []\<rparr> t1))"

definition mst_from_ids :: "keyed_hash \<Rightarrow> node_id list \<Rightarrow> merkle_search_tree" where
  "mst_from_ids kh ids = (if ids = [] then mst_new else snd (build_recursive kh 64 [] (sort ids) mst_new))"

definition mst_root_hash :: "merkle_search_tree \<Rightarrow> hash" where
  "mst_root_hash t = (case map_of t [] of Some n \<Rightarrow> mn_hash n | None \<Rightarrow> 0)"

definition root_hash_hex :: "merkle_search_tree \<Rightarrow> string" where
  "root_hash_hex t = hash_to_hex (mst_root_hash t)"

definition all_keys_set :: "merkle_search_tree \<Rightarrow> node_id set" where
  "all_keys_set t = set (concat (map (\<lambda>(p, n). mn_keys n) t))"

section \<open>Wire nodes\<close>

record mst_node_wire =
  mw_path :: string
  mw_hash :: string
  mw_children :: "(string \<times> string) list"
  mw_keys :: "string list"

definition nibble_to_char :: "nat \<Rightarrow> char" where
  "nibble_to_char n = hex_char n"

fun hex_to_nibble_path :: "string \<Rightarrow> u8 list option" where
  "hex_to_nibble_path [] = Some []"
| "hex_to_nibble_path (c # cs) =
     (case (hex_nibble c, hex_to_nibble_path cs) of (Some d, Some ds) \<Rightarrow> Some (d # ds) | _ \<Rightarrow> None)"

definition get_node_wire :: "merkle_search_tree \<Rightarrow> string \<Rightarrow> mst_node_wire option" where
  "get_node_wire t path_hex =
     (case hex_to_nibble_path path_hex of
        None \<Rightarrow> None
      | Some path \<Rightarrow> map_option (\<lambda>node. \<lparr>mw_path = path_hex, mw_hash = hash_to_hex (mn_hash node),
          mw_children = List.map_filter (\<lambda>(i, c). map_option (\<lambda>x. ([nibble_to_char i], hash_to_hex x)) c) (enumerate 0 (mn_children node)),
          mw_keys = map hash_to_hex (mn_keys node)\<rparr>) (map_of t path))"

section \<open>Descent\<close>

definition key_diff :: "string list \<Rightarrow> string list \<Rightarrow> string set \<times> string set" where
  "key_diff mine theirs = (set mine - set theirs, set theirs - set mine)"

definition compare_child ::
  "merkle_search_tree \<Rightarrow> mst_node_wire list \<Rightarrow> mst_node_wire \<Rightarrow> mst_node_wire option \<Rightarrow> char \<Rightarrow> string set \<times> string set \<times> string set" where
  "compare_child my_mst server_nodes their_node my_node ch =
     (if (case my_node of Some n \<Rightarrow> map_of (mw_children n) [ch] | None \<Rightarrow> None) = map_of (mw_children their_node) [ch]
      then ({}, {}, {})
      else
        let child_path = mw_path their_node @ [ch];
            their_child_node = find (\<lambda>n. mw_path n = child_path) server_nodes;
            my_child_node = get_node_wire my_mst child_path;
            has_children = (\<lambda>w. case w of Some n \<Rightarrow> mw_children n \<noteq> [] | None \<Rightarrow> False);
            keys = (\<lambda>w. case w of Some n \<Rightarrow> mw_keys n | None \<Rightarrow> [])
        in if \<not> has_children their_child_node \<and> \<not> has_children my_child_node
           then let (mine, theirs) = key_diff (keys my_child_node) (keys their_child_node) in ({}, mine, theirs)
           else ({child_path}, {}, {}))"

definition union3 :: "'a set \<times> 'b set \<times> 'c set \<Rightarrow> 'a set \<times> 'b set \<times> 'c set \<Rightarrow> 'a set \<times> 'b set \<times> 'c set" where
  "union3 x y = (fst x \<union> fst y, fst (snd x) \<union> fst (snd y), snd (snd x) \<union> snd (snd y))"

definition compare_node ::
  "merkle_search_tree \<Rightarrow> mst_node_wire list \<Rightarrow> mst_node_wire \<Rightarrow> string set \<times> string set \<times> string set" where
  "compare_node my_mst server_nodes their_node =
     (let my_node = get_node_wire my_mst (mw_path their_node) in
      if map_option mw_hash my_node = Some (mw_hash their_node) then ({}, {}, {})
      else
        let below = fold (\<lambda>ch acc. union3 acc (compare_child my_mst server_nodes their_node my_node ch)) ''0123456789abcdef'' ({}, {}, {})
        in if mw_children their_node = []
           then let (mine, theirs) = key_diff (case my_node of Some n \<Rightarrow> mw_keys n | None \<Rightarrow> []) (mw_keys their_node)
                in union3 below ({}, mine, theirs)
           else below)"

text \<open>The three lists are sorted and freed of repetitions at the end, so they are collected as sets.\<close>

definition mst_process_response :: "keyed_hash \<Rightarrow> node_id list \<Rightarrow> mst_node_wire list \<Rightarrow> string set \<times> string set \<times> string set" where
  "mst_process_response kh my_ids server_nodes =
     (let my_mst = mst_from_ids kh my_ids in
      fold (\<lambda>n acc. union3 acc (compare_node my_mst server_nodes n)) server_nodes ({}, {}, {}))"

section \<open>The hash of a subtree\<close>

abbreviation nib_group :: "nat \<Rightarrow> node_id list \<Rightarrow> nat \<Rightarrow> node_id list" where
  "nib_group depth ids n \<equiv> filter (\<lambda>i. unat (nibble_at i depth) = n) ids"

fun subtree_hash :: "keyed_hash \<Rightarrow> nat \<Rightarrow> nat \<Rightarrow> node_id list \<Rightarrow> hash" where
  "subtree_hash kh 0 depth ids = leaf_hash kh ids"
| "subtree_hash kh (Suc left) depth ids =
     (if length ids = 1 then leaf_hash kh ids
      else internal_hash kh (map (\<lambda>n. if nib_group depth ids n = [] then None else Some (subtree_hash kh left (Suc depth) (nib_group depth ids n))) [0..<16]))"

definition children_of :: "keyed_hash \<Rightarrow> nat \<Rightarrow> nat \<Rightarrow> node_id list \<Rightarrow> hash option list" where
  "children_of kh left depth ids =
     map (\<lambda>n. if nib_group depth ids n = [] then None else Some (subtree_hash kh left (Suc depth) (nib_group depth ids n))) [0..<16]"

definition is_leaf :: "nat \<Rightarrow> node_id list \<Rightarrow> bool" where
  "is_leaf left ids \<longleftrightarrow> left = 0 \<or> length ids = 1"

definition node_of :: "keyed_hash \<Rightarrow> nat \<Rightarrow> nat \<Rightarrow> node_id list \<Rightarrow> mst_node" where
  "node_of kh left depth ids = \<lparr>mn_hash = subtree_hash kh left depth ids,
     mn_children = (if is_leaf left ids then replicate 16 None else children_of kh (left - 1) depth ids),
     mn_keys = (if is_leaf left ids then ids else [])\<rparr>"

definition build_child ::
  "keyed_hash \<Rightarrow> nat \<Rightarrow> u8 list \<Rightarrow> node_id list \<Rightarrow> nat \<Rightarrow> hash option list \<times> merkle_search_tree \<Rightarrow> hash option list \<times> merkle_search_tree" where
  "build_child kh left path ids n = (\<lambda>(cs, t).
     if nib_group (length path) ids n = [] then (cs @ [None], t)
     else let (x, t') = build_recursive kh left (path @ [word_of_nat n]) (nib_group (length path) ids n) t in (cs @ [Some x], t'))"

lemma build_recursive_Suc:
  "build_recursive kh (Suc left) path ids t =
     (if length ids = 1
      then (leaf_hash kh ids, AList.update path \<lparr>mn_hash = leaf_hash kh ids, mn_children = replicate 16 None, mn_keys = ids\<rparr> t)
      else
        let (children, t1) = fold (build_child kh left path ids) [0..<16] ([], t) in
        (internal_hash kh children, AList.update path \<lparr>mn_hash = internal_hash kh children, mn_children = children, mn_keys = []\<rparr> t1))"
  by (simp add: build_child_def [abs_def] Let_def cong: if_cong)

lemma fold_build_child:
  assumes "\<And>path ids t. fst (build_recursive kh left path ids t) = subtree_hash kh left (length path) ids"
  shows "fst (fold (build_child kh left path ids) [0..<16] ([], t)) = children_of kh left (length path) ids"
proof -
  have "fst (fold (build_child kh left path ids) ns (cs, t)) =
      cs @ map (\<lambda>n. if nib_group (length path) ids n = [] then None else Some (subtree_hash kh left (Suc (length path)) (nib_group (length path) ids n))) ns"
    for ns cs t
    by (induction ns arbitrary: cs t) (auto simp: build_child_def split_beta assms)
  then show ?thesis by (simp add: children_of_def)
qed

lemma build_hash: "fst (build_recursive kh left path ids t) = subtree_hash kh left (length path) ids"
proof (induction left arbitrary: path ids t)
  case (Suc left)
  from fold_build_child [OF Suc.IH] show ?case
    by (simp add: build_recursive_Suc split_beta children_of_def del: build_recursive.simps)
qed simp

lemmas build_children = fold_build_child [OF build_hash]

lemma build_node: "map_of (snd (build_recursive kh left path ids t)) path = Some (node_of kh left (length path) ids)"
proof (cases left)
  case (Suc l)
  then show ?thesis
    by (simp add: build_recursive_Suc split_beta build_children update_conv' node_of_def is_leaf_def del: build_recursive.simps)
      (simp add: children_of_def)
qed (simp add: update_conv' node_of_def is_leaf_def)

lemma root_node: "ids \<noteq> [] \<Longrightarrow> map_of (mst_from_ids kh ids) [] = Some (node_of kh 64 0 (sort ids))"
  using build_node [of kh 64 "[]" "sort ids" mst_new] by (simp add: mst_from_ids_def)

lemma root_hash_ids: "mst_root_hash (mst_from_ids kh ids) = (if ids = [] then 0 else subtree_hash kh 64 0 (sort ids))"
  using root_node [of ids kh] by (cases "ids = []") (simp_all add: mst_root_hash_def node_of_def mst_from_ids_def mst_new_def)

section \<open>What the root says\<close>

fun hashed :: "keyed_hash \<Rightarrow> nat \<Rightarrow> nat \<Rightarrow> node_id list \<Rightarrow> (bytes \<times> bytes) set" where
  "hashed kh 0 depth ids = {(MST_LEAF_KEY, concat (map (be_bytes 32) ids))}"
| "hashed kh (Suc left) depth ids =
     (if length ids = 1 then {(MST_LEAF_KEY, concat (map (be_bytes 32) ids))}
      else insert (MST_INTERNAL_KEY, concat (map child_bytes (children_of kh left depth ids)))
        (\<Union>n \<in> {n. n < 16 \<and> nib_group depth ids n \<noteq> []}. hashed kh left (Suc depth) (nib_group depth ids n)))"

definition no_collision :: "keyed_hash \<Rightarrow> (bytes \<times> bytes) set \<Rightarrow> bool" where
  "no_collision kh H \<longleftrightarrow> inj_on (\<lambda>(k, b). kh k b) H \<and> (\<forall>(k, b) \<in> H. kh k b \<noteq> 0)"

lemma no_collisionD:
  "no_collision kh H \<Longrightarrow> (k, b) \<in> H \<Longrightarrow> (k', b') \<in> H \<Longrightarrow> kh k b = kh k' b' \<Longrightarrow> k = k' \<and> b = b'"
  "no_collision kh H \<Longrightarrow> (k, b) \<in> H \<Longrightarrow> kh k b \<noteq> 0"
  "no_collision kh H \<Longrightarrow> H' \<subseteq> H \<Longrightarrow> no_collision kh H'"
  unfolding no_collision_def by (force dest: inj_onD [of _ _ "(k, b)" "(k', b')"]) (auto intro: inj_on_subset)

lemma mst_keys_differ: "MST_LEAF_KEY \<noteq> MST_INTERNAL_KEY"
  by (simp add: MST_LEAF_KEY_def MST_INTERNAL_KEY_def)

lemma nibble_less: "unat (nibble_at i depth) < 16"
proof -
  have "b AND 0x0f = take_bit 4 b" for b :: u8 by (simp add: take_bit_eq_mask mask_eq_exp_minus_1)
  then have "unat (b AND 0x0f :: u8) < 16" for b using take_bit_nat_less_exp [of 4 "unat b"] by (simp add: unsigned_take_bit_eq)
  then show ?thesis by (simp add: nibble_at_def Let_def)
qed

lemma groups_cover: "set ids = (\<Union>n < 16. set (nib_group depth ids n))"
  using nibble_less by auto

lemma concat_blocks:
  fixes xs ys :: "bytes list"
  assumes "\<forall>x \<in> set xs \<union> set ys. length x = 32" "concat xs = concat ys"
  shows "xs = ys"
proof -
  have len: "length (concat zs) = 32 * length zs" if "\<forall>x \<in> set zs. length x = 32" for zs :: "bytes list"
    using that by (induction zs) auto
  have "length xs = length ys" using len [of xs] len [of ys] assms by simp
  moreover have "length x = length y" if "(x, y) \<in> set (zip xs ys)" for x y
    using assms(1) set_zip_leftD [OF that] set_zip_rightD [OF that] by simp
  ultimately show ?thesis using assms(2) concat_injective [of xs ys] by fast
qed

lemma hash_bytes_inj: "inj (be_bytes 32 :: hash \<Rightarrow> bytes)"
  by (rule injI) (rule be_bytes_inj [of 32], simp_all)

lemma be_bytes_map_inj: "map (be_bytes 32) ids = map (be_bytes 32) js \<Longrightarrow> ids = (js :: node_id list)"
  using inj_map_eq_map [OF hash_bytes_inj] by blast

lemma child_bytes_inj:
  assumes "child_bytes c = child_bytes d" "c \<noteq> Some 0" "d \<noteq> Some 0"
  shows "c = d"
proof -
  have "be_bytes 32 (0 :: hash) = replicate 32 0" by (simp add: be_bytes_def map_replicate_const)
  then have z: "be_bytes 32 x = replicate 32 0 \<longleftrightarrow> x = 0" for x :: hash using inj_eq [OF hash_bytes_inj, of x 0] by simp
  then have "replicate 32 0 = be_bytes 32 x \<longleftrightarrow> x = 0" for x :: hash by metis
  with assms z inj_eq [OF hash_bytes_inj] show ?thesis unfolding child_bytes_def by (cases c; cases d) auto
qed

lemma subtree_hashed: "\<exists>(k, b) \<in> hashed kh left depth ids. subtree_hash kh left depth ids = kh k b"
  by (cases left) (auto simp: leaf_hash_def internal_hash_def children_of_def)

lemma leaf_hash_inj:
  assumes "no_collision kh H" "(MST_LEAF_KEY, concat (map (be_bytes 32) A)) \<in> H" "(MST_LEAF_KEY, concat (map (be_bytes 32) B)) \<in> H"
    "leaf_hash kh A = leaf_hash kh B"
  shows "A = B"
proof -
  have "concat (map (be_bytes 32) A) = concat (map (be_bytes 32) B)"
    using no_collisionD(1) [OF assms(1-3)] assms(4) by (simp add: leaf_hash_def)
  then show ?thesis by (intro be_bytes_map_inj concat_blocks) auto
qed

lemma children_nonzero:
  assumes "no_collision kh H" "hashed kh (Suc left) depth A \<subseteq> H" "length A \<noteq> 1" "n < 16"
  shows "children_of kh left depth A ! n \<noteq> Some 0"
proof
  assume z: "children_of kh left depth A ! n = Some 0"
  then have g: "nib_group depth A n \<noteq> []" "subtree_hash kh left (Suc depth) (nib_group depth A n) = 0"
    using assms(4) by (auto simp: children_of_def split: if_splits)
  obtain k b where kb: "(k, b) \<in> hashed kh left (Suc depth) (nib_group depth A n)" "kh k b = 0"
    using subtree_hashed [of kh left "Suc depth" "nib_group depth A n"] g(2) by auto
  then have "(k, b) \<in> H" using assms(2-4) g(1) by auto
  with kb(2) no_collisionD(2) [OF assms(1)] show False by blast
qed

lemma internal_hash_inj:
  assumes nc: "no_collision kh H" and sub: "hashed kh (Suc left) depth A \<subseteq> H" "hashed kh (Suc left) depth B \<subseteq> H"
    and "length A \<noteq> 1" "length B \<noteq> 1" "internal_hash kh (children_of kh left depth A) = internal_hash kh (children_of kh left depth B)"
  shows "children_of kh left depth A = children_of kh left depth B"
proof (rule nth_equalityI)
  show len: "length (children_of kh left depth A) = length (children_of kh left depth B)" by (simp add: children_of_def)
  have "concat (map child_bytes (children_of kh left depth A)) = concat (map child_bytes (children_of kh left depth B))"
    using no_collisionD(1) [OF nc, of MST_INTERNAL_KEY _ MST_INTERNAL_KEY] sub assms(4-6) by (auto simp: internal_hash_def)
  then have eq: "map child_bytes (children_of kh left depth A) = map child_bytes (children_of kh left depth B)"
    by (rule concat_blocks [rotated]) (auto simp: child_bytes_def split: option.split)
  fix n assume n: "n < length (children_of kh left depth A)"
  then have "child_bytes (children_of kh left depth A ! n) = child_bytes (children_of kh left depth B ! n)"
    using eq len by (metis nth_map)
  moreover have "n < 16" using n by (simp add: children_of_def)
  ultimately show "children_of kh left depth A ! n = children_of kh left depth B ! n"
    using children_nonzero [OF nc] sub assms(4,5) child_bytes_inj by metis
qed

lemma subtree_hash_inj:
  assumes "no_collision kh H" "hashed kh left depth A \<subseteq> H" "hashed kh left depth B \<subseteq> H"
    "subtree_hash kh left depth A = subtree_hash kh left depth B"
  shows "set A = set B"
  using assms(2-)
proof (induction left arbitrary: depth A B)
  case 0
  then show ?case using leaf_hash_inj [OF assms(1), of A B] by simp
next
  case (Suc left)
  have mixed: False if "length C = 1" "length D \<noteq> 1" "hashed kh (Suc left) depth C \<subseteq> H" "hashed kh (Suc left) depth D \<subseteq> H"
    "subtree_hash kh (Suc left) depth C = subtree_hash kh (Suc left) depth D" for C D
    using that no_collisionD(1) [OF assms(1), of MST_LEAF_KEY _ MST_INTERNAL_KEY] mst_keys_differ
    by (auto simp: leaf_hash_def internal_hash_def children_of_def)
  show ?case
  proof (cases "length A = 1 \<or> length B = 1")
    case True
    then have "length A = 1" "length B = 1" using mixed Suc.prems by metis+
    then show ?thesis using Suc.prems leaf_hash_inj [OF assms(1), of A B] by simp
  next
    case False
    then have ch: "children_of kh left depth A = children_of kh left depth B"
      using Suc.prems by (intro internal_hash_inj [OF assms(1)]) (simp_all add: children_of_def)
    have "set (nib_group depth A n) = set (nib_group depth B n)" if n: "n < 16" for n
    proof -
      have "children_of kh left depth A ! n = children_of kh left depth B ! n" by (simp add: ch)
      then consider "nib_group depth A n = []" "nib_group depth B n = []"
        | "nib_group depth A n \<noteq> []" "nib_group depth B n \<noteq> []"
          "subtree_hash kh left (Suc depth) (nib_group depth A n) = subtree_hash kh left (Suc depth) (nib_group depth B n)"
        using n by (auto simp: children_of_def split: if_splits)
      then show ?thesis
      proof cases
        case 2
        then show ?thesis using Suc.prems(1,2) False n by (intro Suc.IH) auto
      qed simp
    qed
    then show ?thesis unfolding groups_cover [of A depth] groups_cover [of B depth] by simp
  qed
qed

definition mst_hashed :: "keyed_hash \<Rightarrow> node_id list \<Rightarrow> (bytes \<times> bytes) set" where
  "mst_hashed kh ids = (if ids = [] then {} else hashed kh 64 0 (sort ids))"

lemma root_nonzero:
  assumes "no_collision kh (mst_hashed kh ids)" "ids \<noteq> []"
  shows "mst_root_hash (mst_from_ids kh ids) \<noteq> 0"
proof -
  obtain k b where "(k, b) \<in> mst_hashed kh ids" "subtree_hash kh 64 0 (sort ids) = kh k b"
    using subtree_hashed [of kh 64 0 "sort ids"] assms(2) by (auto simp: mst_hashed_def)
  with no_collisionD(2) [OF assms(1)] assms(2) show ?thesis by (simp add: root_hash_ids)
qed

section \<open>Samples\<close>

definition sample_keyed_hash :: keyed_hash where
  "sample_keyed_hash k b = (if k = MST_LEAF_KEY then of_be b + 1 else 9)"

definition sample_far :: node_id where
  "sample_far = 7237005577332262213973186563042994240829374041602535252466099000494570602496"

lemma sample_nibbles: "nibble_at 1 0 = 0" "nibble_at sample_far 0 = 1"
proof -
  have "be_bytes 32 (1 :: node_id) ! 0 = 0" "be_bytes 32 sample_far ! 0 = 16" by (simp_all add: be_bytes_def sample_far_def)
  then show "nibble_at 1 0 = 0" "nibble_at sample_far 0 = 1" by (simp_all add: nibble_at_def Let_def)
qed

lemma sample_far_ge [simp]: "1 \<le> sample_far"
  by (simp add: sample_far_def)

lemma sample_leaf_hash: "leaf_hash sample_keyed_hash [i] = i + 1"
  using of_be_be_bytes [where n = 32 and w = i] by (simp add: leaf_hash_def sample_keyed_hash_def)

lemma sample_mst_hashed:
  "\<exists>b. mst_hashed sample_keyed_hash [1, sample_far] =
     {(MST_INTERNAL_KEY, b), (MST_LEAF_KEY, be_bytes 32 (1 :: node_id)), (MST_LEAF_KEY, be_bytes 32 sample_far)}"
proof -
  have ix: "{n. n < 16 \<and> nib_group 0 [1, sample_far] n \<noteq> []} = {0, 1}" by (auto simp: sample_nibbles)
  have "hashed sample_keyed_hash (Suc (Suc l)) 0 [1, sample_far] =
      {(MST_INTERNAL_KEY, concat (map child_bytes (children_of sample_keyed_hash (Suc l) 0 [1, sample_far]))),
       (MST_LEAF_KEY, be_bytes 32 (1 :: node_id)), (MST_LEAF_KEY, be_bytes 32 sample_far)}" for l
    unfolding hashed.simps(2) [of _ "Suc l"] ix by (simp add: sample_nibbles insert_commute)
  from this [of 62] show ?thesis by (auto simp: mst_hashed_def)
qed

lemma sample_no_collision: "no_collision sample_keyed_hash (mst_hashed sample_keyed_hash [1] \<union> mst_hashed sample_keyed_hash [1, sample_far])"
proof -
  obtain b where b: "mst_hashed sample_keyed_hash [1, sample_far] =
     {(MST_INTERNAL_KEY, b), (MST_LEAF_KEY, be_bytes 32 (1 :: node_id)), (MST_LEAF_KEY, be_bytes 32 sample_far)}"
    using sample_mst_hashed by blast
  have one: "mst_hashed sample_keyed_hash [1] = {(MST_LEAF_KEY, be_bytes 32 (1 :: node_id))}"
    using hashed.simps(2) [of sample_keyed_hash 63 0 "[1]"] by (simp add: mst_hashed_def)
  have h: "sample_keyed_hash MST_INTERNAL_KEY b = 9" "sample_keyed_hash MST_LEAF_KEY (be_bytes 32 (1 :: node_id)) = 2"
    "sample_keyed_hash MST_LEAF_KEY (be_bytes 32 sample_far) = sample_far + 1"
    using sample_leaf_hash [of 1] sample_leaf_hash [of sample_far] mst_keys_differ by (simp_all add: leaf_hash_def sample_keyed_hash_def)
  have "sample_far + 1 \<noteq> 2" "sample_far + 1 \<noteq> 9" "sample_far + 1 \<noteq> 0" by (simp_all add: sample_far_def)
  then show ?thesis by (auto simp: no_collision_def one b h)
qed

section \<open>Properties\<close>

text \<open>C21: two peers compute the same Merkle search tree root exactly when they hold the same nodes, as
  long as the keyed hash neither collides nor yields zero on what the two trees hash.\<close>

theorem mst_root_determines_ids:
  assumes "distinct A" "distinct B" "no_collision kh (mst_hashed kh A \<union> mst_hashed kh B)"
  shows "mst_root_hash (mst_from_ids kh A) = mst_root_hash (mst_from_ids kh B) \<longleftrightarrow> set A = set B"
proof
  assume "set A = set B"
  then have "sort A = sort B" using assms(1,2) by (metis sorted_list_of_set_sort_remdups remdups_id_iff_distinct)
  moreover have "A = [] \<longleftrightarrow> B = []" using \<open>set A = set B\<close> by auto
  ultimately show "mst_root_hash (mst_from_ids kh A) = mst_root_hash (mst_from_ids kh B)" by (simp add: root_hash_ids)
next
  assume eq: "mst_root_hash (mst_from_ids kh A) = mst_root_hash (mst_from_ids kh B)"
  have nz: "no_collision kh (mst_hashed kh A)" "no_collision kh (mst_hashed kh B)" using no_collisionD(3) [OF assms(3)] by blast+
  show "set A = set B"
  proof (cases "A = [] \<or> B = []")
    case True
    then show ?thesis using eq root_nonzero [OF nz(1)] root_nonzero [OF nz(2)] by (cases "A = []"; cases "B = []") (simp_all add: root_hash_ids)
  next
    case False
    then have "set (sort A) = set (sort B)"
      using eq by (intro subtree_hash_inj [OF assms(3), of 64 0]) (auto simp: mst_hashed_def root_hash_ids)
    then show ?thesis by simp
  qed
qed

theorem mst_root_determines_ids_witness:
  "mst_root_hash (mst_from_ids sample_keyed_hash [1]) \<noteq> mst_root_hash (mst_from_ids sample_keyed_hash [1, sample_far])"
proof -
  have d: "sample_far \<noteq> 1" by (simp add: sample_far_def)
  then have "set [1] \<noteq> set [1, sample_far]" by auto
  with mst_root_determines_ids [OF _ _ sample_no_collision] d show ?thesis by simp
qed

lemma empty_tree_wire: "get_node_wire (mst_from_ids kh []) path = None"
  by (simp add: get_node_wire_def mst_from_ids_def mst_new_def split: option.split)

lemma root_wire_children:
  assumes "2 \<le> length ids" "get_node_wire (mst_from_ids kh ids) [] = Some w"
  shows "mw_path w = []" "mw_children w \<noteq> []"
proof -
  obtain i rest where s: "sort ids = i # rest" "rest \<noteq> []"
    using assms(1) by (cases "sort ids"; cases "tl (sort ids)") (auto dest: arg_cong [of _ _ length])
  have w: "w = \<lparr>mw_path = [], mw_hash = hash_to_hex (mn_hash (node_of kh 64 0 (sort ids))),
      mw_children = List.map_filter (\<lambda>(i, c). map_option (\<lambda>x. ([nibble_to_char i], hash_to_hex x)) c) (enumerate 0 (mn_children (node_of kh 64 0 (sort ids)))),
      mw_keys = map hash_to_hex (mn_keys (node_of kh 64 0 (sort ids)))\<rparr>"
    using assms root_node [of ids kh] by (cases ids) (auto simp: get_node_wire_def)
  show "mw_path w = []" by (simp add: w)
  let ?n = "unat (nibble_at i 0)"
  have "mn_children (node_of kh 64 0 (sort ids)) = children_of kh 63 0 (sort ids)"
    using s by (simp add: node_of_def is_leaf_def)
  then have "(?n, children_of kh 63 0 (sort ids) ! ?n) \<in> set (enumerate 0 (mn_children (node_of kh 64 0 (sort ids))))"
    using nibble_less [of i 0] by (auto simp: in_set_enumerate_eq children_of_def)
  moreover have "children_of kh 63 0 (sort ids) ! ?n \<noteq> None" using s(1) nibble_less [of i 0] by (simp add: children_of_def)
  ultimately show "mw_children w \<noteq> []" by (auto simp: w List.map_filter_def filter_empty_conv intro!: bexI)
qed

lemma compare_child_alone:
  "mw_path w = [] \<Longrightarrow> compare_child (mst_from_ids kh []) [w] w None ch = ({}, {}, {})"
  by (simp add: compare_child_def empty_tree_wire key_diff_def)

text \<open>C35: the descent does not find what a peer is missing: a client without nodes that receives the
  root of a server holding at least two nodes asks for no further path and reports no node as missing.\<close>

theorem mst_descent_misses:
  assumes "2 \<le> length ids" "get_node_wire (mst_from_ids kh ids) [] = Some w"
  shows "mst_process_response kh [] [w] = ({}, {}, {})"
proof -
  note w = root_wire_children [OF assms]
  have "fold (\<lambda>ch acc. union3 acc (compare_child (mst_from_ids kh []) [w] w None ch)) cs ({}, {}, {}) = ({}, {}, {})" for cs
    by (induction cs) (simp_all add: compare_child_alone [OF w(1)] union3_def)
  from this [of "''0123456789abcdef''"] have "compare_node (mst_from_ids kh []) [w] w = ({}, {}, {})"
    using w(2) by (simp only: compare_node_def empty_tree_wire Let_def option.map option.distinct if_False)
  then show ?thesis by (simp add: mst_process_response_def union3_def)
qed

theorem mst_descent_misses_witness:
  "\<exists>w. get_node_wire (mst_from_ids sample_keyed_hash [1, sample_far]) [] = Some w
     \<and> mst_process_response sample_keyed_hash [] [w] = ({}, {}, {})"
  using mst_descent_misses [of "[1, sample_far]" sample_keyed_hash] root_node [of "[1, sample_far]" sample_keyed_hash]
  by (simp add: get_node_wire_def)

end
