(* ===== verification/Client_Store.thy ===== *)
theory Client_Store
  imports Compaction Crypto Token Base64 Ibf Mst
begin

text \<open>
  The store of the browser client (\<open>SyncStore\<close> in \<open>clients/bridge-wasm/src/lib.rs\<close>): a graph with the keys, the blob
  store, the tick buffer and the conflict window around it. The clock \<open>Date::now()\<close> is an argument. A
  \<open>JsValue\<close> error is a message or the \<open>SyncError\<close> whose text it carries. Where the code takes or returns JSON text the
  model has the value that the text stands for, and text that is no JSON of the expected shape is the empty list.
\<close>

datatype js_error = JsMsg string | JsSync sync_error

type_synonym 'a js = "js_error + 'a"

record sync_store =
  st_graph :: state_graph
  st_signing_key :: seed
  st_blobs :: memory_blob_store
  st_room_key :: "hash option"
  st_tick_config :: "tick_config option"
  st_pending_tick_ops :: "op list"
  st_conflicts_seen :: "conflict_fingerprint set"
  st_conflicts_seen_order :: "conflict_fingerprint list"

type_synonym 'a js_outcome = "('a js \<times> sync_store) rust"

definition CONFLICT_SEEN_MAX :: nat where
  "CONFLICT_SEEN_MAX = 4096"

definition on_graph :: "sync_store \<Rightarrow> 'a outcome \<Rightarrow> 'a js_outcome" where
  "on_graph s r = map_rust (\<lambda>(x, g). (map_sum JsSync id x, s\<lparr>st_graph := g\<rparr>)) r"

definition ignoring :: "'a js_outcome \<Rightarrow> unit js_outcome" where
  "ignoring r = map_rust (\<lambda>(x, s). (map_sum id (\<lambda>_. ()) x, s)) r"

section \<open>Creation and keys\<close>

definition store_new :: "bytes \<Rightarrow> sync_store js" where
  "store_new author_key =
     (if length author_key \<noteq> 32 then Inl (JsMsg ''author_key must be 32 bytes'')
      else Inr \<lparr>st_graph = set_conflict_stream_enabled True graph_new, st_signing_key = of_be author_key, st_blobs = mbs_new,
        st_room_key = None, st_tick_config = None, st_pending_tick_ops = [], st_conflicts_seen = {}, st_conflicts_seen_order = []\<rparr>)"

definition pubkey_hex :: "env \<Rightarrow> sync_store \<Rightarrow> string" where
  "pubkey_hex e s = bytes_to_hex (be_bytes 32 (ed_public e (st_signing_key s)))"

definition set_room_key :: "cipher \<Rightarrow> bytes \<Rightarrow> sync_store \<Rightarrow> unit js \<times> sync_store" where
  "set_room_key c room_seed s =
     (if length room_seed \<noteq> 32 then (Inl (JsMsg ''room_seed must be 32 bytes''), s)
      else (Inr (), s\<lparr>st_room_key := Some (derive_room_key c (of_be room_seed))\<rparr>))"

definition clear_room_key :: "sync_store \<Rightarrow> sync_store" where
  "clear_room_key s = s\<lparr>st_room_key := None\<rparr>"

definition has_room_key :: "sync_store \<Rightarrow> bool" where
  "has_room_key s \<longleftrightarrow> st_room_key s \<noteq> None"

section \<open>Local operations\<close>

definition final_ops :: "env \<Rightarrow> cipher \<Rightarrow> sync_store \<Rightarrow> op list \<Rightarrow> op list res" where
  "final_ops e c s ops =
     (case st_room_key s of
        Some key \<Rightarrow> wrap_encrypted_ops c key (ed_public e (st_signing_key s)) (g_lamport (st_graph s) + 1) ops
      | None \<Rightarrow> Inr ops)"

definition commit_ops_immediate :: "env \<Rightarrow> cipher \<Rightarrow> op list \<Rightarrow> u64 \<Rightarrow> sync_store \<Rightarrow> node_id js_outcome" where
  "commit_ops_immediate e c ops wall_ms s =
     (case final_ops e c s ops of
        Inl er \<Rightarrow> Ret (Inl (JsSync er), s)
      | Inr fops \<Rightarrow> on_graph s (apply_local e (st_signing_key s) wall_ms fops (st_graph s)))"

definition apply_local_ops :: "env \<Rightarrow> cipher \<Rightarrow> op list \<Rightarrow> u64 \<Rightarrow> sync_store \<Rightarrow> unit js_outcome" where
  "apply_local_ops e c ops wall_ms s =
     (case st_tick_config s of
        Some tc \<Rightarrow>
          let buffered = st_pending_tick_ops s @ ops in
          if tc_max_ops_per_tick tc \<le> length buffered
          then ignoring (commit_ops_immediate e c buffered wall_ms (s\<lparr>st_pending_tick_ops := []\<rparr>))
          else Ret (Inr (), s\<lparr>st_pending_tick_ops := buffered\<rparr>)
      | None \<Rightarrow> ignoring (commit_ops_immediate e c ops wall_ms s))"

definition store_set :: "env \<Rightarrow> cipher \<Rightarrow> u64 \<Rightarrow> string \<Rightarrow> bytes \<Rightarrow> sync_store \<Rightarrow> unit js_outcome" where
  "store_set e c now_ms key v s = apply_local_ops e c [OpMap (MapSet key v)] now_ms s"

definition store_delete :: "env \<Rightarrow> cipher \<Rightarrow> u64 \<Rightarrow> string \<Rightarrow> sync_store \<Rightarrow> unit js_outcome" where
  "store_delete e c now_ms key s = apply_local_ops e c [OpMap (MapDelete key)] now_ms s"

section \<open>Tick batching\<close>

definition store_set_local_signing :: "bool \<Rightarrow> sync_store \<Rightarrow> sync_store" where
  "store_set_local_signing enabled s = s\<lparr>st_graph := set_local_signing enabled (st_graph s)\<rparr>"

definition set_tick_config :: "u64 \<Rightarrow> u32 \<Rightarrow> sync_store \<Rightarrow> sync_store" where
  "set_tick_config interval_ms max_ops_per_tick s =
     s\<lparr>st_tick_config := Some \<lparr>tc_interval_ms = interval_ms, tc_max_ops_per_tick = unat max_ops_per_tick\<rparr>\<rparr>"

definition clear_tick_config :: "env \<Rightarrow> cipher \<Rightarrow> u64 \<Rightarrow> sync_store \<Rightarrow> unit js_outcome" where
  "clear_tick_config e c now_ms s =
     (let s1 = s\<lparr>st_tick_config := None\<rparr> in
      if st_pending_tick_ops s1 = [] then Ret (Inr (), s1)
      else ignoring (commit_ops_immediate e c (st_pending_tick_ops s1) now_ms (s1\<lparr>st_pending_tick_ops := []\<rparr>)))"

definition flush_tick :: "env \<Rightarrow> cipher \<Rightarrow> u64 \<Rightarrow> sync_store \<Rightarrow> string js_outcome" where
  "flush_tick e c now_ms s =
     (if st_pending_tick_ops s = [] then Ret (Inr [], s)
      else map_rust (\<lambda>(r, s1). (map_sum id (\<lambda>i. base64_encode (pack_nodes e (get_nodes (st_graph s1) [i]))) r, s1))
        (commit_ops_immediate e c (st_pending_tick_ops s) now_ms (s\<lparr>st_pending_tick_ops := []\<rparr>)))"

section \<open>Text\<close>

definition commit_text_range_op :: "env \<Rightarrow> text_range_op \<Rightarrow> u64 \<Rightarrow> sync_store \<Rightarrow> unit js_outcome" where
  "commit_text_range_op e rop wall_ms s =
     ignoring (on_graph s (apply_local_text_range_op e (st_signing_key s) wall_ms rop (st_graph s)))"

definition insert_anchored :: "env \<Rightarrow> u64 \<Rightarrow> string \<Rightarrow> text_range_anchor \<Rightarrow> scalar list \<Rightarrow> sync_store \<Rightarrow> unit js_outcome" where
  "insert_anchored e now_ms key anchor txt s =
     (if txt = [] then Ret (Inr (), s) else commit_text_range_op e (RangeInsert key anchor txt) now_ms s)"

definition delete_anchored :: "env \<Rightarrow> u64 \<Rightarrow> string \<Rightarrow> text_range_anchor \<Rightarrow> u32 \<Rightarrow> sync_store \<Rightarrow> unit js_outcome" where
  "delete_anchored e now_ms key anchor len s =
     (if len = 0 then Ret (Inr (), s) else commit_text_range_op e (RangeDelete key anchor (unat len)) now_ms s)"

definition insert_text_range :: "env \<Rightarrow> u64 \<Rightarrow> string \<Rightarrow> u32 \<Rightarrow> scalar list \<Rightarrow> sync_store \<Rightarrow> unit js_outcome" where
  "insert_text_range e now_ms key pos txt s = insert_anchored e now_ms key (Offset (unat pos)) txt s"

definition delete_text_range :: "env \<Rightarrow> u64 \<Rightarrow> string \<Rightarrow> u32 \<Rightarrow> u32 \<Rightarrow> sync_store \<Rightarrow> unit js_outcome" where
  "delete_text_range e now_ms key pos len s = delete_anchored e now_ms key (Offset (unat pos)) len s"

definition insert_text :: "env \<Rightarrow> u64 \<Rightarrow> string \<Rightarrow> u32 \<Rightarrow> scalar list \<Rightarrow> sync_store \<Rightarrow> unit js_outcome" where
  "insert_text e now_ms key pos ch_str s =
     (case ch_str of
        [] \<Rightarrow> Ret (Inl (JsMsg ''ch must be a non-empty string''), s)
      | ch # _ \<Rightarrow> insert_text_range e now_ms key pos [ch] s)"

definition delete_text :: "env \<Rightarrow> u64 \<Rightarrow> string \<Rightarrow> u32 \<Rightarrow> sync_store \<Rightarrow> unit js_outcome" where
  "delete_text e now_ms key pos s = delete_text_range e now_ms key pos 1 s"

definition insert_text_range_start :: "env \<Rightarrow> u64 \<Rightarrow> string \<Rightarrow> scalar list \<Rightarrow> sync_store \<Rightarrow> unit js_outcome" where
  "insert_text_range_start e now_ms key txt s = insert_anchored e now_ms key Start txt s"

definition insert_text_range_end :: "env \<Rightarrow> u64 \<Rightarrow> string \<Rightarrow> scalar list \<Rightarrow> sync_store \<Rightarrow> unit js_outcome" where
  "insert_text_range_end e now_ms key txt s = insert_anchored e now_ms key End txt s"

definition delete_text_range_start :: "env \<Rightarrow> u64 \<Rightarrow> string \<Rightarrow> u32 \<Rightarrow> sync_store \<Rightarrow> unit js_outcome" where
  "delete_text_range_start e now_ms key len s = delete_anchored e now_ms key Start len s"

definition hex_to_array_32 :: "string \<Rightarrow> hash option" where
  "hex_to_array_32 s = (if length s \<noteq> 64 then None else map_option of_be (hex_pairs s))"

definition parse_op_id :: "u64 \<Rightarrow> string \<Rightarrow> op_id js" where
  "parse_op_id lamport author_hex32 =
     (case hex_to_array_32 author_hex32 of
        None \<Rightarrow> Inl (JsMsg ''author must be 64 hex chars'')
      | Some author \<Rightarrow> Inr (OpId lamport author))"

definition insert_text_range_after :: "env \<Rightarrow> u64 \<Rightarrow> string \<Rightarrow> u64 \<Rightarrow> string \<Rightarrow> scalar list \<Rightarrow> sync_store \<Rightarrow> unit js_outcome" where
  "insert_text_range_after e now_ms key after_lamport after_author_hex32 txt s =
     (if txt = [] then Ret (Inr (), s)
      else case parse_op_id after_lamport after_author_hex32 of
          Inl er \<Rightarrow> Ret (Inl er, s)
        | Inr after \<Rightarrow> insert_anchored e now_ms key (After after) txt s)"

definition delete_text_range_after :: "env \<Rightarrow> u64 \<Rightarrow> string \<Rightarrow> u64 \<Rightarrow> string \<Rightarrow> u32 \<Rightarrow> sync_store \<Rightarrow> unit js_outcome" where
  "delete_text_range_after e now_ms key after_lamport after_author_hex32 len s =
     (if len = 0 then Ret (Inr (), s)
      else case parse_op_id after_lamport after_author_hex32 of
          Inl er \<Rightarrow> Ret (Inl er, s)
        | Inr after \<Rightarrow> delete_anchored e now_ms key (After after) len s)"

section \<open>Lists\<close>

definition parse_item_id :: "string \<Rightarrow> item_id js" where
  "parse_item_id hex =
     (if length hex \<noteq> 32 then Inl (JsMsg ''item_id must be 32 hex chars'')
      else case hex_pairs hex of
          None \<Rightarrow> Inl (JsMsg ''item_id: invalid hex'')
        | Some bs \<Rightarrow> Inr (of_be bs))"

definition position_for_index :: "(item_id \<times> frac_idx) list \<Rightarrow> nat \<Rightarrow> item_id option \<Rightarrow> frac_idx rust" where
  "position_for_index seq index exclude_id =
     (let filtered = map snd (filter (\<lambda>(i, _). Some i \<noteq> exclude_id) seq);
          i = min index (length filtered)
      in between (if i = 0 then None else Some (filtered ! (i - 1))) (if length filtered \<le> i then None else Some (filtered ! i)))"

definition list_insert_at :: "env \<Rightarrow> cipher \<Rightarrow> u64 \<Rightarrow> string \<Rightarrow> u32 \<Rightarrow> string \<Rightarrow> sync_store \<Rightarrow> unit js_outcome" where
  "list_insert_at e c now_ms key index item_id_hex s =
     (case parse_item_id item_id_hex of
        Inl er \<Rightarrow> Ret (Inl er, s)
      | Inr i \<Rightarrow>
          rbind (position_for_index (resolve_list (st_graph s) key) (unat index) None) (\<lambda>pos.
            ignoring (commit_ops_immediate e c [OpList (ListInsert key i pos)] now_ms s)))"

definition list_move_to :: "env \<Rightarrow> cipher \<Rightarrow> u64 \<Rightarrow> string \<Rightarrow> string \<Rightarrow> u32 \<Rightarrow> sync_store \<Rightarrow> unit js_outcome" where
  "list_move_to e c now_ms key item_id_hex index s =
     (case parse_item_id item_id_hex of
        Inl er \<Rightarrow> Ret (Inl er, s)
      | Inr i \<Rightarrow>
          let seq = resolve_list (st_graph s) key in
          if i \<notin> fst ` set seq then Ret (Inl (JsMsg ''list_move_to: item not in list''), s)
          else rbind (position_for_index seq (unat index) (Some i)) (\<lambda>pos.
            ignoring (commit_ops_immediate e c [OpList (ListMove key i pos)] now_ms s)))"

definition list_delete :: "env \<Rightarrow> cipher \<Rightarrow> u64 \<Rightarrow> string \<Rightarrow> string \<Rightarrow> sync_store \<Rightarrow> unit js_outcome" where
  "list_delete e c now_ms key item_id_hex s =
     (case parse_item_id item_id_hex of
        Inl er \<Rightarrow> Ret (Inl er, s)
      | Inr i \<Rightarrow> ignoring (commit_ops_immediate e c [OpList (ListDelete key i)] now_ms s))"

section \<open>Blobs\<close>

definition set_blob :: "env \<Rightarrow> cipher \<Rightarrow> u64 \<Rightarrow> string \<Rightarrow> bytes \<Rightarrow> sync_store \<Rightarrow> string js_outcome" where
  "set_blob e c now_ms key data s =
     (let (h, blobs) = mbs_put e data (st_blobs s) in
      map_rust (\<lambda>(r, s1). (map_sum id (\<lambda>_. hash_to_hex h) r, s1))
        (apply_local_ops e c [OpMap (MapSetBlob key h)] now_ms (s\<lparr>st_blobs := blobs\<rparr>)))"

definition has_blob :: "sync_store \<Rightarrow> string \<Rightarrow> bool" where
  "has_blob s hash_hex = (case parse_hex_hash hash_hex of Some h \<Rightarrow> mbs_contains (st_blobs s) h | None \<Rightarrow> False)"

definition get_blob_bytes :: "sync_store \<Rightarrow> string \<Rightarrow> bytes js" where
  "get_blob_bytes s hash_hex =
     (case parse_hex_hash hash_hex of
        None \<Rightarrow> Inl (JsMsg ''invalid hash hex'')
      | Some h \<Rightarrow> (case mbs_get (st_blobs s) h of None \<Rightarrow> Inl (JsMsg ''blob not found'') | Some data \<Rightarrow> Inr data))"

definition store_blob_bytes :: "env \<Rightarrow> string \<Rightarrow> bytes \<Rightarrow> sync_store \<Rightarrow> unit js \<times> sync_store" where
  "store_blob_bytes e hash_hex data s =
     (case parse_hex_hash hash_hex of
        None \<Rightarrow> (Inl (JsMsg ''invalid hash hex''), s)
      | Some expected \<Rightarrow>
          if blake3 e data \<noteq> expected then (Inl (JsMsg (''blob integrity check failed '' @ [CHR 0xE2, CHR 0x80, CHR 0x94] @ '' hash mismatch'')), s)
          else (Inr (), s\<lparr>st_blobs := snd (mbs_put e data (st_blobs s))\<rparr>))"

definition local_blob_hashes :: "sync_store \<Rightarrow> string list" where
  "local_blob_hashes s = map hash_to_hex (mbs_hashes (st_blobs s))"

definition missing_blob_hashes :: "env \<Rightarrow> sync_store \<Rightarrow> string list" where
  "missing_blob_hashes e s =
     map hash_to_hex (filter (\<lambda>h. \<not> mbs_contains (st_blobs s) h) (set_iter e (referenced_blob_hashes (st_graph s))))"

definition export_blobs :: "sync_store \<Rightarrow> string list \<Rightarrow> (string \<times> string) list" where
  "export_blobs s hex_list =
     List.map_filter (\<lambda>hex. case parse_hex_hash hex of
         None \<Rightarrow> None
       | Some h \<Rightarrow> map_option (\<lambda>data. (hex, base64_encode data)) (mbs_get (st_blobs s) h)) hex_list"

section \<open>Packs and snapshots\<close>

definition decrypt_node_if_needed :: "cipher \<Rightarrow> sync_node \<Rightarrow> hash \<Rightarrow> sync_node res" where
  "decrypt_node_if_needed c node room_key =
     (if \<not> is_encrypted_node (tx_ops (n_tx node)) then Inr node
      else case extract_encrypted_payload (tx_ops (n_tx node)) of
          None \<Rightarrow> Inr node
        | Some payload \<Rightarrow> map_sum id (\<lambda>ops. node\<lparr>n_tx := (n_tx node)\<lparr>tx_ops := ops\<rparr>\<rparr>) (decrypt_ops c room_key payload))"

fun decrypt_nodes :: "cipher \<Rightarrow> hash \<Rightarrow> sync_node list \<Rightarrow> sync_node list res" where
  "decrypt_nodes c key [] = Inr []"
| "decrypt_nodes c key (n # ns) =
     (case decrypt_node_if_needed c n key of
        Inl er \<Rightarrow> Inl er
      | Inr m \<Rightarrow> map_sum id ((#) m) (decrypt_nodes c key ns))"

function import_loop :: "env \<Rightarrow> sync_node list \<Rightarrow> state_graph \<Rightarrow> unit outcome" where
  "import_loop e pending g =
     (if pending = [] then Ret (Inr (), g)
      else case insert_pass e (\<lambda>_ g. g) pending g of
          Panic \<Rightarrow> Panic
        | Ret (Inl er, g1) \<Rightarrow> Ret (Inl er, g1)
        | Ret (Inr still, g1) \<Rightarrow> if length still = length pending then Ret (Inr (), g1) else import_loop e still g1)"
  by pat_completeness auto
termination
  by (relation "measure (\<lambda>(e, pending, g). length pending)") (auto dest!: insert_pass_length)

declare import_loop.simps [simp del]

definition import_pack :: "env \<Rightarrow> cipher \<Rightarrow> string \<Rightarrow> sync_store \<Rightarrow> unit js_outcome" where
  "import_pack e c b64 s =
     (case base64_decode b64 of
        None \<Rightarrow> Ret (Inl (JsMsg ''invalid base64 in pack''), s)
      | Some bs \<Rightarrow>
          (case unpack_nodes e bs of
             Inl er \<Rightarrow> Ret (Inl (JsSync er), s)
           | Inr nodes \<Rightarrow>
               (case (case st_room_key s of Some key \<Rightarrow> decrypt_nodes c key nodes | None \<Rightarrow> Inr nodes) of
                  Inl er \<Rightarrow> Ret (Inl (JsSync er), s)
                | Inr nodes1 \<Rightarrow> on_graph s (import_loop e nodes1 (st_graph s)))))"

definition export_all_nodes :: "env \<Rightarrow> sync_store \<Rightarrow> string" where
  "export_all_nodes e s = base64_encode (pack_nodes e (get_nodes (st_graph s) (mns_all_ids (g_nodes (st_graph s)))))"

definition known_ids :: "string list \<Rightarrow> node_id set" where
  "known_ids known_hex = set (List.map_filter parse_hex_hash known_hex)"

definition export_nodes_missing_from :: "env \<Rightarrow> sync_store \<Rightarrow> string list \<Rightarrow> string" where
  "export_nodes_missing_from e s known_hex =
     base64_encode (pack_nodes e (get_nodes (st_graph s) (missing_hashes (st_graph s) (known_ids known_hex))))"

definition create_snapshot :: "env \<Rightarrow> snap_codec \<Rightarrow> sync_store \<Rightarrow> (string \<times> string) js" where
  "create_snapshot e sc s =
     (case compact e sc (st_graph s) (st_signing_key s) of
        Inl er \<Rightarrow> Inl (JsSync er)
      | Inr snap \<Rightarrow>
          (case verify_snapshot e sc snap of
             Inl er \<Rightarrow> Inl (JsSync er)
           | Inr meta \<Rightarrow> Inr (base64_encode (pack_nodes e [snap]), hash_to_hex (sm_snapshot_hash meta))))"

definition apply_snapshot_pack :: "env \<Rightarrow> snap_codec \<Rightarrow> string \<Rightarrow> sync_store \<Rightarrow> string js_outcome" where
  "apply_snapshot_pack e sc pack_b64 s =
     (case base64_decode pack_b64 of
        None \<Rightarrow> Ret (Inl (JsMsg ''invalid base64 in snapshot pack''), s)
      | Some bs \<Rightarrow>
          (case unpack_snapshot_pack e bs of
             Inl er \<Rightarrow> Ret (Inl (JsSync er), s)
           | Inr (snap, delta) \<Rightarrow>
               (case verify_snapshot e sc snap of
                  Inl er \<Rightarrow> Ret (Inl (JsSync er), s)
                | Inr meta \<Rightarrow>
                    (case rebuild_from_snapshot e sc snap delta of
                       Panic \<Rightarrow> Panic
                     | Ret (Inl er) \<Rightarrow> Ret (Inl (JsSync er), s)
                     | Ret (Inr rebuilt) \<Rightarrow>
                         Ret (Inr (hash_to_hex (sm_snapshot_hash meta)), s\<lparr>st_graph := rebuilt\<rparr>)))))"

end
