(* ===== verification/Client_Reads.thy ===== *)
theory Client_Reads
  imports Client_Store
begin

text \<open>
  What the browser client reads from its store: resolved maps, the conflicts it has not shown yet, text and list views,
  pages of history, and the values it sends in a handshake; and the free functions for room tokens.
\<close>

section \<open>Map views\<close>

definition b64_view :: "(string \<rightharpoonup> bytes) \<Rightarrow> (string \<rightharpoonup> string)" where
  "b64_view m = (\<lambda>k. if k = E2EE_KEY then None else map_option base64_encode (m k))"

definition resolve_json :: "sync_store \<Rightarrow> (string \<rightharpoonup> string)" where
  "resolve_json s = b64_view (graph_resolve (st_graph s))"

definition resolve_json_canonical :: "sync_store \<Rightarrow> (string \<rightharpoonup> string)" where
  "resolve_json_canonical s = b64_view (resolve_canonical (st_graph s))"

record meta_entry =
  mj_value :: "string option"
  mj_lamport :: u64
  mj_author :: string
  mj_blob :: "(string \<times> nat option) option"

definition hex32 :: "hash \<Rightarrow> string" where
  "hex32 h = bytes_to_hex (be_bytes 32 h)"

definition resolve_json_with_meta :: "sync_store \<Rightarrow> (string \<rightharpoonup> meta_entry)" where
  "resolve_json_with_meta s = (\<lambda>key. map_option (\<lambda>(lamport, author, v, is_blob).
     if is_blob \<and> length v = 32 then
       let h = of_be v in
       (case mbs_get (st_blobs s) h of
          Some data \<Rightarrow> \<lparr>mj_value = Some (base64_encode data), mj_lamport = lamport, mj_author = hex32 author,
            mj_blob = Some (hash_to_hex h, Some (length data))\<rparr>
        | None \<Rightarrow> \<lparr>mj_value = None, mj_lamport = lamport, mj_author = hex32 author, mj_blob = Some (hash_to_hex h, None)\<rparr>)
     else \<lparr>mj_value = Some (base64_encode v), mj_lamport = lamport, mj_author = hex32 author, mj_blob = None\<rparr>)
     (resolve_with_meta (st_graph s) key))"

definition store_read_speculative :: "sync_store \<Rightarrow> string \<Rightarrow> string" where
  "store_read_speculative s key =
     (if key = E2EE_KEY then [] else case read_speculative (st_graph s) key of Some v \<Rightarrow> base64_encode v | None \<Rightarrow> [])"

definition store_read_canonical :: "sync_store \<Rightarrow> string \<Rightarrow> string" where
  "store_read_canonical s key =
     (if key = E2EE_KEY then [] else case read_canonical (st_graph s) key of Some v \<Rightarrow> base64_encode v | None \<Rightarrow> [])"

definition resolved_state_hash_hex :: "env \<Rightarrow> sync_store \<Rightarrow> string" where
  "resolved_state_hash_hex e s =
     hash_to_hex (canonical_hash e (btree_of ((graph_resolve (st_graph s))(E2EE_KEY := None))))"

definition replay_nodes_json :: "env \<Rightarrow> sync_store \<Rightarrow> string \<Rightarrow> ((string \<times> string) list \<times> string) js rust" where
  "replay_nodes_json e s b64 =
     (case base64_decode b64 of
        None \<Rightarrow> Ret (Inl (JsMsg ''invalid base64 in pack''))
      | Some bs \<Rightarrow>
          (case unpack_nodes e bs of
             Inl er \<Rightarrow> Ret (Inl (JsSync er))
           | Inr nodes \<Rightarrow>
               map_rust (map_sum JsSync (\<lambda>st. (map (\<lambda>(k, v). (k, base64_encode v)) (rs_map st), hash_to_hex (rs_hash st))))
                 (replay e nodes (Some (g_policy (st_graph s))))))"

section \<open>Conflicts\<close>

fun evict_seen :: "conflict_fingerprint set \<Rightarrow> conflict_fingerprint list \<Rightarrow> conflict_fingerprint set \<times> conflict_fingerprint list" where
  "evict_seen seen [] = (seen, [])"
| "evict_seen seen (old # order) =
     (if CONFLICT_SEEN_MAX < length (old # order) then evict_seen (seen - {old}) order else (seen, old # order))"

fun take_fresh ::
  "conflict_event list \<Rightarrow> conflict_fingerprint set \<Rightarrow> conflict_fingerprint list
     \<Rightarrow> conflict_event list \<times> conflict_fingerprint set \<times> conflict_fingerprint list" where
  "take_fresh [] seen order = ([], seen, order)"
| "take_fresh (c # cs) seen order =
     (let fp = fingerprint c in
      if fp \<in> seen then take_fresh cs seen order
      else let (seen1, order1) = evict_seen (insert fp seen) (order @ [fp]);
               (fresh, seen2, order2) = take_fresh cs seen1 order1
           in (c # fresh, seen2, order2))"

definition take_conflicts :: "sync_store \<Rightarrow> conflict_event list \<times> sync_store" where
  "take_conflicts s =
     (let (conflicts, g) = drain_pending_conflicts (set_conflict_stream_enabled True (st_graph s));
          (fresh, seen, order) = take_fresh conflicts (st_conflicts_seen s) (st_conflicts_seen_order s)
      in (fresh, s\<lparr>st_graph := g, st_conflicts_seen := seen, st_conflicts_seen_order := order\<rparr>))"

section \<open>Text and lists\<close>

definition store_resolve_text :: "string \<Rightarrow> sync_store \<Rightarrow> (scalar list \<times> sync_store) rust" where
  "store_resolve_text key s = map_rust (\<lambda>(t, g). (t, s\<lparr>st_graph := g\<rparr>)) (graph_resolve_text key (st_graph s))"

definition text_seq_to_json :: "(op_id \<times> scalar) list \<Rightarrow> (u64 \<times> string \<times> scalar) list" where
  "text_seq_to_json seq = map (\<lambda>(i, ch). case i of OpId lamport author \<Rightarrow> (lamport, hex32 author, ch)) seq"

definition resolve_text_seq_json :: "string \<Rightarrow> sync_store \<Rightarrow> ((u64 \<times> string \<times> scalar) list \<times> sync_store) rust" where
  "resolve_text_seq_json key s =
     map_rust (\<lambda>(t, g). (text_seq_to_json t, s\<lparr>st_graph := g\<rparr>)) (graph_resolve_text_seq key (st_graph s))"

definition resolve_text_seq_at_lamport_json :: "sync_store \<Rightarrow> string \<Rightarrow> u64 \<Rightarrow> (u64 \<times> string \<times> scalar) list rust" where
  "resolve_text_seq_at_lamport_json s key max_lamport =
     map_rust text_seq_to_json (resolve_text_seq_at_lamport (st_graph s) key max_lamport)"

definition store_resolve_text_at_lamport :: "sync_store \<Rightarrow> string \<Rightarrow> u64 \<Rightarrow> scalar list rust" where
  "store_resolve_text_at_lamport s key max_lamport = resolve_text_at_lamport (st_graph s) key max_lamport"

definition list_resolve :: "sync_store \<Rightarrow> string \<Rightarrow> (string \<times> string) list" where
  "list_resolve s key = map (\<lambda>(i, pos). (item_id_to_hex i, pos)) (resolve_list (st_graph s) key)"

definition list_length :: "sync_store \<Rightarrow> string \<Rightarrow> u32" where
  "list_length s key = word_of_nat (length (resolve_list (st_graph s) key))"

definition list_ids :: "sync_store \<Rightarrow> string \<Rightarrow> string list" where
  "list_ids s key = map (\<lambda>(i, _). item_id_to_hex i) (resolve_list (st_graph s) key)"

section \<open>Pages of history\<close>

text \<open>\<open>str::trim\<close>: the code points with the property \<open>White_Space\<close>, as their UTF-8 bytes.\<close>

definition white_space :: "string list" where
  "white_space = map (\<lambda>b. [char_of b]) [9, 10, 11, 12, 13, 32 :: nat] @ [[CHR 0xC2, CHR 0x85], [CHR 0xC2, CHR 0xA0],
     [CHR 0xE1, CHR 0x9A, CHR 0x80], [CHR 0xE2, CHR 0x80, CHR 0xA8], [CHR 0xE2, CHR 0x80, CHR 0xA9], [CHR 0xE2, CHR 0x80, CHR 0xAF],
     [CHR 0xE2, CHR 0x81, CHR 0x9F], [CHR 0xE3, CHR 0x80, CHR 0x80]] @ map (\<lambda>b. [CHR 0xE2, CHR 0x80, char_of b]) [128..<139 :: nat]"

fun trim_start :: "nat \<Rightarrow> string list \<Rightarrow> string \<Rightarrow> string" where
  "trim_start 0 ws s = s"
| "trim_start (Suc n) ws s =
     (case find (\<lambda>w. take (length w) s = w) ws of Some w \<Rightarrow> trim_start n ws (drop (length w) s) | None \<Rightarrow> s)"

definition trim :: "string \<Rightarrow> string" where
  "trim s = (let t = trim_start (length s) white_space s in rev (trim_start (length t) (map rev white_space) (rev t)))"

text \<open>\<open>str::parse::<usize>\<close> at the width of a \<open>usize\<close>.\<close>

definition is_digit :: "char \<Rightarrow> bool" where
  "is_digit c \<longleftrightarrow> 48 \<le> (of_char c :: nat) \<and> (of_char c :: nat) \<le> 57"

definition parse_usize :: "nat \<Rightarrow> string \<Rightarrow> nat option" where
  "parse_usize width s =
     (let ds = (case s of c # rest \<Rightarrow> if c = CHR ''+'' then rest else s | [] \<Rightarrow> []);
          n = foldl (\<lambda>a c. a * 10 + (of_char c - 48)) 0 ds
      in if ds = [] \<or> \<not> list_all is_digit ds \<or> 2 ^ width \<le> n then None else Some n)"

definition replay_read_range_offset :: "nat \<Rightarrow> string \<Rightarrow> nat" where
  "replay_read_range_offset width page_token =
     (let token = trim page_token in
      if token = [] then 0
      else if take 7 token \<noteq> ''offset:'' then 0
      else case parse_usize width (drop 7 token) of Some n \<Rightarrow> n | None \<Rightarrow> 0)"

text \<open>A page of sorted events; the cursor is the offset of the next page.\<close>

definition page_of :: "nat \<Rightarrow> nat \<Rightarrow> nat \<Rightarrow> 'a list \<Rightarrow> 'a list \<times> nat option" where
  "page_of width offset limit events =
     (let en = min (min (offset + limit) (2 ^ width - 1)) (length events) in
      (if offset < length events then take (en - offset) (drop offset events) else [],
       if en < length events then Some en else None))"

definition read_replay_range_local ::
  "nat \<Rightarrow> sync_store \<Rightarrow> string \<Rightarrow> u64 \<Rightarrow> u32 \<Rightarrow> string \<Rightarrow> (string \<times> u64 \<times> (u64 \<times> string \<times> string list) list \<times> nat option) js" where
  "read_replay_range_local width s key_prefix from_lamport limit cursor =
     (let kpre = trim key_prefix in
      if kpre = [] then Inl (JsMsg ''key_prefix is required'')
      else
        let events = List.map_filter (\<lambda>node.
              let touched = filter (\<lambda>key. take (length kpre) key = kpre) (List.map_filter op_key (tx_ops (n_tx node))) in
              if touched = [] then None else Some (tx_lamport (n_tx node), hash_to_hex (n_id node), touched))
              (filter (\<lambda>node. from_lamport \<le> tx_lamport (n_tx node)) (all_nodes (st_graph s)));
            (page, next_cursor) = page_of width (replay_read_range_offset width cursor) (unat (max limit 1))
              (sort_key (\<lambda>(l, i, _). (l, i)) events)
        in Inr (kpre, from_lamport, page, next_cursor))"

record history_item =
  hi_lamport :: u64
  hi_wall_ms :: u64
  hi_author :: string
  hi_node_id :: string
  hi_op :: string
  hi_key :: string
  hi_value_b64 :: "string option"

fun history_op :: "op \<Rightarrow> (string \<times> string \<times> string option) option" where
  "history_op (OpMap (MapSet key v)) = Some (''set'', key, Some (base64_encode v))"
| "history_op (OpMap (MapDelete key)) = Some (''delete'', key, None)"
| "history_op _ = None"

definition node_history :: "string \<Rightarrow> sync_node \<Rightarrow> history_item list" where
  "node_history kpre node =
     map (\<lambda>(kind, key, v). \<lparr>hi_lamport = tx_lamport (n_tx node), hi_wall_ms = tx_wall_ms (n_tx node), hi_author = hex32 (tx_author (n_tx node)),
         hi_node_id = hash_to_hex (n_id node), hi_op = kind, hi_key = key, hi_value_b64 = v\<rparr>)
       (filter (\<lambda>(_, key, _). take (length kpre) key = kpre) (List.map_filter history_op (tx_ops (n_tx node))))"

definition map_history :: "nat \<Rightarrow> sync_store \<Rightarrow> string \<Rightarrow> u64 \<Rightarrow> u32 \<Rightarrow> string \<Rightarrow> (string \<times> u64 \<times> history_item list \<times> nat option) js" where
  "map_history width s key_prefix from_lamport limit cursor =
     (let kpre = trim key_prefix in
      if kpre = [] then Inl (JsMsg ''key_prefix is required'')
      else
        let events = concat (map (node_history kpre) (filter (\<lambda>node. from_lamport \<le> tx_lamport (n_tx node)) (all_nodes (st_graph s))));
            (page, next_cursor) = page_of width (replay_read_range_offset width cursor) (unat (max limit 1))
              (sort_key (\<lambda>i. (hi_lamport i, hi_node_id i)) events)
        in Inr (kpre, from_lamport, page, next_cursor))"

section \<open>Handshake values\<close>

definition merkle_root_hex :: "env \<Rightarrow> sync_store \<Rightarrow> string" where
  "merkle_root_hex e s = hash_to_hex (merkle_root e (st_graph s))"

definition store_node_count :: "sync_store \<Rightarrow> u32" where
  "store_node_count s = word_of_nat (node_count (st_graph s))"

definition all_node_ids_hex :: "sync_store \<Rightarrow> string list" where
  "all_node_ids_hex s = map hash_to_hex (mns_all_ids (g_nodes (st_graph s)))"

definition frontier_hex :: "sync_store \<Rightarrow> string list" where
  "frontier_hex s = to_hex_vec (g_frontier (st_graph s))"

definition compute_ibf :: "ibf_hash \<Rightarrow> (ibf \<Rightarrow> bytes) \<Rightarrow> sync_store \<Rightarrow> string rust" where
  "compute_ibf h postcard_ibf s =
     map_rust (\<lambda>b. base64_encode (postcard_ibf b)) (ibf_from_ids h (mns_all_ids (g_nodes (st_graph s))))"

definition diff_with_ibf ::
  "ibf_hash \<Rightarrow> (bytes \<Rightarrow> string + ibf) \<Rightarrow> sync_store \<Rightarrow> string \<Rightarrow> (string list \<times> string list) js rust" where
  "diff_with_ibf h unpostcard_ibf s their_ibf_b64 =
     (case base64_decode their_ibf_b64 of
        None \<Rightarrow> Ret (Inl (JsMsg ''invalid base64 in IBF''))
      | Some bs \<Rightarrow>
          (case unpostcard_ibf bs of
             Inl msg \<Rightarrow> Ret (Inl (JsMsg msg))
           | Inr their_ibf \<Rightarrow>
               rbind (ibf_from_ids h (mns_all_ids (g_nodes (st_graph s)))) (\<lambda>my_ibf.
                 map_rust (\<lambda>r. case r of
                     Some (only_mine, only_theirs) \<Rightarrow> Inr (map hash_to_hex only_mine, map hash_to_hex only_theirs)
                   | None \<Rightarrow> Inl (JsMsg ''ibf-overflow''))
                   (ibf_decode h (ibf_subtract my_ibf their_ibf)))))"

definition mst_root_hex :: "keyed_hash \<Rightarrow> sync_store \<Rightarrow> string" where
  "mst_root_hex kh s = root_hash_hex (mst_from_ids kh (mns_all_ids (g_nodes (st_graph s))))"

definition mst_get_node :: "keyed_hash \<Rightarrow> sync_store \<Rightarrow> string \<Rightarrow> mst_node_wire option" where
  "mst_get_node kh s path_hex = get_node_wire (mst_from_ids kh (mns_all_ids (g_nodes (st_graph s)))) path_hex"

section \<open>Room tokens\<close>

definition room_pubkey_hex :: "env \<Rightarrow> bytes \<Rightarrow> string js" where
  "room_pubkey_hex e room_seed =
     (if length room_seed \<noteq> 32 then Inl (JsMsg ''room_seed must be 32 bytes'')
      else Inr (bytes_to_hex (be_bytes 32 (ed_public e (of_be room_seed)))))"

definition sign_room_token :: "env \<Rightarrow> string \<Rightarrow> string \<Rightarrow> u64 \<Rightarrow> bytes \<Rightarrow> string list \<Rightarrow> (string \<times> u64 \<times> string list \<times> string) js" where
  "sign_room_token e room_id peer_hex expiry_secs room_seed caps =
     (if length room_seed \<noteq> 32 then Inl (JsMsg ''room_seed must be 32 bytes'')
      else case hex_to_array_32 peer_hex of
          None \<Rightarrow> Inl (JsMsg ''invalid peer_pubkey_hex'')
        | Some peer \<Rightarrow>
            let token = token_sign e room_id peer expiry_secs caps (of_be room_seed) in
            Inr (peer_pubkey_hex token, rt_expiry_secs token, rt_capabilities token, sig_hex token))"

definition derive_e2ee_key :: "cipher \<Rightarrow> bytes \<Rightarrow> bytes js" where
  "derive_e2ee_key c room_seed =
     (if length room_seed \<noteq> 32 then Inl (JsMsg ''room_seed must be 32 bytes'')
      else Inr (be_bytes 32 (derive_room_key c (of_be room_seed))))"

end
