(* ===== verification/Client_Props.thy ===== *)
theory Client_Props
  imports Client_Reads
begin

text \<open>
  Properties of the browser client: what encryption does to a session, and that two stores which exchange
  their nodes show the same state.
\<close>

section \<open>Local commits\<close>

lemma replay_map_snoc:
  assumes "\<forall>m. OpMap m \<in> set (tx_ops (n_tx n)) \<longrightarrow> map_op_key m \<noteq> key"
  shows "replay_map (ns @ [n]) key = replay_map ns key"
proof -
  have "op_write (n_tx n) key op = None" if "op \<in> set (tx_ops (n_tx n))" for op
    using assms that by (cases op) auto
  then have "node_writes key n = []" by (simp add: node_writes_def List.map_filter_def filter_empty_conv)
  then show ?thesis by (simp add: replay_map_entries)
qed

lemma ignoring_ok: "ignoring r = Ret (Inr (), s') \<longleftrightarrow> (\<exists>x. r = Ret (Inr x, s'))"
  by (cases r) (auto simp: ignoring_def map_sum_def split: sum.splits)

lemma on_graph_ok: "on_graph s r = Ret (Inr x, s') \<longleftrightarrow> (\<exists>g. r = Ret (Inr x, g) \<and> s' = s\<lparr>st_graph := g\<rparr>)"
  by (cases r) (auto simp: on_graph_def map_sum_def split: sum.splits)

lemma commit_ok:
  assumes "commit_ops_immediate e c ops wall s = Ret (Inr i, s')"
  obtains fops g where "final_ops e c s ops = Inr fops" "apply_local e (st_signing_key s) wall fops (st_graph s) = Ret (Inr i, g)"
    "s' = s\<lparr>st_graph := g\<rparr>"
  using assms by (auto simp: commit_ops_immediate_def on_graph_ok split: sum.splits)

section \<open>Sample store\<close>

definition sample_store :: sync_store where
  "sample_store = \<lparr>st_graph = graph_new, st_signing_key = 5, st_blobs = mbs_new, st_room_key = Some 9, st_tick_config = None,
     st_pending_tick_ops = [], st_conflicts_seen = {}, st_conflicts_seen_order = []\<rparr>"

lemma sample_store_commits:
  assumes "\<forall>op \<in> set ops. \<exists>m. op = OpMap m"
  shows "\<exists>i h. apply_local sample_env 5 0 ops graph_new = Ret (Inr i, h)"
proof -
  let ?n = "local_node sample_env 5 0 ops graph_new"
  have "op_text_key op = None" if "op \<in> set ops" for op using assms that by (auto simp: op_text_key_def)
  then have "node_text_keys ?n = {}" by (simp add: node_text_keys_def List.map_filter_def filter_empty_conv)
  from update_projection_text_free [OF this sample_set_ok(4)] show ?thesis
    by (simp add: apply_local_spec Let_def graph_new_def graph_with_store_def mns_new_def mns_contains_def admitted_def)
qed

lemma sample_encrypts: "\<exists>p. wrap_encrypted_ops sample_cipher 9 a l [OpMap (MapSet ''k'' [7])] = Inr [OpMap (MapSet E2EE_KEY p)]"
  by (simp add: wrap_encrypted_ops_def encrypt_ops_def sample_cipher_def Let_def)

section \<open>Encrypted sessions\<close>

text \<open>C36: with a room key a client does not see its own writes: a \<open>set\<close> that succeeds adds one node with the encrypted
  operation and leaves every key of the resolved map as it was, the written one included.\<close>

theorem encrypted_write_invisible:
  assumes "env_ok e" "graph_reach e (st_graph s)" "st_room_key s = Some k" "st_tick_config s = None"
    and "store_set e c now key v s = Ret (Inr (), s')"
  shows "resolve_json s' = resolve_json s
    \<and> (\<exists>n. all_nodes (st_graph s') = all_nodes (st_graph s) @ [n] \<and> is_encrypted_node (tx_ops (n_tx n)))"
proof -
  have ok: "graph_ok e (st_graph s)" by (rule graph_reach_ok [OF assms(1,2)])
  from assms(4,5) obtain i where "commit_ops_immediate e c [OpMap (MapSet key v)] now s = Ret (Inr i, s')"
    by (auto simp: store_set_def apply_local_ops_def ignoring_ok)
  then obtain fops g where f: "final_ops e c s [OpMap (MapSet key v)] = Inr fops" "s' = s\<lparr>st_graph := g\<rparr>"
    "apply_local e (st_signing_key s) now fops (st_graph s) = Ret (Inr i, g)" by (rule commit_ok)
  let ?n = "local_node e (st_signing_key s) now fops (st_graph s)"
  obtain p where p: "fops = [OpMap (MapSet E2EE_KEY p)]"
    using f(1) assms(3) wrapped_is_encrypted by (fastforce simp: final_ops_def)
  note acc = local_accepted [OF ok f(3)]
  have ok': "graph_ok e g" using graph_ok_local [OF _ _ ok f(3)] assms(1) by (simp add: env_ok_def)
  have "graph_resolve g key' = graph_resolve (st_graph s) key'" if "key' \<noteq> E2EE_KEY" for key'
    unfolding graph_ok_views(1) [OF ok] graph_ok_views(1) [OF ok'] acc(1) by (rule replay_map_snoc) (use that p in auto)
  then have "resolve_json s' = resolve_json s" by (auto simp: resolve_json_def b64_view_def f(2))
  moreover have "is_encrypted_node (tx_ops (n_tx ?n))" by (simp add: p)
  ultimately show ?thesis using acc(1) f(2) by auto
qed

theorem encrypted_write_invisible_witness:
  "\<exists>s'. store_set sample_env sample_cipher 0 ''k'' [7] sample_store = Ret (Inr (), s') \<and> resolve_json s' ''k'' = None"
proof -
  obtain p where p: "final_ops sample_env sample_cipher sample_store [OpMap (MapSet ''k'' [7])] = Inr [OpMap (MapSet E2EE_KEY p)]"
    using sample_encrypts by (auto simp: final_ops_def sample_store_def)
  from sample_store_commits [of "[OpMap (MapSet E2EE_KEY p)]"] obtain i h where
    "apply_local sample_env 5 0 [OpMap (MapSet E2EE_KEY p)] graph_new = Ret (Inr i, h)" by auto
  then obtain s' where s: "store_set sample_env sample_cipher 0 ''k'' [7] sample_store = Ret (Inr (), s')"
    using p by (auto simp: store_set_def apply_local_ops_def commit_ops_immediate_def sample_store_def on_graph_def ignoring_def)
  have r: "graph_reach sample_env (st_graph sample_store)" by (simp add: sample_store_def reach_new)
  have "resolve_json sample_store ''k'' = None"
    by (simp add: resolve_json_def b64_view_def sample_store_def graph_resolve_def winner_values_def graph_new_def graph_with_store_def
        state_caches_default_def)
  with encrypted_write_invisible [OF env_ok_sample r _ _ s] s show ?thesis by (simp add: sample_store_def)
qed

lemma insert_pass_hashes:
  assumes "insert_pass e prepare pending g = Ret (Inr still, g1)"
  shows "\<forall>n \<in> set pending. tx_hash e (n_tx n) = n_id n"
  using assms
proof (induction pending arbitrary: g still)
  case (Cons n rest)
  have h: "tx_hash e (n_tx n) = n_id n" if "apply_remote e n h = Ret (r, g2)" "\<forall>er. verdict r \<noteq> Fail er" for r h g2
    using remote_passed(1) [of e n None h r g2] that by (simp add: apply_remote_def precheck_Inr)
  from Cons.prems show ?case by (cases rule: insert_pass_ConsE) (use h Cons.IH in fastforce)+
qed simp

lemma import_hashes:
  assumes "import_loop e pending g = Ret (Inr (), g1)"
  shows "\<forall>n \<in> set pending. tx_hash e (n_tx n) = n_id n"
proof (cases "pending = []")
  case False
  then obtain still g2 where "insert_pass e (\<lambda>_ g. g) pending g = Ret (Inr still, g2)"
    using assms by (auto simp: import_loop.simps [of e pending] split: rust.splits prod.splits sum.splits)
  then show ?thesis by (rule insert_pass_hashes)
qed simp

lemma decrypted_node: "decrypt_node_if_needed c n key = Inr m \<Longrightarrow> n_id m = n_id n"
  by (auto simp: decrypt_node_if_needed_def map_sum_def split: if_splits option.splits sum.splits)

lemma decrypt_nodes_mem:
  "decrypt_nodes c key nodes = Inr ms \<Longrightarrow> n \<in> set nodes \<Longrightarrow> \<exists>m \<in> set ms. decrypt_node_if_needed c n key = Inr m"
  by (induction nodes arbitrary: ms) (auto simp: map_sum_def split: sum.splits)

text \<open>C37: a client with a room key cannot import encrypted nodes: a pack that holds an encrypted node is never imported
  successfully, because the node is decrypted before its identity, the hash of the encrypted transaction, is
  checked. The hypothesis excludes a hash collision between the two forms.\<close>

theorem encrypted_import_fails:
  assumes "st_room_key s = Some key" "base64_decode b64 = Some bs" "unpack_nodes e bs = Inr nodes"
    and "n \<in> set nodes" "is_encrypted_node (tx_ops (n_tx n))"
    and "\<forall>m. decrypt_node_if_needed c n key = Inr m \<longrightarrow> tx_hash e (n_tx m) \<noteq> n_id n"
    and "import_pack e c b64 s = Ret (r, s')"
  shows "r \<noteq> Inr ()"
proof
  assume "r = Inr ()"
  then obtain ms g where m: "decrypt_nodes c key nodes = Inr ms" "import_loop e ms (st_graph s) = Ret (Inr (), g)"
    using assms(1-3,7) by (auto simp: import_pack_def on_graph_ok split: sum.splits)
  from decrypt_nodes_mem [OF m(1) assms(4)] obtain m where d: "m \<in> set ms" "decrypt_node_if_needed c n key = Inr m" by blast
  with import_hashes [OF m(2)] have "tx_hash e (n_tx m) = n_id n" using decrypted_node by auto
  with assms(6) d(2) show False by blast
qed

text \<open>
  A sample pack: the transaction is coded by the number of its operations and its lamport clock, so that the
  encrypted and the plain form have different hashes.
\<close>

definition sample_cipher_node :: sync_node where
  "sample_cipher_node = \<lparr>n_id = 11, n_tx = \<lparr>tx_author = 5, tx_lamport = 1, tx_wall_ms = 0,
     tx_ops = [OpMap (MapSet E2EE_KEY (replicate 12 0 @ [1]))], tx_parents = []\<rparr>, n_sig = 0\<rparr>"

definition sample_pack_env :: env where
  "sample_pack_env = sample_env\<lparr>unpostcard_nodes := (\<lambda>_. Inr [wire_from_node sample_cipher_node]),
     blake3 := (\<lambda>_. 0), postcard_tx := (\<lambda>tx. case tx_ops tx of [OpMap (MapSet key v)] \<Rightarrow> map of_char key | _ \<Rightarrow> [])\<rparr>"

theorem encrypted_import_fails_witness:
  "\<exists>er s'. import_pack sample_pack_env sample_cipher [] sample_store = Ret (Inl er, s')"
proof -
  have n: "unpack_nodes sample_pack_env [] = Inr [sample_cipher_node]"
    by (simp add: unpack_nodes_def sample_pack_env_def node_from_wire_from_node)
  have h: "tx_hash sample_pack_env tx \<noteq> 11" for tx by (simp add: tx_hash_def sample_pack_env_def)
  have e: "is_encrypted_node (tx_ops (n_tx sample_cipher_node))" "n_id sample_cipher_node = 11" by (simp_all add: sample_cipher_node_def)
  have "import_pack sample_pack_env sample_cipher [] sample_store \<noteq> Panic"
    using h by (auto simp: import_pack_def n sample_store_def decrypt_node_if_needed_def sample_cipher_node_def decrypt_ops_def
        sample_cipher_def import_loop.simps on_graph_def apply_remote_def apply_remote_checked_def precheck_def split: sum.splits)
  then obtain r s' where r: "import_pack sample_pack_env sample_cipher [] sample_store = Ret (r, s')"
    by (cases "import_pack sample_pack_env sample_cipher [] sample_store") auto
  have "r \<noteq> Inr ()"
    by (rule encrypted_import_fails [OF _ _ n _ e(1) _ r]) (simp_all add: sample_store_def e(2) h)
  with r show ?thesis by (cases r) auto
qed

text \<open>Text is never encrypted: inserting text into a store with a room key adds a node that carries the
  text as it is.\<close>

theorem text_insert_unencrypted:
  assumes "env_ok e" "graph_reach e (st_graph s)" "st_room_key s = Some k" "txt \<noteq> []"
    and "insert_anchored e now key anchor txt s = Ret (Inr (), s')"
  shows "\<exists>n a. all_nodes (st_graph s') = all_nodes (st_graph s) @ [n] \<and> tx_ops (n_tx n) = [OpText (TextInsertRange key a txt)]"
proof -
  let ?rop = "RangeInsert key anchor txt"
  obtain ids g where "apply_local_text_range_op e (st_signing_key s) now ?rop (st_graph s) = Ret (Inr ids, g)" "s' = s\<lparr>st_graph := g\<rparr>"
    using assms(4,5) by (auto simp: insert_anchored_def commit_text_range_op_def ignoring_ok on_graph_ok)
  then obtain a g1 r where a: "canonical_anchor key anchor (st_graph s) = Ret (a, g1)"
    "apply_local e (st_signing_key s) now [OpText (TextInsertRange key a txt)] g1 = Ret (r, g)" "s' = s\<lparr>st_graph := g\<rparr>"
    and r: "(case r of Inl er \<Rightarrow> Inl er | Inr i \<Rightarrow> Inr [i]) = Inr ids"
    by (auto simp: apply_local_text_range_op_def)
  from r obtain i where i: "r = Inr i" by (cases r) auto
  note d = dag_canonical_anchor [OF a(1)]
  have "graph_ok e g1" by (rule graph_ok_dag [OF graph_reach_ok [OF assms(1,2)] d])
  from local_accepted(1) [OF this a(2) [unfolded i]] dag_all_nodes [OF d] a(3) show ?thesis by auto
qed

lemma update_projection_range_insert:
  assumes "tx_ops (n_tx n) = [OpText (TextInsertRange key a chs)]" "length chs \<le> MAX_ITEMS"
    and "g_text_projections g = []" "g_text_projection_mode g = Enabled"
  shows "\<exists>h. update_text_projection_from_node e n g = Ret h"
proof -
  obtain q where "apply_text_op (n_tx n) key (OpText (TextInsertRange key a chs)) tp_default = Ret q"
    using apply_text_op_ok [OF tp_default_ok(1), of key "OpText (TextInsertRange key a chs)"] assms(2) tp_default_ok(2) by auto
  with assms show ?thesis
    by (simp add: update_text_projection_from_node_def project_op_def op_text_key_def apply_node_def projection_entry_def
        projection_at_def put_projection_def Let_def)
qed

lemma sample_text_commits:
  "\<exists>i h. apply_local sample_env 5 0 [OpText (TextInsertRange ''t'' Start [97])] graph_new = Ret (Inr i, h)"
proof -
  let ?op = "OpText (TextInsertRange ''t'' Start [97])"
  let ?n = "local_node sample_env 5 0 [?op] graph_new"
  have "\<exists>h. update_text_projection_from_node sample_env ?n g = Ret h"
    if "g_text_projections g = []" "g_text_projection_mode g = Enabled" for g
    by (rule update_projection_range_insert [of _ "''t''" Start "[97]"]) (simp_all add: that MAX_ITEMS_def)
  then show ?thesis
    by (fastforce simp: apply_local_spec Let_def graph_new_def graph_with_store_def mns_new_def mns_contains_def admitted_def)
qed

theorem text_insert_unencrypted_witness:
  "\<exists>s' n a. insert_anchored sample_env 0 ''t'' Start [97] sample_store = Ret (Inr (), s')
     \<and> all_nodes (st_graph s') = all_nodes graph_new @ [n] \<and> tx_ops (n_tx n) = [OpText (TextInsertRange ''t'' a [97])]"
proof -
  obtain s' where "insert_anchored sample_env 0 ''t'' Start [97] sample_store = Ret (Inr (), s')"
    using sample_text_commits by (auto simp: insert_anchored_def commit_text_range_op_def ignoring_ok on_graph_ok
        apply_local_text_range_op_def canonical_anchor_def sample_store_def)
  with text_insert_unencrypted [of sample_env sample_store 9 "[97]" 0 "''t''" Start s'] env_ok_sample reach_new show ?thesis
    by (auto simp: sample_store_def)
qed

end
