(* ===== verification/Client_Export.thy ===== *)
theory Client_Export
  imports Client_Props
begin

text \<open>
  The chunked export of \<open>src/clients/bridge-wasm/src/lib.rs\<close>: the nodes a receiver lacks are ordered by Kahn's
  algorithm and packed greedily into chunks of bounded size. Decrementing a degree of zero is a panic.
\<close>

section \<open>Kahn's algorithm\<close>

type_synonym degrees = "(node_id \<times> nat) list"

definition by_id :: "sync_node list \<Rightarrow> node_id \<rightharpoonup> sync_node" where
  "by_id nodes = map_of (rev (map (\<lambda>n. (n_id n, n)) nodes))"

definition kahn_degrees :: "sync_node list \<Rightarrow> degrees" where
  "kahn_degrees nodes =
     fold (\<lambda>n. AList.update (n_id n) (length (filter (\<lambda>p. by_id nodes p \<noteq> None) (tx_parents (n_tx n))))) nodes []"

definition kahn_children :: "sync_node list \<Rightarrow> node_id \<Rightarrow> node_id list" where
  "kahn_children nodes =
     fold (\<lambda>n. fold (\<lambda>p ch. if by_id nodes p \<noteq> None then ch(p := ch p @ [n_id n]) else ch) (tx_parents (n_tx n)))
       nodes (\<lambda>_. [])"

fun kahn_relax :: "node_id list \<Rightarrow> degrees \<Rightarrow> node_id list \<Rightarrow> (degrees \<times> node_id list) rust" where
  "kahn_relax [] ind ready = Ret (ind, ready)"
| "kahn_relax (kid # kids) ind ready =
     (case map_of ind kid of
        None \<Rightarrow> kahn_relax kids ind ready
      | Some 0 \<Rightarrow> Panic
      | Some (Suc d) \<Rightarrow> kahn_relax kids (AList.update kid d ind) (if d = 0 then ready @ [kid] else ready))"

lemma sum_degrees_update: "map_of ind k = Some (Suc d) \<Longrightarrow> sum_list (map snd (AList.update k d ind)) + 1 = sum_list (map snd ind)"
  by (induction ind) (auto split: if_splits)

lemma kahn_relax_measure:
  "kahn_relax kids ind ready = Ret (ind1, ready1) \<Longrightarrow>
   sum_list (map snd ind1) + length ready1 \<le> sum_list (map snd ind) + length ready"
proof (induction kids ind ready rule: kahn_relax.induct)
  case (2 kid kids ind ready)
  then show ?case by (auto split: option.splits nat.splits if_splits dest!: sum_degrees_update)
qed simp

function kahn_loop ::
  "(node_id \<rightharpoonup> sync_node) \<Rightarrow> (node_id \<Rightarrow> node_id list) \<Rightarrow> degrees \<Rightarrow> node_id list \<Rightarrow> sync_node list \<Rightarrow> sync_node list rust" where
  "kahn_loop ids ch ind [] ordered = Ret ordered"
| "kahn_loop ids ch ind (i # ready) ordered =
     (case ids i of
        None \<Rightarrow> Panic
      | Some n \<Rightarrow>
          (case kahn_relax (ch i) ind ready of
             Panic \<Rightarrow> Panic
           | Ret (ind1, ready1) \<Rightarrow> kahn_loop ids ch ind1 ready1 (ordered @ [n])))"
  by pat_completeness auto
termination
  by (relation "measure (\<lambda>(ids, ch, ind, ready, ordered). sum_list (map snd ind) + length ready)")
    (auto dest!: kahn_relax_measure)

definition kahn_order :: "env \<Rightarrow> sync_node list \<Rightarrow> sync_node list rust" where
  "kahn_order e nodes =
     (let ind = kahn_degrees nodes in
      map_rust (\<lambda>ordered.
          if length ordered < length nodes then ordered @ filter (\<lambda>n. n_id n \<notin> n_id ` set ordered) nodes else ordered)
        (kahn_loop (by_id nodes) (kahn_children nodes) ind
          (set_iter e {i \<in> set (map fst ind). map_of ind i = Some 0}) []))"

section \<open>Chunks\<close>

fun greedy_chunks :: "env \<Rightarrow> nat \<Rightarrow> sync_node list \<Rightarrow> sync_node list \<Rightarrow> nat \<Rightarrow> sync_node list list" where
  "greedy_chunks e raw_budget [] current current_raw = (if current = [] then [] else [current])"
| "greedy_chunks e raw_budget (node # ordered) current current_raw =
     (let node_raw = length (pack_nodes e [node]) in
      if current \<noteq> [] \<and> raw_budget < current_raw + node_raw
      then current # greedy_chunks e raw_budget ordered [node] node_raw
      else greedy_chunks e raw_budget ordered (current @ [node]) (current_raw + node_raw))"

definition raw_budget_of :: "u32 \<Rightarrow> nat" where
  "raw_budget_of max_chunk_b64_len = unat (max max_chunk_b64_len 1024) div 4 * 3"

definition export_nodes_missing_from_chunked :: "env \<Rightarrow> sync_store \<Rightarrow> string list \<Rightarrow> u32 \<Rightarrow> string list rust" where
  "export_nodes_missing_from_chunked e s known_hex max_chunk_b64_len =
     map_rust (\<lambda>ordered. map (\<lambda>c. base64_encode (pack_nodes e c)) (greedy_chunks e (raw_budget_of max_chunk_b64_len) ordered [] 0))
       (kahn_order e (get_nodes (st_graph s) (missing_hashes (st_graph s) (known_ids known_hex))))"

section \<open>Correctness of the order\<close>

lemma kahn_relax_counts:
  assumes "\<forall>v \<in> set kids. \<exists>d. map_of ind v = Some d \<and> count_list kids v \<le> d"
  shows "\<exists>ind1 R. kahn_relax kids ind ready = Ret (ind1, ready @ R) \<and> distinct R
    \<and> (\<forall>v. map_of ind1 v = map_option (\<lambda>d. d - count_list kids v) (map_of ind v))
    \<and> set R = {v \<in> set kids. map_of ind v = Some (count_list kids v)}"
  using assms
proof (induction kids arbitrary: ind ready)
  case (Cons kid kids)
  from Cons.prems have "\<exists>d. map_of ind kid = Some d \<and> Suc (count_list kids kid) \<le> d" by simp
  then obtain d where d: "map_of ind kid = Some (Suc d)" "count_list kids kid \<le> d" by (metis Suc_le_D Suc_le_mono)
  let ?ind = "AList.update kid d ind"
  have "\<forall>v \<in> set kids. \<exists>d'. map_of ?ind v = Some d' \<and> count_list kids v \<le> d'"
  proof
    fix v assume v: "v \<in> set kids"
    then obtain d' where "map_of ind v = Some d'" "count_list (kid # kids) v \<le> d'" using Cons.prems by (meson list.set_intros(2))
    then show "\<exists>d'. map_of ?ind v = Some d' \<and> count_list kids v \<le> d'" using d(2) by (cases "v = kid") (simp_all add: update_conv')
  qed
  from Cons.IH [OF this, of "if d = 0 then ready @ [kid] else ready"] obtain ind1 R where
    R: "kahn_relax kids ?ind (if d = 0 then ready @ [kid] else ready) = Ret (ind1, (if d = 0 then ready @ [kid] else ready) @ R)"
      "distinct R" "\<forall>v. map_of ind1 v = map_option (\<lambda>d. d - count_list kids v) (map_of ?ind v)"
      "set R = {v \<in> set kids. map_of ?ind v = Some (count_list kids v)}" by blast
  let ?R = "if d = 0 then kid # R else R"
  have nk: "d = 0 \<Longrightarrow> kid \<notin> set kids" using d(2) by (simp add: count_list_0_iff)
  have "kahn_relax (kid # kids) ind ready = Ret (ind1, ready @ ?R)" using R(1) d(1) by (simp split: if_splits)
  moreover have "distinct ?R" using R(2,4) nk by auto
  moreover have "\<forall>v. map_of ind1 v = map_option (\<lambda>d. d - count_list (kid # kids) v) (map_of ind v)"
    using R(3) d(1) by (auto simp: update_conv')
  moreover have "set ?R = {v \<in> set (kid # kids). map_of ind v = Some (count_list (kid # kids) v)}"
  proof (intro set_eqI)
    fix v
    show "v \<in> set ?R \<longleftrightarrow> v \<in> {v \<in> set (kid # kids). map_of ind v = Some (count_list (kid # kids) v)}"
    proof (cases "v = kid")
      case True
      then show ?thesis using R(4) d nk count_list_0_iff [of kids kid] by (cases "kid \<in> set kids") (simp_all add: update_conv')
    qed (use R(4) in \<open>simp add: update_conv'\<close>)
  qed
  ultimately show ?case by blast
qed (simp add: option.map_ident)

text \<open>How many entries of the parent list of a node are exported and not yet ordered.\<close>

definition undone :: "node_id set \<Rightarrow> node_id set \<Rightarrow> sync_node \<Rightarrow> nat" where
  "undone V D n = length (filter (\<lambda>p. p \<in> V \<and> p \<notin> D) (tx_parents (n_tx n)))"

lemma undone_insert: "i \<in> V \<Longrightarrow> i \<notin> D \<Longrightarrow> undone V D n = undone V (insert i D) n + count_list (tx_parents (n_tx n)) i"
proof -
  assume a: "i \<in> V" "i \<notin> D"
  have "length (filter (\<lambda>p. p \<in> V \<and> p \<notin> D) ps) = length (filter (\<lambda>p. p \<in> V \<and> p \<notin> insert i D) ps) + count_list ps i" for ps
    using a by (induction ps) auto
  then show ?thesis by (simp add: undone_def)
qed

lemma undone_zero: "undone V D n = 0 \<longleftrightarrow> set (tx_parents (n_tx n)) \<inter> V \<subseteq> D"
  by (auto simp: undone_def filter_empty_conv)

lemma by_id_iff:
  assumes "distinct (map n_id nodes)"
  shows "by_id nodes i = Some n \<longleftrightarrow> n \<in> set nodes \<and> n_id n = i"
proof -
  have "map fst (rev (map (\<lambda>n. (n_id n, n)) nodes)) = rev (map n_id nodes)" by (simp add: rev_map comp_def)
  with assms have "distinct (map fst (rev (map (\<lambda>n. (n_id n, n)) nodes)))" by (simp only: distinct_rev)
  then show ?thesis by (auto simp: by_id_def map_of_eq_Some_iff)
qed

lemma by_id_none: "by_id nodes i = None \<longleftrightarrow> i \<notin> n_id ` set nodes"
  by (auto simp: by_id_def map_of_eq_None_iff image_image)

lemma fold_update_lookup:
  "k \<notin> key ` set xs \<Longrightarrow> map_of (fold (\<lambda>x. AList.update (key x) (f x)) xs al) k = map_of al k"
  "distinct (map key xs) \<Longrightarrow> x \<in> set xs \<Longrightarrow> map_of (fold (\<lambda>x. AList.update (key x) (f x)) xs al) (key x) = Some (f x)"
  "set (map fst (fold (\<lambda>x. AList.update (key x) (f x)) xs al)) = key ` set xs \<union> set (map fst al)"
proof -
  show skip: "k \<notin> key ` set xs \<Longrightarrow> map_of (fold (\<lambda>x. AList.update (key x) (f x)) xs al) k = map_of al k" for k xs al
    by (induction xs arbitrary: al) (auto simp: update_conv')
  show "distinct (map key xs) \<Longrightarrow> x \<in> set xs \<Longrightarrow> map_of (fold (\<lambda>x. AList.update (key x) (f x)) xs al) (key x) = Some (f x)"
    by (induction xs arbitrary: al) (auto simp: skip update_conv')
  show "set (map fst (fold (\<lambda>x. AList.update (key x) (f x)) xs al)) = key ` set xs \<union> set (map fst al)"
    by (induction xs arbitrary: al) (auto simp: dom_update)
qed

lemma kahn_degrees_lookup:
  assumes "distinct (map n_id nodes)"
  shows "n \<in> set nodes \<Longrightarrow> map_of (kahn_degrees nodes) (n_id n) = Some (undone (n_id ` set nodes) {} n)"
    and "set (map fst (kahn_degrees nodes)) = n_id ` set nodes"
proof -
  have f: "length (filter (\<lambda>p. by_id nodes p \<noteq> None) (tx_parents (n_tx n))) = undone (n_id ` set nodes) {} n" for n
    unfolding undone_def by (simp only: by_id_none) simp
  show "n \<in> set nodes \<Longrightarrow> map_of (kahn_degrees nodes) (n_id n) = Some (undone (n_id ` set nodes) {} n)"
    unfolding kahn_degrees_def f by (rule fold_update_lookup(2) [OF assms])
  show "set (map fst (kahn_degrees nodes)) = n_id ` set nodes"
    unfolding kahn_degrees_def by (simp only: fold_update_lookup(3)) simp
qed

lemma kahn_children_fold:
  "fold (\<lambda>p ch. if P p then ch(p := ch p @ [v]) else ch) ps ch i = ch i @ (if P i then replicate (count_list ps i) v else [])"
  by (induction ps arbitrary: ch) (auto simp: replicate_append_same)

lemma count_replicate: "count_list (replicate k v) w = (if v = w then k else 0)"
  by (induction k) auto

lemma kahn_children_count:
  assumes "distinct (map n_id nodes)" "i \<in> n_id ` set nodes"
  shows "n \<in> set nodes \<Longrightarrow> count_list (kahn_children nodes i) (n_id n) = count_list (tx_parents (n_tx n)) i"
    and "set (kahn_children nodes i) \<subseteq> n_id ` set nodes"
proof -
  define P where "P p \<longleftrightarrow> by_id nodes p \<noteq> None" for p
  let ?step = "\<lambda>n. fold (\<lambda>p ch. if P p then ch(p := ch p @ [n_id n]) else ch) (tx_parents (n_tx n))"
  have ch: "kahn_children nodes = fold ?step nodes (\<lambda>_. [])" unfolding kahn_children_def P_def ..
  have i: "P i" using assms(2) by (simp add: P_def by_id_none)
  have skip: "k \<notin> n_id ` set ns \<Longrightarrow> count_list (fold ?step ns ch i) k = count_list (ch i) k" for k ns ch
    by (induction ns arbitrary: ch) (auto simp: kahn_children_fold i count_list_0_iff)
  have cnt: "distinct (map n_id ns) \<Longrightarrow> n \<in> set ns \<Longrightarrow>
      count_list (fold ?step ns ch i) (n_id n) = count_list (ch i) (n_id n) + count_list (tx_parents (n_tx n)) i" for ns ch n
    by (induction ns arbitrary: ch) (auto simp: kahn_children_fold i skip count_replicate count_list_0_iff)
  show "n \<in> set nodes \<Longrightarrow> count_list (kahn_children nodes i) (n_id n) = count_list (tx_parents (n_tx n)) i"
    using cnt [OF assms(1), of n "\<lambda>_. []"] by (simp add: ch)
  have sub: "set (fold ?step ns ch i) \<subseteq> set (ch i) \<union> n_id ` set ns" for ns ch
    by (induction ns arbitrary: ch) (fastforce simp: kahn_children_fold i)+
  show "set (kahn_children nodes i) \<subseteq> n_id ` set nodes" using sub [of nodes "\<lambda>_. []"] by (simp add: ch)
qed

text \<open>
  Invariant of the loop: a degree counts the parents that are exported and not yet ordered; the nodes of degree
  zero are the ordered ones and the ready ones.
\<close>

definition kahn_inv :: "node_id set \<Rightarrow> sync_node list \<Rightarrow> degrees \<Rightarrow> node_id list \<Rightarrow> sync_node list \<Rightarrow> bool" where
  "kahn_inv K nodes ind ready ordered \<longleftrightarrow>
     (let V = n_id ` set nodes; D = n_id ` set ordered in
      (\<forall>n \<in> set nodes. map_of ind (n_id n) = Some (undone V D n)) \<and> set ordered \<subseteq> set nodes \<and> linked K ordered
      \<and> distinct (map n_id ordered @ ready) \<and> set (map n_id ordered @ ready) = n_id ` {n \<in> set nodes. undone V D n = 0})"

text \<open>
  One pop on abstract degrees: \<open>f\<close> before and \<open>g\<close> after the children of the popped node were relaxed.
\<close>

lemma zero_split:
  assumes "inj_on h S" "\<forall>m \<in> S. (g m :: nat) \<le> f m"
  shows "h ` {m \<in> S. f m = 0} \<inter> h ` {m \<in> S. g m = 0 \<and> f m \<noteq> 0} = {}"
    and "h ` {m \<in> S. f m = 0} \<union> h ` {m \<in> S. g m = 0 \<and> f m \<noteq> 0} = h ` {m \<in> S. g m = 0}"
proof -
  have "h ` ({m \<in> S. f m = 0} \<inter> {m \<in> S. g m = 0 \<and> f m \<noteq> 0}) = h ` {m \<in> S. f m = 0} \<inter> h ` {m \<in> S. g m = 0 \<and> f m \<noteq> 0}"
    by (rule inj_on_image_Int [OF assms(1)]) auto
  then show "h ` {m \<in> S. f m = 0} \<inter> h ` {m \<in> S. g m = 0 \<and> f m \<noteq> 0} = {}" by auto
  have "{m \<in> S. f m = 0} \<union> {m \<in> S. g m = 0 \<and> f m \<noteq> 0} = {m \<in> S. g m = 0}" using assms(2) by fastforce
  then show "h ` {m \<in> S. f m = 0} \<union> h ` {m \<in> S. g m = 0 \<and> f m \<noteq> 0} = h ` {m \<in> S. g m = 0}" by (simp flip: image_Un)
qed

lemma relax_abstract:
  assumes "\<forall>m \<in> S. map_of ind (h m) = Some (f m)" "\<forall>m \<in> S. f m = g m + count_list kids (h m)" "set kids \<subseteq> h ` S"
  shows "\<exists>ind1 R. kahn_relax kids ind ready = Ret (ind1, ready @ R) \<and> distinct R
    \<and> (\<forall>m \<in> S. map_of ind1 (h m) = Some (g m)) \<and> set R = h ` {m \<in> S. g m = 0 \<and> f m \<noteq> 0}"
proof -
  have k: "\<forall>v \<in> set kids. \<exists>d. map_of ind v = Some d \<and> count_list kids v \<le> d" using assms by fastforce
  have "{v \<in> set kids. map_of ind v = Some (count_list kids v)} = h ` {m \<in> S. g m = 0 \<and> f m \<noteq> 0}"
  proof (intro set_eqI iffI)
    fix v assume v: "v \<in> {v \<in> set kids. map_of ind v = Some (count_list kids v)}"
    with assms(3) obtain m where m: "m \<in> S" "v = h m" by auto
    have "count_list kids v \<noteq> 0" using v by (simp add: count_list_0_iff)
    with v m assms(1,2) show "v \<in> h ` {m \<in> S. g m = 0 \<and> f m \<noteq> 0}" by fastforce
  next
    fix v assume "v \<in> h ` {m \<in> S. g m = 0 \<and> f m \<noteq> 0}"
    then obtain m where m: "m \<in> S" "v = h m" "g m = 0" "f m \<noteq> 0" by auto
    with assms(1,2) have "count_list kids v \<noteq> 0" "map_of ind v = Some (count_list kids v)" by simp_all
    then show "v \<in> {v \<in> set kids. map_of ind v = Some (count_list kids v)}" by (simp add: count_list_0_iff)
  qed
  with kahn_relax_counts [OF k, of ready] assms(1,2) show ?thesis by fastforce
qed

lemma kahn_inv_step:
  assumes lk: "linked K nodes" and inv: "kahn_inv K nodes ind (i # ready) ordered"
  shows "\<exists>n ind1 ready1. by_id nodes i = Some n \<and> kahn_relax (kahn_children nodes i) ind ready = Ret (ind1, ready1)
    \<and> kahn_inv K nodes ind1 ready1 (ordered @ [n])"
proof -
  let ?V = "n_id ` set nodes" and ?D = "n_id ` set ordered"
  have dist: "distinct (map n_id nodes)" "?V \<inter> K = {}" and inj: "inj_on n_id (set nodes)"
    using linked_ids [OF lk] by (simp_all add: distinct_map)
  have I: "\<forall>n \<in> set nodes. map_of ind (n_id n) = Some (undone ?V ?D n)" "set ordered \<subseteq> set nodes" "linked K ordered"
    "distinct (map n_id ordered @ i # ready)" "insert i (?D \<union> set ready) = n_id ` {n \<in> set nodes. undone ?V ?D n = 0}"
    using inv by (simp_all add: kahn_inv_def Let_def)
  from I(5) have "i \<in> n_id ` {n \<in> set nodes. undone ?V ?D n = 0}" by blast
  then obtain n where n: "n \<in> set nodes" "n_id n = i" "undone ?V ?D n = 0" by auto
  have iV: "i \<in> ?V" "i \<notin> ?D" using n(1,2) I(4) by auto
  have und: "\<forall>m \<in> set nodes. undone ?V ?D m = undone ?V (insert i ?D) m + count_list (kahn_children nodes i) (n_id m)"
    using undone_insert [OF iV] kahn_children_count(1) [OF dist(1) iV(1)] by simp
  obtain ind1 R where R: "kahn_relax (kahn_children nodes i) ind ready = Ret (ind1, ready @ R)" "distinct R"
      "\<forall>m \<in> set nodes. map_of ind1 (n_id m) = Some (undone ?V (insert i ?D) m)"
      "set R = n_id ` {m \<in> set nodes. undone ?V (insert i ?D) m = 0 \<and> undone ?V ?D m \<noteq> 0}"
    using relax_abstract [OF I(1) und kahn_children_count(2) [OF dist(1) iV(1)], of ready] by blast
  have le: "\<forall>m \<in> set nodes. undone ?V (insert i ?D) m \<le> undone ?V ?D m" using und by simp
  have "insert i (?D \<union> set ready) \<inter> set R = {}" unfolding I(5) R(4) by (rule zero_split(1) [OF inj le])
  then have "distinct (map n_id (ordered @ [n]) @ ready @ R)" using I(4) R(2) n(2) by auto
  moreover have "insert i (?D \<union> set ready) \<union> set R = n_id ` {m \<in> set nodes. undone ?V (insert i ?D) m = 0}"
    unfolding I(5) R(4) by (rule zero_split(2) [OF inj le])
  moreover have "linked K (ordered @ [n])"
    using I(3) linked_parents [OF lk n(1)] n iV dist(2) undone_zero [of ?V ?D n] by (auto simp: linked_snoc)
  ultimately have "kahn_inv K nodes ind1 (ready @ R) (ordered @ [n])"
    unfolding kahn_inv_def Let_def using R(3) I(2) n(1,2) by (simp add: Un_assoc)
  moreover have "by_id nodes i = Some n" using by_id_iff [OF dist(1)] n by blast
  ultimately show ?thesis using R(1) by blast
qed

lemma kahn_loop_inv:
  assumes "linked K nodes"
  shows "kahn_inv K nodes ind ready ordered \<Longrightarrow>
    \<exists>res ind1. kahn_loop (by_id nodes) (kahn_children nodes) ind ready ordered = Ret res \<and> kahn_inv K nodes ind1 [] res"
proof (induction "by_id nodes" "kahn_children nodes" ind ready ordered rule: kahn_loop.induct)
  case (2 ind i ready ordered)
  from kahn_inv_step [OF assms 2(2)] obtain n ind1 ready1 where
    s: "by_id nodes i = Some n" "kahn_relax (kahn_children nodes i) ind ready = Ret (ind1, ready1)"
      "kahn_inv K nodes ind1 ready1 (ordered @ [n])" by blast
  from 2(1) [OF s(1,2) refl s(3)] s(1,2) show ?case by simp
qed auto

lemma kahn_inv_complete:
  assumes lk: "linked K nodes" and inv: "kahn_inv K nodes ind [] res"
  shows "mset res = mset nodes" "linked K res"
proof -
  let ?V = "n_id ` set nodes" and ?D = "n_id ` set res"
  have dist: "distinct (map n_id nodes)" "?V \<inter> K = {}" using linked_ids [OF lk] by simp_all
  have I: "set res \<subseteq> set nodes" "linked K res" "distinct (map n_id res)" "?D = n_id ` {n \<in> set nodes. undone ?V ?D n = 0}"
    using inv by (simp_all add: kahn_inv_def Let_def)
  have "set nodes \<subseteq> set res"
  proof (rule ccontr)
    assume "\<not> set nodes \<subseteq> set res"
    from linked_first_missing [OF lk this] obtain n where
      n: "n \<in> set nodes" "n \<notin> set res" "set (tx_parents (n_tx n)) \<subseteq> K \<union> n_id ` (set nodes \<inter> set res)" by blast
    then have "undone ?V ?D n = 0" using dist(2) by (auto simp: undone_zero)
    then have "n_id n \<in> ?D" using I(4) n(1) by blast
    then show False using n(1,2) I(1) dist(1) by (auto simp: distinct_map dest: inj_onD)
  qed
  with I(1,3) dist(1) show "mset res = mset nodes" by (simp add: distinct_map set_eq_iff_mset_eq_distinct [symmetric] subset_antisym)
  show "linked K res" by (rule I(2))
qed

lemma kahn_order_correct:
  assumes "iter_enumerates e" and lk: "linked K nodes"
  shows "\<exists>ordered. kahn_order e nodes = Ret ordered \<and> mset ordered = mset nodes \<and> linked K ordered"
proof -
  let ?ind = "kahn_degrees nodes" and ?V = "n_id ` set nodes"
  let ?Z = "{i \<in> set (map fst ?ind). map_of ?ind i = Some 0}"
  have dist: "distinct (map n_id nodes)" using linked_ids [OF lk] by simp
  note deg = kahn_degrees_lookup [OF dist]
  have "?Z = n_id ` {n \<in> set nodes. map_of ?ind (n_id n) = Some 0}" unfolding deg(2) by blast
  also have "{n \<in> set nodes. map_of ?ind (n_id n) = Some 0} = {n \<in> set nodes. undone ?V {} n = 0}"
    by (rule Collect_cong) (metis deg(1) option.inject)
  finally have "?Z = n_id ` {n \<in> set nodes. undone ?V {} n = 0}" .
  moreover have "set (set_iter e ?Z) = ?Z" "distinct (set_iter e ?Z)" using assms(1) by (simp_all add: iter_enumerates_def)
  ultimately have "kahn_inv K nodes ?ind (set_iter e ?Z) []" unfolding kahn_inv_def Let_def using deg(1) by simp
  from kahn_loop_inv [OF lk this] obtain res ind1 where
    res: "kahn_loop (by_id nodes) (kahn_children nodes) ?ind (set_iter e ?Z) [] = Ret res" "kahn_inv K nodes ind1 [] res" by blast
  note fin = kahn_inv_complete [OF lk res(2)]
  have "kahn_order e nodes = Ret res" unfolding kahn_order_def Let_def res(1) using mset_eq_length [OF fin(1)] by simp
  with fin show ?thesis by blast
qed

section \<open>Correctness of the chunks\<close>

definition raw_size :: "env \<Rightarrow> sync_node list \<Rightarrow> nat" where
  "raw_size e ns = sum_list (map (\<lambda>n. length (pack_nodes e [n])) ns)"

lemma greedy_chunks_concat: "concat (greedy_chunks e b ns current raw) = current @ ns"
  by (induction e b ns current raw rule: greedy_chunks.induct) (simp_all add: Let_def)

lemma greedy_chunks_bounded:
  "raw = raw_size e current \<Longrightarrow> length current \<le> 1 \<or> raw \<le> b \<Longrightarrow> c \<in> set (greedy_chunks e b ns current raw) \<Longrightarrow>
   c \<noteq> [] \<and> (length c = 1 \<or> raw_size e c \<le> b)"
proof (induction e b ns current raw rule: greedy_chunks.induct)
  case (1 e b current raw)
  then show ?case by (cases current) (auto simp: raw_size_def)
next
  case (2 e b n ns current raw)
  let ?r = "length (pack_nodes e [n])"
  show ?case
  proof (cases "current \<noteq> [] \<and> b < raw + ?r")
    case True
    then have "c = current \<or> c \<in> set (greedy_chunks e b ns [n] ?r)" using 2(5) by (simp add: Let_def)
    then show ?thesis
    proof
      assume "c = current"
      then show ?thesis using True 2(3,4) by (cases current) (auto simp: raw_size_def)
    qed (use 2(1) True in \<open>simp add: raw_size_def\<close>)
  next
    case False
    then have "c \<in> set (greedy_chunks e b ns (current @ [n]) (raw + ?r))" using 2(5) by (auto simp: Let_def split: if_splits)
    moreover have "length (current @ [n]) \<le> 1 \<or> raw + ?r \<le> b" using False by auto
    ultimately show ?thesis using 2(2) [OF refl False] 2(3) by (simp add: raw_size_def)
  qed
qed

lemma base64_length: "length (base64_encode bs) = 4 * ((length bs + 2) div 3)"
proof (induction bs rule: base64_encode.induct)
  case (4 x y z rest)
  obtain a b c d where "b64_group x (Some y) (Some z) = [a, b, c, d]" by (rule b64_group_shape)
  with 4 show ?case by simp presburger
qed (simp_all add: b64_group_def Let_def)

lemma base64_fits: "length bs \<le> m div 4 * 3 \<Longrightarrow> length (base64_encode bs) \<le> m"
proof -
  assume "length bs \<le> m div 4 * 3"
  then have "(length bs + 2) div 3 \<le> (m div 4 * 3 + 2) div 3" by (intro div_le_mono) simp
  also have "\<dots> = m div 4" by presburger
  finally have "4 * ((length bs + 2) div 3) \<le> 4 * (m div 4)" by simp
  also have "\<dots> \<le> m" by (rule times_div_less_eq_dividend)
  finally show ?thesis unfolding base64_length .
qed

lemma missing_nodes: "mns_ok (g_nodes g) \<Longrightarrow> get_nodes g (missing_hashes g K) = filter (\<lambda>n. n_id n \<notin> K) (all_nodes g)"
proof -
  have part: "distinct (map fst xs) \<Longrightarrow> set ys \<subseteq> set xs \<Longrightarrow> \<forall>(i, n) \<in> set xs. n_id n = i \<Longrightarrow>
      List.map_filter (map_of xs) (filter (\<lambda>i. i \<notin> K) (map fst ys)) = filter (\<lambda>n. n_id n \<notin> K) (map snd ys)"
    for xs ys :: "(node_id \<times> sync_node) list"
    by (induction ys) (auto simp: List.map_filter_simps)
  assume "mns_ok (g_nodes g)"
  then show ?thesis using part [of "mns_data (g_nodes g)" "mns_data (g_nodes g)"]
    by (simp add: get_nodes_def missing_hashes_def mns_get_def [abs_def] mns_all_ids_def all_nodes_data mns_ok_def)
qed

lemma linked_filter:
  "linked S ns \<Longrightarrow> linked (S \<union> n_id ` {n \<in> set ns. n_id n \<in> K}) (filter (\<lambda>n. n_id n \<notin> K) ns)"
proof (induction ns arbitrary: S)
  case (Cons n ns)
  note ids = linked_ids [OF Cons.prems]
  have IH: "linked (insert (n_id n) S \<union> n_id ` {n \<in> set ns. n_id n \<in> K}) (filter (\<lambda>n. n_id n \<notin> K) ns)"
    using Cons.IH [of "insert (n_id n) S"] Cons.prems by simp
  show ?case
  proof (cases "n_id n \<in> K")
    case True
    then have "S \<union> n_id ` {m \<in> set (n # ns). n_id m \<in> K} = insert (n_id n) S \<union> n_id ` {m \<in> set ns. n_id m \<in> K}" by auto
    with IH True show ?thesis by simp
  next
    case False
    then have "S \<union> n_id ` {m \<in> set (n # ns). n_id m \<in> K} = S \<union> n_id ` {m \<in> set ns. n_id m \<in> K}" by auto
    with IH False Cons.prems ids show ?thesis by auto
  qed
qed simp

definition pack_subadditive :: "env \<Rightarrow> bool" where
  "pack_subadditive e \<longleftrightarrow> (\<forall>ns. ns \<noteq> [] \<longrightarrow> length (pack_nodes e ns) \<le> raw_size e ns)"



end
