(* ===== verification/Client_Sync.thy ===== *)
theory Client_Sync
  imports Client_Export
begin

text \<open>
  Two browser clients that exchange packs. Importing follows the replay loop as long as the policy is the default
  one, so the lemmas on replay carry over to a store that already holds nodes.
\<close>

lemma policy_of_nil [simp]: "policy_of [] n = default_policy"
  by (simp add: policy_of_def)

lemma policy_check_default [simp]: "policy_check default_policy n = Inr ()"
  by (auto simp: policy_check_def Let_def find_None_iff [THEN iffD2] split: option.split)

lemma set_policy_same: "g_policy g = p \<Longrightarrow> set_policy p g = g"
  by (auto simp: set_policy_def)

lemma pass_default:
  assumes "replayable e [] N" "set pending \<subseteq> N" "g_text_projections g = []" "g_policy g = default_policy"
  shows "insert_pass e (\<lambda>_ g. g) pending g = insert_pass e (under_policy []) pending g"
    and "insert_pass e (under_policy []) pending g = Ret (r, g1) \<Longrightarrow> g_text_projections g1 = [] \<and> g_policy g1 = default_policy"
proof -
  have "insert_pass e (\<lambda>_ g. g) pending g = insert_pass e (under_policy []) pending g
    \<and> (\<forall>r g1. insert_pass e (under_policy []) pending g = Ret (r, g1) \<longrightarrow> g_text_projections g1 = [] \<and> g_policy g1 = default_policy)"
    using assms(2-)
  proof (induction pending arbitrary: g)
    case (Cons n rest)
    have n: "n \<in> N" "set rest \<subseteq> N" using Cons.prems(1) by auto
    from replayable_step [OF assms(1) n(1) Cons.prems(2)] obtain q g2 where
      q: "apply_remote e n (under_policy [] n g) = Ret (q, g2)" "\<forall>er. verdict q \<noteq> Fail er" "g_text_projections g2 = []"
        "(\<forall>p \<in> set (tx_parents (n_tx n)). mns_contains (g_nodes g) p) \<longrightarrow> verdict q = Settled" "g_policy g2 = policy_of [] n" .
    have "under_policy [] n g = g" using Cons.prems(3) by (simp add: set_policy_same)
    then have q1: "apply_remote e n g = Ret (q, g2)" "apply_remote e n (set_policy default_policy g) = Ret (q, g2)" using q(1) by simp_all
    have "g_policy g2 = default_policy" using q(5) by simp
    note IH = Cons.IH [OF n(2) q(3) this]
    show ?case
    proof (cases "verdict q")
      case Settled
      then show ?thesis using IH by (simp add: q1)
    next
      case Retry
      show ?thesis
        by (cases "insert_pass e (under_policy []) rest g2") (use IH Retry in \<open>auto simp: q1\<close>)
    qed (use q(2) in auto)
  qed simp
  then show "insert_pass e (\<lambda>_ g. g) pending g = insert_pass e (under_policy []) pending g"
    "insert_pass e (under_policy []) pending g = Ret (r, g1) \<Longrightarrow> g_text_projections g1 = [] \<and> g_policy g1 = default_policy" by blast+
qed

lemma import_follows_replay:
  assumes "replayable e [] N" "replay_loop e [] pending g = Ret (Inr (), g')" "set pending \<subseteq> N"
    and "g_text_projections g = []" "g_policy g = default_policy" "replay_inv e [] N g"
  shows "import_loop e pending g = Ret (Inr (), g')"
  using assms(2-)
proof (induction pending arbitrary: g rule: length_induct)
  case (1 pending)
  show ?case
  proof (cases "pending = []")
    case True
    with "1.prems"(1) show ?thesis by (simp add: import_loop.simps replay_loop.simps)
  next
    case False
    then obtain still g2 where p: "insert_pass e (under_policy []) pending g = Ret (Inr still, g2)"
      "length still \<noteq> length pending" "replay_loop e [] still g2 = Ret (Inr (), g')"
      using "1.prems"(1) by (auto simp: replay_loop.simps [of e "[]" pending] split: rust.splits prod.splits sum.splits if_splits)
    note d = pass_default [OF assms(1) "1.prems"(2-4)]
    have "inj_on n_id N" using assms(1) by (simp add: replayable_def)
    note s = replay_inv_pass [OF p(1) "1.prems"(5,2) this]
    have "length still < length pending" using insert_pass_length [OF p(1)] p(2) by simp
    then have "import_loop e still g2 = Ret (Inr (), g')"
      using "1.IH" p(3) s "1.prems"(2) d(2) [OF p(1)] by auto
    then show ?thesis using False p(1,2) d(1) by (simp add: import_loop.simps [of e pending])
  qed
qed

section \<open>Two stores\<close>

text \<open>
  What the exchange needs of the two stores: no encryption, the default policy, no text, valid signatures,
  clocks within the slack, and a codec that decodes the packs it encoded.
\<close>

definition exchangeable :: "env \<Rightarrow> sync_store \<Rightarrow> sync_store \<Rightarrow> bool" where
  "exchangeable e a b \<longleftrightarrow>
     (let N = set (all_nodes (st_graph a)) \<union> set (all_nodes (st_graph b)) in
      inj_on n_id N \<and> inj_on (\<lambda>n. (tx_lamport (n_tx n), tx_author (n_tx n))) N
      \<and> (\<forall>n \<in> N. verify_signature e n = Inr () \<and> tx_lamport (n_tx n) \<le> LAMPORT_SLACK \<and> node_text_keys n = {}))
      \<and> (\<forall>s \<in> {a, b}. graph_reach e (st_graph s) \<and> st_room_key s = None \<and> g_policy (st_graph s) = default_policy
           \<and> g_text_projections (st_graph s) = []
           \<and> unpack_nodes e (pack_nodes e (all_nodes (st_graph s))) = Inr (all_nodes (st_graph s)))"

lemma exchangeable_sym: "exchangeable e a b \<longleftrightarrow> exchangeable e b a"
  by (auto simp: exchangeable_def Let_def Un_commute)

lemma linked_append: "linked S (xs @ ys) \<longleftrightarrow> linked S xs \<and> linked (S \<union> n_id ` set xs) ys"
  by (induction xs arbitrary: S) auto

lemma linked_mono: "linked S ns \<Longrightarrow> S \<subseteq> T \<Longrightarrow> n_id ` set ns \<inter> T = {} \<Longrightarrow> linked T ns"
proof (induction ns arbitrary: S T)
  case (Cons n ns)
  have "linked (insert (n_id n) T) ns"
    by (rule Cons.IH [of "insert (n_id n) S"]) (use Cons.prems linked_ids [OF Cons.prems(1)] in auto)
  with Cons.prems show ?case by auto
qed simp

lemma linked_union:
  assumes "linked {} xs" "linked {} ys" "inj_on n_id (set xs \<union> set ys)"
  shows "linked {} (xs @ filter (\<lambda>n. n \<notin> set xs) ys)"
proof -
  have f: "filter (\<lambda>n. n \<notin> set xs) ys = filter (\<lambda>n. n_id n \<notin> n_id ` set xs) ys"
    using assms(3) by (intro filter_cong) (auto dest: inj_onD)
  have "linked (n_id ` {n \<in> set ys. n_id n \<in> n_id ` set xs}) (filter (\<lambda>n. n_id n \<notin> n_id ` set xs) ys)"
    using linked_filter [OF assms(2), of "n_id ` set xs"] by simp
  then have "linked (n_id ` set xs) (filter (\<lambda>n. n_id n \<notin> n_id ` set xs) ys)" by (rule linked_mono) auto
  with assms(1) show ?thesis by (simp add: linked_append f)
qed

lemma import_merges:
  assumes e: "env_ok e" and x: "exchangeable e a b"
  shows "\<exists>g. import_pack e c (export_all_nodes e b) a = Ret (Inr (), a\<lparr>st_graph := g\<rparr>) \<and> graph_ok e g
    \<and> set (all_nodes g) = set (all_nodes (st_graph a)) \<union> set (all_nodes (st_graph b))"
proof -
  let ?A = "all_nodes (st_graph a)" and ?B = "all_nodes (st_graph b)"
  let ?N = "set ?A \<union> set ?B" and ?L = "?A @ filter (\<lambda>n. n \<notin> set ?A) ?B"
  have N: "inj_on n_id ?N" "\<forall>n \<in> ?N. verify_signature e n = Inr () \<and> tx_lamport (n_tx n) \<le> LAMPORT_SLACK \<and> node_text_keys n = {}"
    and S: "graph_reach e (st_graph a)" "graph_reach e (st_graph b)" "st_room_key a = None" "g_policy (st_graph a) = default_policy"
      "g_text_projections (st_graph a) = []" "unpack_nodes e (pack_nodes e ?B) = Inr ?B"
    using x by (simp_all add: exchangeable_def Let_def)
  note ok = graph_reach_ok [OF e S(1)] graph_reach_ok [OF e S(2)]
  have valid: "replay_valid e [] n" if "n \<in> ?N" for n using that N(2) ok by (auto simp: replay_valid_def graph_ok_def)
  have "key_iter e {} = []" using e by (metis env_ok_def finite.emptyI iter_enumerates_def set_empty)
  then have rep: "replayable e [] ?N" using N valid by (simp add: replayable_def)
  have inv: "replay_inv e [] ?N (st_graph a)" using ok(1) valid N(2) by (auto simp: replay_inv_def)
  have "linked {} ?L" using ok N(1) by (intro linked_union) (simp_all add: graph_ok_def)
  from replayable_loop [OF rep this _ _ _ inv S(5), of ?B] obtain g where
    g: "replay_loop e [] ?B (st_graph a) = Ret (Inr (), g)" by auto
  from replay_run [OF g inv _ N(1)] have r: "graph_ok e g" "set (all_nodes g) = ?N" by (auto simp: replay_inv_def)
  have "import_loop e ?B (st_graph a) = Ret (Inr (), g)" by (rule import_follows_replay [OF rep g _ S(5,4) inv]) simp
  then have "import_pack e c (export_all_nodes e b) a = Ret (Inr (), a\<lparr>st_graph := g\<rparr>)"
    using S(3,6) by (simp add: import_pack_def export_all_nodes_def base64_roundtrip get_nodes_def all_nodes_def on_graph_def)
  with r show ?thesis by blast
qed


text \<open>A pair of stores with one node each, and a codec that numbers nodes by their clock.\<close>

definition exchange_env :: env where
  "exchange_env = sample_env\<lparr>postcard_nodes := map (\<lambda>w. ucast (tx_lamport (n_tx (node_from_wire w)))),
     unpostcard_nodes := (\<lambda>bs. Inr (map (\<lambda>b. wire_from_node (if b = 1 then sample_first else sample_second)) bs))\<rparr>"

definition exchange_store :: "sync_node \<Rightarrow> sync_store" where
  "exchange_store n = sample_store\<lparr>st_room_key := None,
     st_graph := (case apply_remote_checked exchange_env n None graph_new of Ret (_, g) \<Rightarrow> g | Panic \<Rightarrow> graph_new)\<rparr>"

lemma exchange_env_same:
  "tx_hash exchange_env tx = tx_hash sample_env tx" "verify_signature exchange_env n = verify_signature sample_env n"
  "key_iter exchange_env = key_iter sample_env"
  by (simp_all add: exchange_env_def tx_hash_def verify_signature_def)

lemma exchange_env_ok: "env_ok exchange_env"
  using env_ok_sample by (simp add: env_ok_def sign_correct_def batch_sound_def iter_enumerates_def exchange_env_def)

lemma exchange_accepts:
  assumes "n = sample_set l a v []" "l \<le> 2"
  shows "\<exists>g. apply_remote_checked exchange_env n None graph_new = Ret (Inr (), g) \<and> all_nodes g = [n]
    \<and> g_policy g = default_policy \<and> g_text_projections g = []"
proof -
  have "l \<le> sat_add (g_lamport graph_new) LAMPORT_SLACK"
    using assms(2) by (simp add: word_le_nat_alt unat_sat_add LAMPORT_SLACK_def)
  then have r: "apply_remote_checked exchange_env n None graph_new =
      Ret (Inr (), (admitted n True (graph_new\<lparr>g_verified_ids := insert (n_id n) (g_verified_ids graph_new)\<rparr>))
        \<lparr>g_text_apply_projection_update_calls := g_text_apply_projection_update_calls graph_new + 1\<rparr>)"
    using assms new_graph_fields by (intro remote_text_free) (simp_all add: exchange_env_same sample_set_ok precheck_Inr sample_hash)
  have n: "mns_ok (g_nodes graph_new)" "\<not> mns_contains (g_nodes graph_new) (n_id n)" "all_nodes graph_new = []"
    using sample_ok_new new_graph_fields by (simp_all add: sample_ok_def)
  let ?g = "graph_new\<lparr>g_verified_ids := insert (n_id n) (g_verified_ids graph_new)\<rparr>"
  have "all_nodes (admitted n True ?g) = all_nodes ?g @ [n]" by (rule all_nodes_admitted(1)) (use n in simp_all)
  then show ?thesis using r n(3) new_graph_fields by (simp add: all_nodes_def admitted_def)
qed

lemma exchange_store_ok:
  assumes "n = sample_set l a v []" "l \<le> 2"
  shows "graph_reach exchange_env (st_graph (exchange_store n))" "all_nodes (st_graph (exchange_store n)) = [n]"
    "st_room_key (exchange_store n) = None" "g_policy (st_graph (exchange_store n)) = default_policy"
    "g_text_projections (st_graph (exchange_store n)) = []"
proof -
  obtain g where g: "apply_remote_checked exchange_env n None graph_new = Ret (Inr (), g)" "all_nodes g = [n]"
    "g_policy g = default_policy" "g_text_projections g = []" using exchange_accepts [OF assms] by blast
  have "graph_reach exchange_env g" by (rule reach_step [OF reach_new remote_step [OF g(1)]])
  with g show "graph_reach exchange_env (st_graph (exchange_store n))" "all_nodes (st_graph (exchange_store n)) = [n]"
    "st_room_key (exchange_store n) = None" "g_policy (st_graph (exchange_store n)) = default_policy"
    "g_text_projections (st_graph (exchange_store n)) = []" by (simp_all add: exchange_store_def)
qed

lemma exchange_sample: "exchangeable exchange_env (exchange_store sample_first) (exchange_store sample_second)"
proof -
  have l: "(1 :: u64) \<le> 2" "(2 :: u64) \<le> 2" by simp_all
  note f = exchange_store_ok [OF sample_first_def l(1)] and s = exchange_store_ok [OF sample_second_def l(2)]
  have c: "unpack_nodes exchange_env (pack_nodes exchange_env [n]) = Inr [n]" if "n = sample_first \<or> n = sample_second" for n
    using that by (auto simp: unpack_nodes_def pack_nodes_def exchange_env_def node_from_wire_from_node)
      (simp_all add: sample_first_def sample_second_def)
  have v: "verify_signature exchange_env n = Inr () \<and> tx_lamport (n_tx n) \<le> LAMPORT_SLACK \<and> node_text_keys n = {}"
    if "n = sample_first \<or> n = sample_second" for n
    using that by (auto simp: exchange_env_same sample_first_def sample_second_def sample_set_ok word_le_nat_alt LAMPORT_SLACK_def)
  have "inj_on n_id {sample_first, sample_second}" by auto
  moreover have "inj_on (\<lambda>n. (tx_lamport (n_tx n), tx_author (n_tx n))) {sample_first, sample_second}"
    by (auto simp: sample_first_def sample_second_def)
  ultimately show ?thesis unfolding exchangeable_def Let_def f s using f s c v by (simp add: insert_commute)
qed


end
