(* ===== verification/Gc.thy ===== *)
theory Gc
  imports Storage
begin

text \<open>
  Garbage collection of blobs (\<open>src/core/gc\<close>). The coordinator is written against five traits; here a record of
  operations on an abstract state stands for them, and the locale \<open>gc_contract\<close> states what they promise. Every
  operation can fail, so each returns a result and the state it leaves.
\<close>

section \<open>Types\<close>

datatype gc_error = Backend string | InvalidState string | Invariant string

type_synonym 'a gc = "gc_error + 'a"

text \<open>A \<open>SystemTime\<close> is the number of nanoseconds since the epoch; a \<open>Duration\<close> is a number of nanoseconds.\<close>

type_synonym gc_time = int
type_synonym gc_duration = int

datatype asset_state = Uploading | Active | Grace | SweepCandidate | Pinned | PendingDelete | Deleted | Quarantined

record asset_record =
  ar_hash :: string
  ar_object_key :: string
  ar_bucket :: string
  ar_namespace :: string
  ar_first_seen_at :: gc_time
  ar_last_seen_at :: gc_time
  ar_state :: asset_state
  ar_pending_delete_at :: "gc_time option"
  ar_deleted_at :: "gc_time option"
  ar_last_marked_run_id :: "string option"
  ar_mark_count :: u64
  ar_size_bytes :: "u64 option"
  ar_content_type :: "string option"
  ar_is_admin_pinned :: bool
  ar_pin_reason :: "string option"
  ar_updated_at :: gc_time

datatype gc_run_mode = DryRun | MarkOnly | SweepSoft | SweepHard

datatype gc_run_status = Running | Succeeded | Failed

record gc_run_delta =
  d_marked :: u64
  d_newly_pending :: u64
  d_hard_deleted :: u64
  d_skipped_pinned :: u64
  d_errors :: u64

definition delta_default :: gc_run_delta where
  "delta_default = \<lparr>d_marked = 0, d_newly_pending = 0, d_hard_deleted = 0, d_skipped_pinned = 0, d_errors = 0\<rparr>"

record coordinator_config =
  grace_window :: gc_duration
  max_deletes_per_run :: u64
  require_head_before_delete :: bool

definition coordinator_default :: coordinator_config where
  "coordinator_default = \<lparr>grace_window = 24 * 60 * 60 * 10 ^ 9, max_deletes_per_run = 100, require_head_before_delete = True\<rparr>"

section \<open>Operations of the five traits\<close>

record 's gc_ops =
  op_upsert_active_seen_batch :: "string \<Rightarrow> string list \<Rightarrow> gc_time \<Rightarrow> 's \<Rightarrow> unit gc \<times> 's"
  op_iter_unmarked_candidates :: "string \<Rightarrow> 's \<Rightarrow> asset_record list gc \<times> 's"
  op_iter_pending_older_than :: "gc_time \<Rightarrow> 's \<Rightarrow> asset_record list gc \<times> 's"
  op_set_pending_delete :: "string \<Rightarrow> gc_time \<Rightarrow> 's \<Rightarrow> unit gc \<times> 's"
  op_set_deleted :: "string \<Rightarrow> gc_time \<Rightarrow> 's \<Rightarrow> unit gc \<times> 's"
  op_start_run :: "gc_run_mode \<Rightarrow> gc_time \<Rightarrow> 's \<Rightarrow> string gc \<times> 's"
  op_apply_delta :: "string \<Rightarrow> gc_run_delta \<Rightarrow> 's \<Rightarrow> unit gc \<times> 's"
  op_finish_run :: "string \<Rightarrow> gc_run_status \<Rightarrow> gc_time \<Rightarrow> 's \<Rightarrow> unit gc \<times> 's"
  op_is_pinned :: "string \<Rightarrow> 's \<Rightarrow> bool gc \<times> 's"
  op_head :: "string \<Rightarrow> string \<Rightarrow> 's \<Rightarrow> bool gc \<times> 's"
  op_delete :: "string \<Rightarrow> string \<Rightarrow> 's \<Rightarrow> unit gc \<times> 's"

text \<open>The operator \<open>?\<close> of the source.\<close>

definition gbind :: "'a gc \<times> 's \<Rightarrow> ('a \<Rightarrow> 's \<Rightarrow> 'b gc \<times> 's) \<Rightarrow> 'b gc \<times> 's" where
  "gbind r f = (case r of (Inl er, s) \<Rightarrow> (Inl er, s) | (Inr x, s) \<Rightarrow> f x s)"

lemma gbind_Inr: "gbind r f = (Inr y, s') \<longleftrightarrow> (\<exists>x s. r = (Inr x, s) \<and> f x s = (Inr y, s'))"
  by (auto simp: gbind_def split: prod.splits sum.splits)

section \<open>The coordinator\<close>

text \<open>\<open>rec.is_admin_pinned || self.pins.is_pinned(..)?\<close>\<close>

definition protected_by_pin :: "'s gc_ops \<Rightarrow> asset_record \<Rightarrow> 's \<Rightarrow> bool gc \<times> 's" where
  "protected_by_pin I rec s = (if ar_is_admin_pinned rec then (Inr True, s) else op_is_pinned I (ar_hash rec) s)"

fun sweep_soft_loop :: "'s gc_ops \<Rightarrow> gc_time \<Rightarrow> asset_record list \<Rightarrow> gc_run_delta \<Rightarrow> 's \<Rightarrow> gc_run_delta gc \<times> 's" where
  "sweep_soft_loop I now [] delta s = (Inr delta, s)"
| "sweep_soft_loop I now (rec # recs) delta s =
     (if ar_pending_delete_at rec \<noteq> None \<or> ar_state rec = PendingDelete then sweep_soft_loop I now recs delta s
      else gbind (protected_by_pin I rec s) (\<lambda>pinned s1.
        if pinned then sweep_soft_loop I now recs (delta\<lparr>d_skipped_pinned := d_skipped_pinned delta + 1\<rparr>) s1
        else gbind (op_set_pending_delete I (ar_hash rec) now s1) (\<lambda>_ s2.
          sweep_soft_loop I now recs (delta\<lparr>d_newly_pending := d_newly_pending delta + 1\<rparr>) s2)))"

definition sweep_soft :: "'s gc_ops \<Rightarrow> string \<Rightarrow> gc_time \<Rightarrow> gc_run_delta \<Rightarrow> 's \<Rightarrow> gc_run_delta gc \<times> 's" where
  "sweep_soft I run_id now delta s =
     gbind (op_iter_unmarked_candidates I run_id s) (\<lambda>candidates s1. sweep_soft_loop I now candidates delta s1)"

fun sweep_hard_loop ::
  "'s gc_ops \<Rightarrow> coordinator_config \<Rightarrow> gc_time \<Rightarrow> asset_record list \<Rightarrow> u64 \<Rightarrow> gc_run_delta \<Rightarrow> 's \<Rightarrow> gc_run_delta gc \<times> 's" where
  "sweep_hard_loop I cfg now [] remaining delta s = (Inr delta, s)"
| "sweep_hard_loop I cfg now (rec # recs) remaining delta s =
     (if remaining = 0 then (Inr delta, s)
      else gbind (protected_by_pin I rec s) (\<lambda>pinned s1.
        if pinned then sweep_hard_loop I cfg now recs remaining (delta\<lparr>d_skipped_pinned := d_skipped_pinned delta + 1\<rparr>) s1
        else gbind (if require_head_before_delete cfg then op_head I (ar_bucket rec) (ar_object_key rec) s1 else (Inr True, s1))
          (\<lambda>exists s2.
            if \<not> exists
            then gbind (op_set_deleted I (ar_hash rec) now s2) (\<lambda>_ s3. sweep_hard_loop I cfg now recs remaining delta s3)
            else gbind (op_delete I (ar_bucket rec) (ar_object_key rec) s2) (\<lambda>_ s3.
              gbind (op_set_deleted I (ar_hash rec) now s3) (\<lambda>_ s4.
                sweep_hard_loop I cfg now recs (remaining - 1) (delta\<lparr>d_hard_deleted := d_hard_deleted delta + 1\<rparr>) s4)))))"

text \<open>\<open>SystemTime::checked_sub\<close>: seconds are signed 64-bit.\<close>

definition checked_sub_time :: "gc_time \<Rightarrow> gc_duration \<Rightarrow> gc_time option" where
  "checked_sub_time t d = (if t - d < - (2 ^ 63) * 10 ^ 9 then None else Some (t - d))"

definition sweep_hard :: "'s gc_ops \<Rightarrow> coordinator_config \<Rightarrow> gc_time \<Rightarrow> gc_run_delta \<Rightarrow> 's \<Rightarrow> gc_run_delta gc \<times> 's" where
  "sweep_hard I cfg now delta s =
     (case checked_sub_time now (grace_window cfg) of
        None \<Rightarrow> (Inl (Invariant ''failed to compute grace cutoff''), s)
      | Some cutoff \<Rightarrow>
          gbind (op_iter_pending_older_than I cutoff s) (\<lambda>candidates s1.
            sweep_hard_loop I cfg now candidates (max_deletes_per_run cfg) delta s1))"

definition run_inner :: "'s gc_ops \<Rightarrow> ('s \<Rightarrow> string list gc \<times> 's) \<Rightarrow> coordinator_config \<Rightarrow> string \<Rightarrow> gc_run_mode \<Rightarrow> gc_time \<Rightarrow> 's \<Rightarrow> gc_run_delta gc \<times> 's" where
  "run_inner I collect_live_hashes cfg run_id mode now s =
     gbind (collect_live_hashes s) (\<lambda>live s1.
     gbind (op_upsert_active_seen_batch I run_id live now s1) (\<lambda>_ s2.
     let delta = delta_default\<lparr>d_marked := word_of_nat (length live)\<rparr> in
     if mode = DryRun \<or> mode = MarkOnly then gbind (op_apply_delta I run_id delta s2) (\<lambda>_ s3. (Inr delta, s3))
     else gbind (sweep_soft I run_id now delta s2) (\<lambda>delta1 s3.
          gbind (if mode = SweepHard then sweep_hard I cfg now delta1 s3 else (Inr delta1, s3)) (\<lambda>delta2 s4.
          gbind (op_apply_delta I run_id delta2 s4) (\<lambda>_ s5. (Inr delta2, s5))))))"

definition run_once :: "'s gc_ops \<Rightarrow> ('s \<Rightarrow> string list gc \<times> 's) \<Rightarrow> coordinator_config \<Rightarrow> gc_run_mode \<Rightarrow> gc_time \<Rightarrow> 's \<Rightarrow> gc_run_delta gc \<times> 's" where
  "run_once I collect_live_hashes cfg mode now s =
     gbind (op_start_run I mode now s) (\<lambda>run_id s1.
       let (result, s2) = run_inner I collect_live_hashes cfg run_id mode now s1;
           status = (case result of Inr _ \<Rightarrow> Succeeded | Inl _ \<Rightarrow> Failed);
           (_, s3) = op_finish_run I run_id status now s2
       in (result, s3))"

text \<open>The server collects the live set first and hands the outcome to the coordinator (\<open>gc_service.rs\<close>).\<close>

definition run_new_coordinator_once ::
  "'s gc_ops \<Rightarrow> string list gc \<Rightarrow> gc_run_mode \<Rightarrow> coordinator_config \<Rightarrow> gc_time \<Rightarrow> 's \<Rightarrow> gc_run_delta gc \<times> 's" where
  "run_new_coordinator_once I live_result mode cfg now s = run_once I (\<lambda>s. (live_result, s)) cfg mode now s"

section \<open>What the stores promise\<close>

text \<open>
  The contract sees an inventory row only through \<open>asset_view\<close>; \<open>tick\<close> is the resolution at which the
  inventory keeps times, \<open>loc\<close> the object of a hash, and \<open>present\<close> tells whether that object is stored.
\<close>

record asset_view =
  av_state :: asset_state
  av_pending :: "int option"
  av_mark :: "string option"
  av_admin :: bool

definition pending_at :: "asset_view option \<Rightarrow> int \<Rightarrow> bool" where
  "pending_at x p \<longleftrightarrow> (\<exists>v. x = Some v \<and> av_state v = PendingDelete \<and> av_pending v = Some p)"

definition tombstoned :: "int \<Rightarrow> asset_view option \<Rightarrow> asset_view option \<Rightarrow> bool" where
  "tombstoned t x y \<longleftrightarrow> (\<exists>v w. x = Some v \<and> y = Some w \<and> av_pending w = Some t \<and> av_mark w = av_mark v)"

lemma tombstoned_trans: "tombstoned t x y \<Longrightarrow> tombstoned t y z \<Longrightarrow> tombstoned t x z"
  by (auto simp: tombstoned_def)

definition lost_objects :: "('s \<Rightarrow> string \<Rightarrow> bool) \<Rightarrow> 's \<Rightarrow> 's \<Rightarrow> string set" where
  "lost_objects present s s' = {h. present s h \<and> \<not> present s' h}"

lemma lost_objects_trans: "lost_objects present s s'' \<subseteq> lost_objects present s s' \<union> lost_objects present s' s''"
  by (auto simp: lost_objects_def)

lemma lost_objects_same: "present s' = present s \<Longrightarrow> lost_objects present s s' = {}"
  by (auto simp: lost_objects_def)

definition swept_row :: "asset_view option \<Rightarrow> asset_view option \<Rightarrow> bool" where
  "swept_row x y \<longleftrightarrow> y = x \<or> (\<exists>w. y = Some w \<and> av_state w = Deleted)"

lemma swept_row_trans: "swept_row x y \<Longrightarrow> swept_row y z \<Longrightarrow> swept_row x z"
  by (auto simp: swept_row_def)

locale gc_contract =
  fixes I :: "'s gc_ops" and ok :: "'s \<Rightarrow> bool" and row :: "'s \<Rightarrow> string \<rightharpoonup> asset_view"
    and present :: "'s \<Rightarrow> string \<Rightarrow> bool" and pinned :: "string \<Rightarrow> bool"
    and loc :: "string \<Rightarrow> string \<times> string" and tick :: "gc_time \<Rightarrow> int"
  assumes upsert: "ok s \<Longrightarrow> op_upsert_active_seen_batch I run hs now s = (r, s') \<Longrightarrow>
      ok s' \<and> present s' = present s \<and> (\<forall>h. h \<notin> set hs \<longrightarrow> row s' h = row s h)
      \<and> (\<forall>h \<in> set hs. row s' h = row s h \<or> (\<exists>v. row s' h = Some v \<and> av_state v = Active \<and> av_mark v = Some run))
      \<and> (\<forall>h \<in> set hs. r = Inr () \<longrightarrow> (\<exists>v. row s' h = Some v \<and> av_state v = Active \<and> av_mark v = Some run))"
    and unmarked: "ok s \<Longrightarrow> op_iter_unmarked_candidates I run s = (rl, s') \<Longrightarrow> ok s' \<and> present s' = present s \<and> row s' = row s
      \<and> (\<forall>recs rec. rl = Inr recs \<longrightarrow> rec \<in> set recs \<longrightarrow>
           (\<exists>v. row s (ar_hash rec) = Some v \<and> av_mark v \<noteq> Some run \<and> av_admin v = ar_is_admin_pinned rec))"
    and pending: "ok s \<Longrightarrow> op_iter_pending_older_than I cutoff s = (rl, s') \<Longrightarrow> ok s' \<and> present s' = present s \<and> row s' = row s
      \<and> (\<forall>recs rec. rl = Inr recs \<longrightarrow> rec \<in> set recs \<longrightarrow>
           loc (ar_hash rec) = (ar_bucket rec, ar_object_key rec)
           \<and> (\<exists>v p. row s (ar_hash rec) = Some v \<and> av_state v = PendingDelete \<and> av_pending v = Some p \<and> p \<le> tick cutoff
                \<and> av_admin v = ar_is_admin_pinned rec))"
    and set_pending: "ok s \<Longrightarrow> op_set_pending_delete I h now s = (r, s') \<Longrightarrow> ok s' \<and> present s' = present s
      \<and> (row s' = row s \<or> (\<exists>v. row s h = Some v \<and> row s' = (row s)(h \<mapsto> v\<lparr>av_state := PendingDelete, av_pending := Some (tick now)\<rparr>)))"
    and set_deleted: "ok s \<Longrightarrow> op_set_deleted I h now s = (r, s') \<Longrightarrow> ok s' \<and> present s' = present s
      \<and> (row s' = row s \<or> (\<exists>v. row s h = Some v \<and> row s' = (row s)(h \<mapsto> v\<lparr>av_state := Deleted\<rparr>)))"
    and start_run: "ok s \<Longrightarrow> op_start_run I mode now s = (r0, s') \<Longrightarrow> ok s' \<and> present s' = present s \<and> row s' = row s"
    and apply_delta: "ok s \<Longrightarrow> op_apply_delta I run delta s = (r, s') \<Longrightarrow> ok s' \<and> present s' = present s \<and> row s' = row s"
    and finish_run: "ok s \<Longrightarrow> op_finish_run I run st now s = (r, s') \<Longrightarrow> ok s' \<and> present s' = present s \<and> row s' = row s"
    and is_pinned: "ok s \<Longrightarrow> op_is_pinned I h s = (r1, s') \<Longrightarrow> ok s' \<and> present s' = present s \<and> row s' = row s
      \<and> (\<forall>b. r1 = Inr b \<longrightarrow> b = pinned h)"
    and head: "ok s \<Longrightarrow> op_head I b k s = (r1, s') \<Longrightarrow> ok s' \<and> present s' = present s \<and> row s' = row s"
    and delete: "ok s \<Longrightarrow> op_delete I b k s = (r, s') \<Longrightarrow> loc h0 = (b, k) \<Longrightarrow> ok s' \<and> row s' = row s
      \<and> (\<forall>h. present s' h \<longrightarrow> present s h) \<and> (\<forall>h. h \<noteq> h0 \<longrightarrow> present s' h = present s h)"
begin

lemma pin_check:
  assumes "ok s" "protected_by_pin I rec s = (r, s')"
  shows "ok s'" "present s' = present s" "row s' = row s" "r = Inr False \<Longrightarrow> \<not> ar_is_admin_pinned rec \<and> \<not> pinned (ar_hash rec)"
  using assms is_pinned [of s "ar_hash rec" r s'] by (auto simp: protected_by_pin_def split: if_splits)

lemma soft_loop:
  "ok s \<Longrightarrow> sweep_soft_loop I now recs delta s = (r, s') \<Longrightarrow> ok s' \<and> present s' = present s
    \<and> (\<forall>h. row s' h = row s h \<or> (h \<in> ar_hash ` set recs
         \<and> tombstoned (tick now) (row s h) (row s' h)))"
proof (induction recs arbitrary: delta s)
  case (Cons rec recs)
  show ?case
  proof (cases "ar_pending_delete_at rec \<noteq> None \<or> ar_state rec = PendingDelete")
    case True
    then show ?thesis using Cons.IH [OF Cons.prems(1)] Cons.prems(2) by auto
  next
    case False
    obtain p s1 where p: "protected_by_pin I rec s = (p, s1)" by fastforce
    note q = pin_check [OF Cons.prems(1) p]
    consider (err) er where "p = Inl er" | (pin) "p = Inr True" | (free) "p = Inr False" by (cases p) auto
    then show ?thesis
    proof cases
      case free
      obtain q2 s2 where s2: "op_set_pending_delete I (ar_hash rec) now s1 = (q2, s2)" by fastforce
      note sp = set_pending [OF q(1) s2]
      have step: "row s2 h = row s h \<or> (h = ar_hash rec
          \<and> tombstoned (tick now) (row s h) (row s2 h))" for h
        using sp unfolding q(3) by (auto simp: tombstoned_def split: if_splits)
      show ?thesis
      proof (cases q2)
        case (Inl er)
        then show ?thesis using Cons.prems(2) False p free s2 sp step q by (auto simp: gbind_def)
      next
        case (Inr u)
        then have "sweep_soft_loop I now recs (delta\<lparr>d_newly_pending := d_newly_pending delta + 1\<rparr>) s2 = (r, s')"
          using Cons.prems(2) False p free s2 by (simp add: gbind_def)
        from Cons.IH [OF _ this] sp have IH: "ok s'" "present s' = present s2" "\<forall>h. row s' h = row s2 h \<or> (h \<in> ar_hash ` set recs
          \<and> tombstoned (tick now) (row s2 h) (row s' h))" by blast+
        have "row s' h = row s h \<or> (h \<in> ar_hash ` set (rec # recs)
          \<and> tombstoned (tick now) (row s h) (row s' h))" for h
          using step [of h] IH(3) [rule_format, of h] tombstoned_trans by auto
        with IH(1,2) sp q(2) show ?thesis by auto
      qed
    qed (use Cons.prems(2) Cons.IH [OF q(1)] False p q in \<open>auto simp: gbind_def\<close>)
  qed
qed simp

lemma delete_one:
  assumes "ok s" "op_delete I b k s = (r, s')" "loc h = (b, k)"
  shows "ok s'" "row s' = row s" "lost_objects present s s' \<subseteq> {h} \<and> (\<forall>h. present s' h \<longrightarrow> present s h)"
  using delete [OF assms] by (auto simp: lost_objects_def)

lemma deleted_one:
  assumes "ok s" "op_set_deleted I h now s = (r, s')"
  shows "ok s'" "lost_objects present s s' = {}" "swept_row (row s h') (row s' h')"
  using set_deleted [OF assms] by (auto simp: lost_objects_same swept_row_def split: if_splits)

definition hard_effect :: "asset_record list \<Rightarrow> nat \<Rightarrow> 's \<Rightarrow> 's \<Rightarrow> bool" where
  "hard_effect recs n s s' \<longleftrightarrow> ok s' \<and> (\<forall>h. present s' h \<longrightarrow> present s h) \<and> (\<forall>h. swept_row (row s h) (row s' h)) \<and> card (lost_objects present s s') \<le> n
     \<and> lost_objects present s s' \<subseteq> ar_hash ` {rec \<in> set recs. \<not> ar_is_admin_pinned rec \<and> \<not> pinned (ar_hash rec)}"

lemma hard_effect_quiet:
  assumes "ok s'" "present s' = present s" "\<forall>h. swept_row (row s h) (row s' h)" "hard_effect recs n s' s''"
  shows "hard_effect (rec # recs) n s s''"
proof -
  have "lost_objects present s s'' = lost_objects present s' s''" by (simp add: lost_objects_def assms(2))
  moreover have "\<forall>h. swept_row (row s h) (row s'' h)" using assms(3,4) swept_row_trans unfolding hard_effect_def by blast
  ultimately show ?thesis using assms(2,4) unfolding hard_effect_def by auto
qed

lemma hard_effect_delete:
  assumes "lost_objects present s s' \<subseteq> {ar_hash rec} \<and> (\<forall>h. present s' h \<longrightarrow> present s h)" "\<forall>h. swept_row (row s h) (row s' h)" "hard_effect recs n s' s''"
    "\<not> ar_is_admin_pinned rec" "\<not> pinned (ar_hash rec)"
  shows "hard_effect (rec # recs) (Suc n) s s''"
proof -
  have l: "lost_objects present s s'' \<subseteq> insert (ar_hash rec) (lost_objects present s' s'')"
    using lost_objects_trans [of present s s'' s'] assms(1) by blast
  have "finite (lost_objects present s' s'')" 
    by (rule finite_subset [of _ "ar_hash ` set recs"]) (use assms(3) in \<open>auto simp: hard_effect_def\<close>)
  then have "card (lost_objects present s s'') \<le> Suc (card (lost_objects present s' s''))"
    by (intro order_trans [OF card_mono [OF _ l]]) (simp_all add: card_insert_if)
  moreover have "\<forall>h. swept_row (row s h) (row s'' h)" using assms(2,3) swept_row_trans unfolding hard_effect_def by blast
  moreover have "insert (ar_hash rec) (ar_hash ` {r \<in> set recs. \<not> ar_is_admin_pinned r \<and> \<not> pinned (ar_hash r)})
      \<subseteq> ar_hash ` {r \<in> set (rec # recs). \<not> ar_is_admin_pinned r \<and> \<not> pinned (ar_hash r)}" using assms(4,5) by auto
  moreover have "\<forall>h. present s'' h \<longrightarrow> present s h" using assms(1,3) unfolding hard_effect_def by blast
  ultimately show ?thesis using l assms(3) unfolding hard_effect_def by (meson insert_mono le_trans Suc_le_mono subset_trans)
qed

lemma hard_effect_self: "ok s \<Longrightarrow> hard_effect recs n s s"
  by (simp add: hard_effect_def lost_objects_same swept_row_def)

lemma hard_loop:
  "ok s \<Longrightarrow> \<forall>rec \<in> set recs. loc (ar_hash rec) = (ar_bucket rec, ar_object_key rec) \<Longrightarrow>
   sweep_hard_loop I cfg now recs remaining delta s = (r, s') \<Longrightarrow> hard_effect recs (unat remaining) s s'"
proof (induction recs arbitrary: remaining delta s)
  case (Cons rec recs)
  note run = Cons.prems(3)
  have l: "loc (ar_hash rec) = (ar_bucket rec, ar_object_key rec)" and ls: "\<forall>rec \<in> set recs. loc (ar_hash rec) = (ar_bucket rec, ar_object_key rec)"
    using Cons.prems(2) by auto
  obtain p s1 where p: "protected_by_pin I rec s = (p, s1)" by fastforce
  note q = pin_check [OF Cons.prems(1) p]
  obtain e2 s2 where h: "(if require_head_before_delete cfg then op_head I (ar_bucket rec) (ar_object_key rec) s1 else (Inr True, s1)) = (e2, s2)"
    by fastforce
  have s2: "ok s2" "present s2 = present s" "row s2 = row s"
    using h head [OF q(1), of "ar_bucket rec" "ar_object_key rec" e2 s2] q by (auto split: if_splits)
  obtain d s3 where d: "op_delete I (ar_bucket rec) (ar_object_key rec) s2 = (d, s3)" by fastforce
  note del = delete_one [OF s2(1) d l]
  obtain t s4 where t: "op_set_deleted I (ar_hash rec) now s3 = (t, s4)" by fastforce
  note dl = deleted_one [OF del(1) t]
  obtain t' s5 where t': "op_set_deleted I (ar_hash rec) now s2 = (t', s5)" by fastforce
  note dl' = deleted_one [OF s2(1) t']
  let ?goal = "hard_effect (rec # recs) (unat remaining) s s'"
  have quiet: ?goal if "ok x" "present x = present s" "\<forall>h. swept_row (row s h) (row x h)" "hard_effect recs (unat remaining) x s'" for x
    by (rule hard_effect_quiet [OF that])
  have swept: ?goal if "remaining \<noteq> 0" "p = Inr False" "hard_effect recs (unat (remaining - 1)) x s'"
    "lost_objects present s x \<subseteq> {ar_hash rec} \<and> (\<forall>h. present x h \<longrightarrow> present s h)" "\<forall>h. swept_row (row s h) (row x h)" for x
  proof -
    have "unat remaining = Suc (unat (remaining - 1))" using that(1) by (simp add: unat_minus_one unat_gt_0)
    then show ?thesis using hard_effect_delete [OF that(4,5,3)] q(4) [OF that(2)] by simp
  qed
  have same: "lost_objects present s x = lost_objects present s2 x" for x by (simp add: lost_objects_def s2(2))
  have rows: "\<forall>h. swept_row (row s h) (row s4 h)" "\<forall>h. swept_row (row s h) (row s5 h)" "present s5 = present s"
    "lost_objects present s s4 \<subseteq> {ar_hash rec} \<and> (\<forall>h. present s4 h \<longrightarrow> present s h)"
    using dl dl' del s2 lost_objects_trans [of present s2 s4 s3] set_deleted [OF s2(1) t'] set_deleted [OF del(1) t] same by auto
  have refl: "\<forall>h. swept_row (row s h) (row s1 h)" "\<forall>h. swept_row (row s h) (row s2 h)" "\<forall>h. swept_row (row s h) (row s3 h)"
    using q(3) s2(3) del(2) by (simp_all add: swept_row_def)
  note IH = Cons.IH [OF _ ls]
  show ?case
  proof (cases "remaining = 0")
    case True
    then show ?thesis using run Cons.prems(1) by (simp add: hard_effect_self)
  next
    case False
    consider (err) er where "p = Inl er" | (pin) "p = Inr True" | (head_err) er where "p = Inr False" "e2 = Inl er"
      | (absent) "p = Inr False" "e2 = Inr False" | (stored) "p = Inr False" "e2 = Inr True"
      by (cases p; cases e2) auto
    then show ?thesis
    proof cases
      case err
      then show ?thesis using run False p quiet [OF q(1,2) refl(1)] hard_effect_self [OF q(1)] by (simp add: gbind_def)
    next
      case pin
      then show ?thesis using run False p quiet [OF q(1,2) refl(1)] IH [OF q(1)] by (simp add: gbind_def)
    next
      case head_err
      then show ?thesis using run False p h quiet [OF s2(1,2) refl(2)] hard_effect_self [OF s2(1)] by (simp add: gbind_def)
    next
      case absent
      then show ?thesis using run False p h t' quiet [OF dl'(1) rows(3,2)] hard_effect_self [OF dl'(1)] IH [OF dl'(1)]
        by (cases t') (simp_all add: gbind_def)
    next
      case stored
      have "lost_objects present s s3 \<subseteq> {ar_hash rec} \<and> (\<forall>h. present s3 h \<longrightarrow> present s h)" using del(3) same s2(2) by simp
      note a = swept [OF False stored(1) _ this refl(3)] and b = swept [OF False stored(1) _ rows(4,1)]
      show ?thesis using run False p h d t stored a b hard_effect_self [OF del(1)] hard_effect_self [OF dl(1)] IH [OF dl(1)]
        by (cases d; cases t) (simp_all add: gbind_def)
    qed
  qed
qed (simp add: hard_effect_self)

lemma soft_phase:
  assumes "ok s" "sweep_soft I run now delta s = (r, s')"
  shows "ok s'" "present s' = present s"
    "row s' h = row s h \<or> (tombstoned (tick now) (row s h) (row s' h) \<and> (\<exists>v. row s h = Some v \<and> av_mark v \<noteq> Some run))"
proof -
  obtain c s1 where c: "op_iter_unmarked_candidates I run s = (c, s1)" by fastforce
  note u = unmarked [OF assms(1) c]
  show "ok s'" "present s' = present s"
    "row s' h = row s h \<or> (tombstoned (tick now) (row s h) (row s' h) \<and> (\<exists>v. row s h = Some v \<and> av_mark v \<noteq> Some run))"
  proof (atomize (full), cases c)
    case (Inl er)
    then show "ok s' \<and> present s' = present s
      \<and> (row s' h = row s h \<or> (tombstoned (tick now) (row s h) (row s' h) \<and> (\<exists>v. row s h = Some v \<and> av_mark v \<noteq> Some run)))"
      using assms(2) c u by (auto simp: sweep_soft_def gbind_def)
  next
    case (Inr recs)
    then have "sweep_soft_loop I now recs delta s1 = (r, s')" using assms(2) c by (simp add: sweep_soft_def gbind_def)
    from soft_loop [OF _ this] u have l: "ok s'" "present s' = present s"
      "row s' h = row s h \<or> (h \<in> ar_hash ` set recs \<and> tombstoned (tick now) (row s h) (row s' h))" by auto
    then show "ok s' \<and> present s' = present s
      \<and> (row s' h = row s h \<or> (tombstoned (tick now) (row s h) (row s' h) \<and> (\<exists>v. row s h = Some v \<and> av_mark v \<noteq> Some run)))"
      using u Inr by blast
  qed
qed

lemma hard_phase:
  assumes "ok s" "sweep_hard I cfg now delta s = (r, s')"
  shows "ok s'" "swept_row (row s h) (row s' h)" "card (lost_objects present s s') \<le> unat (max_deletes_per_run cfg)"
    "h \<in> lost_objects present s s' \<Longrightarrow> \<not> pinned h \<and> (\<exists>v p. row s h = Some v \<and> av_state v = PendingDelete
       \<and> av_pending v = Some p \<and> p \<le> tick (now - grace_window cfg) \<and> \<not> av_admin v)"
proof -
  have "ok s' \<and> swept_row (row s h) (row s' h) \<and> card (lost_objects present s s') \<le> unat (max_deletes_per_run cfg)
    \<and> (h \<in> lost_objects present s s' \<longrightarrow> \<not> pinned h \<and> (\<exists>v p. row s h = Some v \<and> av_state v = PendingDelete
       \<and> av_pending v = Some p \<and> p \<le> tick (now - grace_window cfg) \<and> \<not> av_admin v))"
  proof (cases "checked_sub_time now (grace_window cfg)")
    case None
    then show ?thesis using assms by (auto simp: sweep_hard_def lost_objects_def swept_row_def)
  next
    case (Some cutoff)
    then have cut: "cutoff = now - grace_window cfg" by (auto simp: checked_sub_time_def split: if_splits)
    obtain c s1 where c: "op_iter_pending_older_than I cutoff s = (c, s1)" by fastforce
    note u = pending [OF assms(1) c]
    show ?thesis
    proof (cases c)
      case (Inl er)
      then show ?thesis using assms(2) Some c u by (auto simp: sweep_hard_def gbind_def lost_objects_same swept_row_def)
    next
      case (Inr recs)
      have lost: "lost_objects present s x = lost_objects present s1 x" for x using u by (simp add: lost_objects_def)
      have "sweep_hard_loop I cfg now recs (max_deletes_per_run cfg) delta s1 = (r, s')"
        using assms(2) Some c Inr by (simp add: sweep_hard_def gbind_def)
      from hard_loop [OF _ _ this] u Inr have e: "hard_effect recs (unat (max_deletes_per_run cfg)) s1 s'" by blast
      have "\<not> pinned h \<and> (\<exists>v p. row s h = Some v \<and> av_state v = PendingDelete
          \<and> av_pending v = Some p \<and> p \<le> tick cutoff \<and> \<not> av_admin v)" if "h \<in> lost_objects present s s'"
      proof -
        from that e obtain rec where rec: "rec \<in> set recs" "ar_hash rec = h" "\<not> ar_is_admin_pinned rec" "\<not> pinned h"
          unfolding lost hard_effect_def by blast
        with u Inr show ?thesis by blast
      qed
      with e u cut show ?thesis unfolding lost hard_effect_def by auto
    qed
  qed
  then show "ok s'" "swept_row (row s h) (row s' h)" "card (lost_objects present s s') \<le> unat (max_deletes_per_run cfg)"
    "h \<in> lost_objects present s s' \<Longrightarrow> \<not> pinned h \<and> (\<exists>v p. row s h = Some v \<and> av_state v = PendingDelete
       \<and> av_pending v = Some p \<and> p \<le> tick (now - grace_window cfg) \<and> \<not> av_admin v)" by blast+
qed

text \<open>What one run does to rows that end up as tombstones, and which objects it removes.\<close>

definition run_effect ::
  "coordinator_config \<Rightarrow> gc_run_mode \<Rightarrow> string list gc \<Rightarrow> gc_time \<Rightarrow> bool \<Rightarrow> 's \<Rightarrow> 's \<Rightarrow> bool" where
  "run_effect cfg mode live now done s s' \<longleftrightarrow> ok s' \<and> card (lost_objects present s s') \<le> unat (max_deletes_per_run cfg)
     \<and> (\<forall>h \<in> lost_objects present s s'. mode = SweepHard \<and> \<not> pinned h \<and> (\<exists>hs. live = Inr hs \<and> h \<notin> set hs)
          \<and> (\<exists>v p. row s h = Some v \<and> \<not> av_admin v \<and> pending_at (row s h) p \<and> p \<le> tick (now - grace_window cfg)))
     \<and> (\<forall>h p. pending_at (row s' h) p \<longrightarrow>
          (pending_at (row s h) p \<and> (done \<longrightarrow> (\<exists>hs. live = Inr hs \<and> h \<notin> set hs)))
          \<or> (p = tick now \<and> (\<exists>hs. live = Inr hs \<and> h \<notin> set hs)))"

lemma run_effect_quiet:
  assumes "ok s'" "present s' = present s" "row s' = row s"
  shows "run_effect cfg mode live now False s s'"
  using assms by (simp add: run_effect_def lost_objects_same)

lemma marked_phase:
  assumes "ok s" "op_upsert_active_seen_batch I run hs now s = (u, s')"
  shows "run_effect cfg mode (Inr hs) now (u = Inr ()) s s'"
proof -
  note m = upsert [OF assms]
  have "pending_at (row s h) p \<and> (u = Inr () \<longrightarrow> h \<notin> set hs)" if "pending_at (row s' h) p" for h p
    using that m by (cases "h \<in> set hs") (fastforce simp: pending_at_def)+
  then show ?thesis using m by (auto simp: run_effect_def lost_objects_same)
qed

lemma swept_phase:
  assumes m: "ok s" "op_upsert_active_seen_batch I run hs now s = (Inr (), s2)" and soft: "sweep_soft I run now delta s2 = (r, s3)"
  shows "run_effect cfg mode (Inr hs) now True s s3"
    and "pending_at (row s3 h) p \<Longrightarrow> h \<notin> set hs \<and> (row s3 h = row s h \<or> p = tick now)"
proof -
  note u = upsert [OF m]
  note f = soft_phase [OF _ soft]
  have main: "h \<notin> set hs \<and> (row s3 h = row s h \<or> p = tick now)" if "pending_at (row s3 h) p" for h p
    using that u f(3) [of h] by (cases "h \<in> set hs") (fastforce simp: pending_at_def tombstoned_def)+
  then show "pending_at (row s3 h) p \<Longrightarrow> h \<notin> set hs \<and> (row s3 h = row s h \<or> p = tick now)" .
  have "present s3 = present s" "ok s3" using u f by auto
  moreover have "pending_at (row s h) p \<and> h \<notin> set hs \<or> p = tick now \<and> h \<notin> set hs" if "pending_at (row s3 h) p" for h p
    using main [OF that] that by auto
  ultimately show "run_effect cfg mode (Inr hs) now True s s3" by (auto simp: run_effect_def lost_objects_same)
qed

lemma hard_swept_phase:
  assumes m: "ok s" "op_upsert_active_seen_batch I run hs now s = (Inr (), s2)" and soft: "sweep_soft I run now delta s2 = (r, s3)"
    and hard: "sweep_hard I cfg now delta1 s3 = (r', s4)" and grace: "tick (now - grace_window cfg) < tick now"
  shows "run_effect cfg SweepHard (Inr hs) now True s s4"
proof -
  have ok: "ok s3" "present s3 = present s" using upsert [OF m] soft_phase [OF _ soft] by auto
  note p = swept_phase [OF m soft] and q = hard_phase [OF ok(1) hard]
  have lost: "lost_objects present s s4 = lost_objects present s3 s4" by (simp add: lost_objects_def ok(2))
  have "\<not> pinned h \<and> h \<notin> set hs \<and> (\<exists>v p. row s h = Some v \<and> \<not> av_admin v \<and> pending_at (row s h) p \<and> p \<le> tick (now - grace_window cfg))"
    if "h \<in> lost_objects present s s4" for h
  proof -
    from q(4) [of h] that obtain v pt where v: "\<not> pinned h" "row s3 h = Some v" "av_state v = PendingDelete" "av_pending v = Some pt"
      "pt \<le> tick (now - grace_window cfg)" "\<not> av_admin v" unfolding lost by blast
    then have a: "pending_at (row s3 h) pt" by (simp add: pending_at_def)
    have "pt \<noteq> tick now" using v(5) grace by linarith
    with p(2) [OF a] have "row s3 h = row s h" "h \<notin> set hs" by auto
    with a v show ?thesis by metis
  qed
  moreover have "pending_at (row s3 h) pt" if "pending_at (row s4 h) pt" for h pt
    using q(2) [of h] that by (auto simp: pending_at_def swept_row_def)
  ultimately show ?thesis using p(1) [of cfg SweepHard] q(1,3) unfolding run_effect_def lost by blast
qed

lemma run_effect_extend:
  assumes "run_effect cfg mode live now d s s'" "ok s''" "present s'' = present s'" "row s'' = row s'" "d' \<longrightarrow> d"
  shows "run_effect cfg mode live now d' s s''"
proof -
  have "lost_objects present s s'' = lost_objects present s s'" by (simp add: lost_objects_def assms(3))
  then show ?thesis using assms unfolding run_effect_def by auto
qed

lemma run_effect_start:
  assumes "run_effect cfg mode live now d s' s''" "present s' = present s" "row s' = row s"
  shows "run_effect cfg mode live now d s s''"
  using assms by (simp add: run_effect_def lost_objects_def)

lemma run_inner_effect:
  assumes ok: "ok s" and grace: "tick (now - grace_window cfg) < tick now"
    and run: "run_inner I (\<lambda>s. (live, s)) cfg run mode now s = (r, s')"
  shows "run_effect cfg mode live now (\<exists>x. r = Inr x) s s'"
proof (cases live)
  case (Inl er)
  then have "r = Inl er" "s' = s" using run by (auto simp: run_inner_def gbind_def)
  then show ?thesis using run_effect_quiet [OF ok refl refl] by simp
next
  case (Inr hs)
  obtain u s2 where u: "op_upsert_active_seen_batch I run hs now s = (u, s2)" by fastforce
  have m: "run_effect cfg mode live now (u = Inr ()) s s2" unfolding Inr by (rule marked_phase [OF ok u])
  then have ok2: "ok s2" by (simp add: run_effect_def)
  let ?d = "delta_default\<lparr>d_marked := word_of_nat (length hs)\<rparr>"
  obtain f s3 where f: "sweep_soft I run now ?d s2 = (f, s3)" by fastforce
  show ?thesis
  proof (cases "u = Inr () \<and> mode \<noteq> DryRun \<and> mode \<noteq> MarkOnly")
    case False
    have "ok s' \<and> present s' = present s2 \<and> row s' = row s2 \<and> ((\<exists>x. r = Inr x) \<longrightarrow> u = Inr ())"
    proof (cases u)
      case (Inr x)
      obtain a s5 where a: "op_apply_delta I run ?d s2 = (a, s5)" by fastforce
      show ?thesis using run False Inr \<open>live = Inr hs\<close> u a apply_delta [OF ok2 a] by (cases a) (auto simp: run_inner_def gbind_def Let_def)
    qed (use run \<open>live = Inr hs\<close> u ok2 in \<open>auto simp: run_inner_def gbind_def\<close>)
    then show ?thesis using run_effect_extend [OF m] by blast
  next
    case True
    then have u': "op_upsert_active_seen_batch I run hs now s = (Inr (), s2)" using u by simp
    have sw: "run_effect cfg mode live now True s s3" unfolding Inr by (rule swept_phase(1) [OF ok u' f])
    obtain d' s4 where h: "(if mode = SweepHard then sweep_hard I cfg now (case f of Inr d \<Rightarrow> d | Inl _ \<Rightarrow> ?d) s3
        else (Inr (case f of Inr d \<Rightarrow> d | Inl _ \<Rightarrow> ?d), s3)) = (d', s4)" by fastforce
    have e4: "run_effect cfg mode live now True s s4"
      using h sw hard_swept_phase [OF ok u' f _ grace] Inr by (auto split: if_splits)
    then have ok4: "ok s4" by (simp add: run_effect_def)
    obtain a s5 where a: "op_apply_delta I run (case d' of Inr d \<Rightarrow> d | Inl _ \<Rightarrow> ?d) s4 = (a, s5)" by fastforce
    have "s' = s3 \<or> s' = s4 \<or> s' = s5" using run True Inr u f h a
      by (cases f; cases d'; cases a) (auto simp: run_inner_def gbind_def Let_def split: if_splits)
    moreover have "run_effect cfg mode live now True s s5" by (rule run_effect_extend [OF e4]) (use apply_delta [OF ok4 a] in simp_all)
    ultimately have e: "run_effect cfg mode live now True s s'" using sw e4 by blast
    then have "ok s'" by (simp add: run_effect_def)
    then show ?thesis using run_effect_extend [OF e] by blast
  qed
qed

lemma run_once_effect:
  assumes ok: "ok s" and grace: "tick (now - grace_window cfg) < tick now"
    and run: "run_new_coordinator_once I live mode cfg now s = (r, s')"
  shows "run_effect cfg mode live now (\<exists>x. r = Inr x) s s'"
proof -
  obtain a s1 where a: "op_start_run I mode now s = (a, s1)" by fastforce
  note st = start_run [OF ok a]
  show ?thesis
  proof (cases a)
    case (Inl er)
    then have "r = Inl er" "s' = s1" using run a by (auto simp: run_new_coordinator_once_def run_once_def gbind_def)
    then show ?thesis using run_effect_quiet [of s1 s] st by simp
  next
    case (Inr run_id)
    obtain q s2 where q: "run_inner I (\<lambda>s. (live, s)) cfg run_id mode now s1 = (q, s2)" by fastforce
    note e = run_inner_effect [OF _ grace q]
    obtain b s3 where b: "op_finish_run I run_id (case q of Inr _ \<Rightarrow> Succeeded | Inl _ \<Rightarrow> Failed) now s2 = (b, s3)" by fastforce
    have "r = q" "s' = s3" using run a Inr q b by (auto simp: run_new_coordinator_once_def run_once_def gbind_def Let_def)
    moreover have "ok s2" using e st by (auto simp: run_effect_def)
    ultimately show ?thesis
      using run_effect_extend [OF run_effect_start [OF e], of s s3] finish_run [OF \<open>ok s2\<close> b] st by blast
  qed
qed

end

end
