(* ===== verification/Gc_Store.thy ===== *)
theory Gc_Store
  imports Gc Frontier
begin

text \<open>
  The stores the server gives to the coordinator: the SQLite inventory and run ledger
  (\<open>server/server/src/gc_store.rs\<close>), the objects on disk (\<open>gc_blob_objects.rs\<close>) and the static pins
  (\<open>gc_pin_store.rs\<close>). A table is the list of its rows; every statement and every removal of a file can
  fail, which the list \<open>w_faults\<close> of the coming failures decides.
\<close>

section \<open>Tables\<close>

record gc_row =
  gr_hash :: string
  gr_object_key :: string
  gr_bucket :: string
  gr_namespace :: string
  gr_first_seen_at :: int
  gr_last_seen_at :: int
  gr_state :: string
  gr_pending_delete_at :: "int option"
  gr_deleted_at :: "int option"
  gr_last_marked_run_id :: "string option"
  gr_mark_count :: int
  gr_size_bytes :: "int option"
  gr_content_type :: "string option"
  gr_is_admin_pinned :: int
  gr_pin_reason :: "string option"
  gr_updated_at :: int

record gc_run_row =
  rr_run_id :: string
  rr_mode :: string
  rr_started_at :: int
  rr_finished_at :: "int option"
  rr_status :: "string option"
  rr_marked_count :: int
  rr_newly_pending_count :: int
  rr_hard_deleted_count :: int
  rr_skipped_pinned_count :: int
  rr_error_count :: int
  rr_notes :: "string option"

record gc_world =
  w_assets :: "gc_row list"
  w_runs :: "gc_run_row list"
  w_files :: "string set"
  w_run_id_counter :: u64
  w_clock_millis :: nat
  w_faults :: "string option list"

definition fallible :: "gc_world \<Rightarrow> string option \<times> gc_world" where
  "fallible w = (case w_faults w of [] \<Rightarrow> (None, w) | f # fs \<Rightarrow> (f, w\<lparr>w_faults := fs\<rparr>))"

definition backend_call :: "(gc_world \<Rightarrow> 'a \<times> gc_world) \<Rightarrow> gc_world \<Rightarrow> 'a gc \<times> gc_world" where
  "backend_call f w =
     (case fallible w of
        (Some msg, w1) \<Rightarrow> (Inl (Backend msg), w1)
      | (None, w1) \<Rightarrow> map_prod Inr id (f w1))"

abbreviation execute_sql :: "(gc_world \<Rightarrow> gc_world) \<Rightarrow> gc_world \<Rightarrow> unit gc \<times> gc_world" where
  "execute_sql f \<equiv> backend_call (\<lambda>w. ((), f w))"

section \<open>Conversions\<close>

type_synonym key_scheme = "string \<Rightarrow> string \<times> string"

definition local_key_scheme :: key_scheme where
  "local_key_scheme h = (''local'', h)"

definition to_unix_millis :: "gc_time \<Rightarrow> int" where
  "to_unix_millis t = (if 0 \<le> t then t div 10 ^ 6 else - ((- t) div 10 ^ 6))"

definition from_unix_millis :: "int \<Rightarrow> gc_time" where
  "from_unix_millis ms = ms * 10 ^ 6"

definition state_from_str :: "string \<Rightarrow> asset_state" where
  "state_from_str s =
     (if s = ''Uploading'' then Uploading else if s = ''Grace'' then Grace else if s = ''SweepCandidate'' then SweepCandidate
      else if s = ''Pinned'' then Pinned else if s = ''PendingDelete'' then PendingDelete else if s = ''Deleted'' then Deleted
      else if s = ''Quarantined'' then Quarantined else Active)"

fun mode_to_str :: "gc_run_mode \<Rightarrow> string" where
  "mode_to_str DryRun = ''DryRun''"
| "mode_to_str MarkOnly = ''MarkOnly''"
| "mode_to_str SweepSoft = ''SweepSoft''"
| "mode_to_str SweepHard = ''SweepHard''"

fun status_to_str :: "gc_run_status \<Rightarrow> string" where
  "status_to_str Running = ''Running''"
| "status_to_str Succeeded = ''Succeeded''"
| "status_to_str Failed = ''Failed''"

definition generate_run_id :: "gc_world \<Rightarrow> string \<times> gc_world" where
  "generate_run_id w =
     (''gc-'' @ digits_of 10 (w_clock_millis w) @ ''-'' @ digits_of 16 (unat (w_run_id_counter w)),
      w\<lparr>w_run_id_counter := w_run_id_counter w + 1\<rparr>)"

definition row_to_record :: "gc_row \<Rightarrow> asset_record" where
  "row_to_record r = \<lparr>ar_hash = gr_hash r, ar_object_key = gr_object_key r, ar_bucket = gr_bucket r, ar_namespace = gr_namespace r,
     ar_first_seen_at = from_unix_millis (gr_first_seen_at r), ar_last_seen_at = from_unix_millis (gr_last_seen_at r),
     ar_state = state_from_str (gr_state r), ar_pending_delete_at = map_option from_unix_millis (gr_pending_delete_at r),
     ar_deleted_at = map_option from_unix_millis (gr_deleted_at r), ar_last_marked_run_id = gr_last_marked_run_id r,
     ar_mark_count = word_of_int (max (gr_mark_count r) 0), ar_size_bytes = map_option (\<lambda>v. word_of_int (max v 0)) (gr_size_bytes r),
     ar_content_type = gr_content_type r, ar_is_admin_pinned = (gr_is_admin_pinned r \<noteq> 0), ar_pin_reason = gr_pin_reason r,
     ar_updated_at = from_unix_millis (gr_updated_at r)\<rparr>"

section \<open>Inventory\<close>

definition fresh_row :: "key_scheme \<Rightarrow> string \<Rightarrow> int \<Rightarrow> string \<Rightarrow> gc_row" where
  "fresh_row ks run_id now_ms h = \<lparr>gr_hash = h, gr_object_key = snd (ks h), gr_bucket = fst (ks h), gr_namespace = ''blobs'',
     gr_first_seen_at = now_ms, gr_last_seen_at = now_ms, gr_state = ''Active'', gr_pending_delete_at = None, gr_deleted_at = None,
     gr_last_marked_run_id = Some run_id, gr_mark_count = 1, gr_size_bytes = None, gr_content_type = None, gr_is_admin_pinned = 0,
     gr_pin_reason = None, gr_updated_at = now_ms\<rparr>"

definition seen_row :: "string \<Rightarrow> int \<Rightarrow> gc_row \<Rightarrow> gc_row" where
  "seen_row run_id now_ms r = r\<lparr>gr_last_seen_at := now_ms, gr_state := ''Active'', gr_pending_delete_at := None,
     gr_last_marked_run_id := Some run_id, gr_mark_count := gr_mark_count r + 1, gr_updated_at := now_ms\<rparr>"

definition update_where :: "string \<Rightarrow> (gc_row \<Rightarrow> gc_row) \<Rightarrow> gc_row list \<Rightarrow> gc_row list" where
  "update_where h f rows = map (\<lambda>r. if gr_hash r = h then f r else r) rows"

definition upsert_row :: "key_scheme \<Rightarrow> string \<Rightarrow> int \<Rightarrow> string \<Rightarrow> gc_row list \<Rightarrow> gc_row list" where
  "upsert_row ks run_id now_ms h rows =
     (if h \<in> gr_hash ` set rows then update_where h (seen_row run_id now_ms) rows else rows @ [fresh_row ks run_id now_ms h])"

definition upsert_active_seen :: "key_scheme \<Rightarrow> string \<Rightarrow> string \<Rightarrow> gc_time \<Rightarrow> gc_world \<Rightarrow> unit gc \<times> gc_world" where
  "upsert_active_seen ks run_id h now =
     execute_sql (\<lambda>w. w\<lparr>w_assets := upsert_row ks run_id (to_unix_millis now) h (w_assets w)\<rparr>)"

fun batch_rows :: "key_scheme \<Rightarrow> string \<Rightarrow> int \<Rightarrow> string list \<Rightarrow> gc_row list \<Rightarrow> gc_world \<Rightarrow> gc_row list gc \<times> gc_world" where
  "batch_rows ks run_id now_ms [] rows w = (Inr rows, w)"
| "batch_rows ks run_id now_ms (h # hs) rows w =
     gbind (execute_sql id w) (\<lambda>_. batch_rows ks run_id now_ms hs (upsert_row ks run_id now_ms h rows))"

definition upsert_active_seen_batch :: "key_scheme \<Rightarrow> string \<Rightarrow> string list \<Rightarrow> gc_time \<Rightarrow> gc_world \<Rightarrow> unit gc \<times> gc_world" where
  "upsert_active_seen_batch ks run_id hashes now w =
     (if hashes = [] then (Inr (), w)
      else gbind (execute_sql id w) (\<lambda>_ w1.
        gbind (execute_sql id w1) (\<lambda>_ w2.
        gbind (batch_rows ks run_id (to_unix_millis now) hashes (w_assets w2) w2) (\<lambda>rows.
        execute_sql (\<lambda>w. w\<lparr>w_assets := rows\<rparr>)))))"

definition select_assets :: "(gc_row \<Rightarrow> bool) \<Rightarrow> gc_world \<Rightarrow> asset_record list gc \<times> gc_world" where
  "select_assets p w =
     gbind (execute_sql id w) (\<lambda>_. backend_call (\<lambda>w1. (map row_to_record (filter p (w_assets w1)), w1)))"

definition iter_unmarked_candidates :: "string \<Rightarrow> gc_world \<Rightarrow> asset_record list gc \<times> gc_world" where
  "iter_unmarked_candidates run_id = select_assets (\<lambda>r. gr_state r \<noteq> ''Deleted'' \<and> gr_last_marked_run_id r \<noteq> Some run_id)"

definition iter_pending_older_than :: "gc_time \<Rightarrow> gc_world \<Rightarrow> asset_record list gc \<times> gc_world" where
  "iter_pending_older_than cutoff = select_assets (\<lambda>r. gr_state r = ''PendingDelete''
     \<and> (case gr_pending_delete_at r of None \<Rightarrow> False | Some p \<Rightarrow> p \<le> to_unix_millis cutoff))"

definition set_pending_delete :: "string \<Rightarrow> gc_time \<Rightarrow> gc_world \<Rightarrow> unit gc \<times> gc_world" where
  "set_pending_delete h at = execute_sql (\<lambda>w. w\<lparr>w_assets := update_where h
     (\<lambda>r. r\<lparr>gr_state := ''PendingDelete'', gr_pending_delete_at := Some (to_unix_millis at), gr_updated_at := to_unix_millis at\<rparr>) (w_assets w)\<rparr>)"

definition set_deleted :: "string \<Rightarrow> gc_time \<Rightarrow> gc_world \<Rightarrow> unit gc \<times> gc_world" where
  "set_deleted h at = execute_sql (\<lambda>w. w\<lparr>w_assets := update_where h
     (\<lambda>r. r\<lparr>gr_state := ''Deleted'', gr_deleted_at := Some (to_unix_millis at), gr_updated_at := to_unix_millis at\<rparr>) (w_assets w)\<rparr>)"

definition clear_pending_delete :: "string \<Rightarrow> gc_world \<Rightarrow> unit gc \<times> gc_world" where
  "clear_pending_delete h = execute_sql (\<lambda>w. w\<lparr>w_assets := update_where h
     (\<lambda>r. r\<lparr>gr_pending_delete_at := None, gr_state := ''Active''\<rparr>) (w_assets w)\<rparr>)"

section \<open>Run ledger\<close>

definition start_run :: "gc_run_mode \<Rightarrow> gc_time \<Rightarrow> gc_world \<Rightarrow> string gc \<times> gc_world" where
  "start_run mode started_at w =
     (let (run_id, w1) = generate_run_id w in
      backend_call (\<lambda>w2. (run_id, w2\<lparr>w_runs := w_runs w2 @ [\<lparr>rr_run_id = run_id, rr_mode = mode_to_str mode,
        rr_started_at = to_unix_millis started_at, rr_finished_at = None, rr_status = None, rr_marked_count = 0,
        rr_newly_pending_count = 0, rr_hard_deleted_count = 0, rr_skipped_pinned_count = 0, rr_error_count = 0, rr_notes = None\<rparr>]\<rparr>)) w1)"

definition update_run :: "string \<Rightarrow> (gc_run_row \<Rightarrow> gc_run_row) \<Rightarrow> gc_world \<Rightarrow> gc_world" where
  "update_run run_id f w = w\<lparr>w_runs := map (\<lambda>r. if rr_run_id r = run_id then f r else r) (w_runs w)\<rparr>"

definition apply_delta :: "string \<Rightarrow> gc_run_delta \<Rightarrow> gc_world \<Rightarrow> unit gc \<times> gc_world" where
  "apply_delta run_id delta = execute_sql (update_run run_id (\<lambda>r. r\<lparr>
     rr_marked_count := rr_marked_count r + sint (d_marked delta),
     rr_newly_pending_count := rr_newly_pending_count r + sint (d_newly_pending delta),
     rr_hard_deleted_count := rr_hard_deleted_count r + sint (d_hard_deleted delta),
     rr_skipped_pinned_count := rr_skipped_pinned_count r + sint (d_skipped_pinned delta),
     rr_error_count := rr_error_count r + sint (d_errors delta)\<rparr>))"

definition finish_run :: "string \<Rightarrow> gc_run_status \<Rightarrow> gc_time \<Rightarrow> gc_world \<Rightarrow> unit gc \<times> gc_world" where
  "finish_run run_id status finished_at = execute_sql (update_run run_id (\<lambda>r. r\<lparr>
     rr_finished_at := Some (to_unix_millis finished_at), rr_status := Some (status_to_str status), rr_notes := None\<rparr>))"

section \<open>Objects on disk\<close>

definition is_canonical_blob_name :: "string \<Rightarrow> bool" where
  "is_canonical_blob_name name \<longleftrightarrow> length name = 64
     \<and> list_all (\<lambda>c. let b = of_char c :: nat in 48 \<le> b \<and> b \<le> 57 \<or> 97 \<le> b \<and> b \<le> 102) name"

definition hash_from_hex :: "string \<Rightarrow> hash option" where
  "hash_from_hex s = (if \<not> is_canonical_blob_name s then None else parse_hex_hash s)"

definition blob_relative_path :: "hash \<Rightarrow> string" where
  "blob_relative_path h = ''blake3/'' @ hash_to_hex h"

definition blob_relative_encoded_path :: "hash \<Rightarrow> string" where
  "blob_relative_encoded_path h = ''blake3/'' @ hash_to_hex h @ ''.zst''"

definition paths_for :: "string \<Rightarrow> (string \<times> string) gc" where
  "paths_for key =
     (case hash_from_hex key of
        None \<Rightarrow> Inl (Backend (''object key '' @ [CHR 0x22] @ key @ [CHR 0x22] @ '' is not a canonical 64-lowercase-hex hash''))
      | Some h \<Rightarrow> Inr (''blobs/'' @ blob_relative_path h, ''blobs/'' @ blob_relative_encoded_path h))"

definition object_head :: "string \<Rightarrow> string \<Rightarrow> gc_world \<Rightarrow> bool gc \<times> gc_world" where
  "object_head bucket key w =
     (case paths_for key of
        Inl er \<Rightarrow> (Inl er, w)
      | Inr (identity, encoded) \<Rightarrow> (Inr (identity \<in> w_files w \<or> encoded \<in> w_files w), w))"

definition remove_if_file :: "string \<Rightarrow> gc_world \<Rightarrow> unit gc \<times> gc_world" where
  "remove_if_file path w =
     (if path \<in> w_files w then backend_call (\<lambda>w1. ((), w1\<lparr>w_files := w_files w1 - {path}\<rparr>)) w else (Inr (), w))"

definition object_delete :: "string \<Rightarrow> string \<Rightarrow> gc_world \<Rightarrow> unit gc \<times> gc_world" where
  "object_delete bucket key w =
     (case paths_for key of
        Inl er \<Rightarrow> (Inl er, w)
      | Inr (identity, encoded) \<Rightarrow> gbind (remove_if_file identity w) (\<lambda>_. remove_if_file encoded))"

section \<open>Pins\<close>

definition static_pins_new :: "string list \<Rightarrow> string set" where
  "static_pins_new pinned = set (map to_lowercase pinned)"

definition static_is_pinned :: "string set \<Rightarrow> string \<Rightarrow> bool" where
  "static_is_pinned pins h \<longleftrightarrow> to_lowercase h \<in> pins"

section \<open>The server's coordinator\<close>

definition server_gc :: "string set \<Rightarrow> gc_world gc_ops" where
  "server_gc pins = \<lparr>op_upsert_active_seen_batch = upsert_active_seen_batch local_key_scheme,
     op_iter_unmarked_candidates = iter_unmarked_candidates, op_iter_pending_older_than = iter_pending_older_than,
     op_set_pending_delete = set_pending_delete, op_set_deleted = set_deleted, op_start_run = start_run,
     op_apply_delta = apply_delta, op_finish_run = finish_run, op_is_pinned = (\<lambda>h w. (Inr (static_is_pinned pins h), w)),
     op_head = object_head, op_delete = object_delete\<rparr>"

section \<open>The contract holds\<close>

definition rows_ok :: "gc_row list \<Rightarrow> bool" where
  "rows_ok rows \<longleftrightarrow> distinct (map gr_hash rows) \<and> (\<forall>r \<in> set rows. local_key_scheme (gr_hash r) = (gr_bucket r, gr_object_key r))"

definition gc_ok :: "gc_world \<Rightarrow> bool" where
  "gc_ok w \<longleftrightarrow> rows_ok (w_assets w)"

definition row_view :: "gc_row \<Rightarrow> asset_view" where
  "row_view r = \<lparr>av_state = state_from_str (gr_state r), av_pending = gr_pending_delete_at r, av_mark = gr_last_marked_run_id r,
     av_admin = (gr_is_admin_pinned r \<noteq> 0)\<rparr>"

definition asset_row :: "gc_row list \<Rightarrow> string \<rightharpoonup> asset_view" where
  "asset_row rows = map_of (map (\<lambda>r. (gr_hash r, row_view r)) rows)"

definition blob_present :: "gc_world \<Rightarrow> string \<Rightarrow> bool" where
  "blob_present w h \<longleftrightarrow> fst (object_head ''local'' h w) = Inr True"

lemma asset_row_update:
  assumes "\<And>r. gr_hash (f r) = gr_hash r" "\<And>r. row_view (f r) = g (row_view r)"
  shows "asset_row (update_where h f rows) k = (if k = h then map_option g (asset_row rows h) else asset_row rows k)"
  by (induction rows) (auto simp: asset_row_def update_where_def assms)

lemma update_where_hashes: "(\<And>r. gr_hash (f r) = gr_hash r) \<Longrightarrow> map gr_hash (update_where h f rows) = map gr_hash rows"
  by (simp add: update_where_def)

lemma rows_ok_update:
  assumes "\<And>r. gr_hash (f r) = gr_hash r" "\<And>r. gr_bucket (f r) = gr_bucket r \<and> gr_object_key (f r) = gr_object_key r"
  shows "rows_ok rows \<Longrightarrow> rows_ok (update_where h f rows)"
  by (auto simp: rows_ok_def update_where_hashes assms) (auto simp: update_where_def assms)

lemma rows_ok_upsert: "rows_ok rows \<Longrightarrow> rows_ok (upsert_row local_key_scheme run t h rows)"
  by (auto simp: upsert_row_def seen_row_def intro!: rows_ok_update) (auto simp: rows_ok_def fresh_row_def)

lemma asset_row_Some: "asset_row rows h = None \<longleftrightarrow> h \<notin> gr_hash ` set rows"
  by (simp add: asset_row_def map_of_eq_None_iff image_image)

lemma asset_row_upsert:
  "asset_row (upsert_row ks run t h rows) k =
     (if k = h then Some (case asset_row rows h of
          Some v \<Rightarrow> v\<lparr>av_state := Active, av_pending := None, av_mark := Some run\<rparr>
        | None \<Rightarrow> \<lparr>av_state = Active, av_pending = None, av_mark = Some run, av_admin = False\<rparr>)
      else asset_row rows k)"
proof (cases "h \<in> gr_hash ` set rows")
  case True
  have u: "asset_row (update_where h (seen_row run t) rows) k = (if k = h
      then map_option (\<lambda>v. v\<lparr>av_state := Active, av_pending := None, av_mark := Some run\<rparr>) (asset_row rows h) else asset_row rows k)"
    by (rule asset_row_update) (simp_all add: seen_row_def row_view_def state_from_str_def)
  from True obtain v where "asset_row rows h = Some v" using asset_row_Some by fastforce
  with u True show ?thesis by (simp add: upsert_row_def)
next
  case False
  then have n: "asset_row rows h = None" by (simp add: asset_row_Some)
  have "asset_row (rows @ [fresh_row ks run t h]) k = (case asset_row rows k of Some v \<Rightarrow> Some v
      | None \<Rightarrow> if k = h then Some (row_view (fresh_row ks run t h)) else None)"
    by (auto simp: asset_row_def map_add_def fresh_row_def split: option.split)
  with n False show ?thesis by (auto simp: upsert_row_def row_view_def fresh_row_def state_from_str_def split: option.split)
qed

lemma backend_cases:
  assumes "backend_call f w = (r, w')"
  obtains (failed) er fs where "r = Inl er" "w' = w\<lparr>w_faults := fs\<rparr>"
  | (ok_call) x fs where "r = Inr x" "f (w\<lparr>w_faults := fs\<rparr>) = (x, w')"
proof (cases "w_faults w")
  case Nil
  then have "w\<lparr>w_faults := []\<rparr> = w" by simp
  then have f: "f (w\<lparr>w_faults := []\<rparr>) = f w" by (rule arg_cong)
  have "r = Inr (fst (f w))" "f w = (fst (f w), w')"
    using assms Nil by (auto simp: backend_call_def fallible_def map_prod_def split: prod.splits)
  then show ?thesis using f by (intro ok_call [of "fst (f w)" "[]"]) simp_all
next
  case (Cons f1 fs)
  then show ?thesis using assms failed ok_call
    by (cases f1) (auto simp: backend_call_def fallible_def map_prod_def split: prod.splits)
qed

text \<open>Worlds with the same inventory and files.\<close>

definition same_blobs :: "gc_world \<Rightarrow> gc_world \<Rightarrow> bool" where
  "same_blobs w w' \<longleftrightarrow> w_assets w' = w_assets w \<and> w_files w' = w_files w"

lemma same_blobs_fields:
  "same_blobs w w' \<Longrightarrow> gc_ok w' = gc_ok w" "same_blobs w w' \<Longrightarrow> asset_row (w_assets w') = asset_row (w_assets w)"
  "same_blobs w w' \<Longrightarrow> blob_present w' = blob_present w"
  by (auto simp: same_blobs_def gc_ok_def blob_present_def object_head_def fun_eq_iff split: sum.splits)

lemma same_blobs_trans: "same_blobs w w' \<Longrightarrow> same_blobs w' w'' \<Longrightarrow> same_blobs w w''"
  by (simp add: same_blobs_def)

lemma quiet_call:
  assumes "backend_call f w = (r, w')" "\<And>w x w'. f w = (x, w') \<Longrightarrow> same_blobs w w'"
  shows "same_blobs w w'"
  using assms(1)
proof (cases rule: backend_cases)
  case (ok_call x fs)
  then show ?thesis using assms(2) [of "w\<lparr>w_faults := fs\<rparr>"] by (simp add: same_blobs_def)
qed (simp add: same_blobs_def)

lemma select_law:
  assumes "select_assets p w = (r, w')"
  shows "same_blobs w w'" "r = Inr recs \<Longrightarrow> recs = map row_to_record (filter p (w_assets w))"
proof -
  obtain a w1 where a: "execute_sql id w = (a, w1)" by fastforce
  have s1: "same_blobs w w1" by (rule quiet_call [OF a]) (simp add: same_blobs_def)
  obtain b w2 where b: "backend_call (\<lambda>w1. (map row_to_record (filter p (w_assets w1)), w1)) w1 = (b, w2)" by fastforce
  have s2: "same_blobs w1 w2" by (rule quiet_call [OF b]) (simp add: same_blobs_def)
  show "same_blobs w w'" using assms a b s1 same_blobs_trans [OF s1 s2] by (cases a) (auto simp: select_assets_def gbind_def)
  assume r: "r = Inr recs"
  then have "b = Inr recs" using assms a b by (cases a) (auto simp: select_assets_def gbind_def)
  with b show "recs = map row_to_record (filter p (w_assets w))"
    by (cases rule: backend_cases) (use s1 in \<open>auto simp: same_blobs_def\<close>)
qed

lemma update_law:
  assumes "execute_sql (\<lambda>w. w\<lparr>w_assets := update_where h f (w_assets w)\<rparr>) w = (r, w')" "gc_ok w"
    and f: "\<And>r. gr_hash (f r) = gr_hash r" "\<And>r. row_view (f r) = g (row_view r)"
      "\<And>r. gr_bucket (f r) = gr_bucket r \<and> gr_object_key (f r) = gr_object_key r"
  shows "gc_ok w' \<and> blob_present w' = blob_present w \<and> (asset_row (w_assets w') = asset_row (w_assets w)
    \<or> (\<exists>v. asset_row (w_assets w) h = Some v \<and> asset_row (w_assets w') = (asset_row (w_assets w))(h \<mapsto> g v)))"
  using assms(1)
proof (cases rule: backend_cases)
  case (failed er fs)
  then have "same_blobs w w'" by (simp add: same_blobs_def)
  then show ?thesis using same_blobs_fields assms(2) by simp
next
  case (ok_call x fs)
  then have w': "w_assets w' = update_where h f (w_assets w)" "w_files w' = w_files w" by auto
  have "gc_ok w'" using assms(2) f by (simp add: gc_ok_def w' rows_ok_update)
  moreover have "blob_present w' = blob_present w" by (simp add: blob_present_def object_head_def w'(2) fun_eq_iff split: sum.split)
  moreover have "asset_row (w_assets w') = (asset_row (w_assets w))(h := map_option g (asset_row (w_assets w) h))"
    using asset_row_update [of f g h "w_assets w", OF f(1,2)] by (auto simp: w' fun_eq_iff)
  ultimately show ?thesis by (cases "asset_row (w_assets w) h") (auto simp: fun_upd_idem)
qed

lemma fold_upsert:
  "rows_ok rows \<Longrightarrow> rows_ok (fold (upsert_row local_key_scheme run t) hs rows)"
  "h \<notin> set hs \<Longrightarrow> asset_row (fold (upsert_row ks run t) hs rows) h = asset_row rows h"
  "h \<in> set hs \<Longrightarrow> \<exists>v. asset_row (fold (upsert_row ks run t) hs rows) h = Some v \<and> av_state v = Active \<and> av_mark v = Some run"
proof -
  show "rows_ok rows \<Longrightarrow> rows_ok (fold (upsert_row local_key_scheme run t) hs rows)"
    by (induction hs arbitrary: rows) (simp_all add: rows_ok_upsert)
  show other: "h \<notin> set hs \<Longrightarrow> asset_row (fold (upsert_row ks run t) hs rows) h = asset_row rows h" for hs rows
    by (induction hs arbitrary: rows) (simp_all add: asset_row_upsert)
  show "h \<in> set hs \<Longrightarrow> \<exists>v. asset_row (fold (upsert_row ks run t) hs rows) h = Some v \<and> av_state v = Active \<and> av_mark v = Some run"
  proof (induction hs arbitrary: rows)
    case (Cons h' hs)
    show ?case
    proof (cases "h \<in> set hs")
      case False
      with Cons.prems other [OF False] show ?thesis by (auto simp: asset_row_upsert split: option.split)
    qed (use Cons.IH in simp)
  qed simp
qed

lemma batch_rows_law:
  "batch_rows ks run t hs rows w = (r, w') \<Longrightarrow> same_blobs w w' \<and> (\<forall>rows'. r = Inr rows' \<longrightarrow> rows' = fold (upsert_row ks run t) hs rows)"
proof (induction hs arbitrary: rows w)
  case (Cons h hs)
  obtain a w1 where a: "execute_sql id w = (a, w1)" by fastforce
  have s1: "same_blobs w w1" by (rule quiet_call [OF a]) (simp add: same_blobs_def)
  show ?case
  proof (cases a)
    case (Inr x)
    then have "batch_rows ks run t hs (upsert_row ks run t h rows) w1 = (r, w')" using Cons.prems a by (simp add: gbind_def)
    from Cons.IH [OF this] show ?thesis using same_blobs_trans [OF s1] by simp
  qed (use Cons.prems a s1 in \<open>auto simp: gbind_def\<close>)
qed (auto simp: same_blobs_def)

lemma batch_law:
  assumes "upsert_active_seen_batch ks run hs now w = (r, w')"
  shows "(\<exists>er. r = Inl er) \<and> same_blobs w w' \<or> r = Inr () \<and> w_files w' = w_files w
    \<and> w_assets w' = fold (upsert_row ks run (to_unix_millis now)) hs (w_assets w)"
proof -
  obtain a w1 where a: "execute_sql id w = (a, w1)" by fastforce
  have s1: "same_blobs w w1" by (rule quiet_call [OF a]) (simp add: same_blobs_def)
  obtain b w2 where b: "execute_sql id w1 = (b, w2)" by fastforce
  have s2: "same_blobs w w2" by (rule same_blobs_trans [OF s1 quiet_call [OF b]]) (simp add: same_blobs_def)
  obtain c w3 where c: "batch_rows ks run (to_unix_millis now) hs (w_assets w2) w2 = (c, w3)" by fastforce
  note l = batch_rows_law [OF c]
  have s3: "same_blobs w w3" using same_blobs_trans [OF s2] l by blast
  obtain d w4 where d: "execute_sql (\<lambda>w. w\<lparr>w_assets := (case c of Inr rows \<Rightarrow> rows | Inl _ \<Rightarrow> [])\<rparr>) w3 = (d, w4)" by fastforce
  have r: "(hs = [] \<and> r = Inr () \<and> w' = w) \<or> (\<exists>er. r = Inl er \<and> w' \<in> {w1, w2, w3}) \<or> (\<exists>rows. c = Inr rows \<and> (r, w') = (d, w4))"
    using assms a b c d by (cases a; cases b; cases c) (auto simp: upsert_active_seen_batch_def gbind_def split: if_splits)
  then show ?thesis
  proof (elim disjE exE conjE)
    fix rows assume c': "c = Inr rows" and "(r, w') = (d, w4)"
    then have "execute_sql (\<lambda>w. w\<lparr>w_assets := rows\<rparr>) w3 = (r, w')" using d by simp
    then show ?thesis
    proof (cases rule: backend_cases)
      case (ok_call x fs)
      then have "w_assets w' = rows" "w_files w' = w_files w3" "r = Inr ()" by auto
      then show ?thesis using l c' s2 s3 by (simp add: same_blobs_def)
    qed (use s3 in \<open>simp add: same_blobs_def\<close>)
  qed (use s1 s2 s3 in auto)
qed

lemma canonical_char:
  assumes "let b = of_char c :: nat in 48 \<le> b \<and> b \<le> 57 \<or> 97 \<le> b \<and> b \<le> 102"
  shows "\<exists>n < 16. c = hex_char n"
proof -
  let ?b = "of_char c :: nat"
  have c: "c = char_of ?b" by simp
  from assms consider "48 \<le> ?b" "?b \<le> 57" | "97 \<le> ?b" "?b \<le> 102" by (auto simp: Let_def)
  then show ?thesis
  proof cases
    case 1
    then obtain n where n: "?b = 48 + n" using le_Suc_ex by blast
    then have "hex_char n = char_of (48 + n)" "n < 16" using 1 by (simp_all add: hex_char_def)
    then show ?thesis using c unfolding n by auto
  next
    case 2
    then obtain n where n: "?b = 97 + n" using le_Suc_ex by blast
    then have "hex_char (n + 10) = char_of (97 + n)" "n + 10 < 16" using 2 by (simp_all add: hex_char_def add.commute)
    then show ?thesis using c unfolding n by metis
  qed
qed

lemma hex_chars_bytes:
  "length s = 2 * n \<Longrightarrow> list_all (\<lambda>c. \<exists>n < 16. c = hex_char n) s \<Longrightarrow> \<exists>bs. length bs = n \<and> bytes_to_hex bs = s"
proof (induction n arbitrary: s)
  case (Suc n)
  have "length s = Suc (Suc (2 * n))" using Suc.prems(1) by simp
  then obtain c d t where s: "s = c # d # t" "length t = 2 * n" by (metis length_Suc_conv)
  with Suc.prems obtain i j where ij: "i < 16" "j < 16" "c = hex_char i" "d = hex_char j" by auto
  from Suc.IH [OF s(2)] Suc.prems s obtain bs where bs: "length bs = n" "bytes_to_hex bs = t" by auto
  define b where "b = 16 * i + j"
  have b: "b div 16 = i" "b mod 16 = j" "b < 256" using ij(1,2) by (simp_all add: b_def)
  then have "unat (word_of_nat b :: u8) = b" by (simp add: unat_of_nat)
  then have "hex_byte (word_of_nat b) = [c, d]" using ij b by (simp add: hex_byte_def)
  then have "bytes_to_hex (word_of_nat b # bs) = s" using bs s(1) by (simp add: bytes_to_hex_def)
  then show ?case using bs(1) by (intro exI [of _ "word_of_nat b # bs"]) simp
qed (simp add: bytes_to_hex_def)

lemma canonical_roundtrip:
  assumes "hash_from_hex s = Some h"
  shows "hash_to_hex h = s"
proof -
  have can: "is_canonical_blob_name s" "parse_hex_hash s = Some h" using assms by (simp_all add: hash_from_hex_def split: if_splits)
  then have "length s = 2 * 32" "list_all (\<lambda>c. \<exists>n < 16. c = hex_char n) s"
    by (auto simp: is_canonical_blob_name_def list_all_iff intro: canonical_char)
  from hex_chars_bytes [OF this] obtain bs where bs: "length bs = 32" "bytes_to_hex bs = s" by blast
  then have "h = of_be bs" using can by (auto simp: parse_hex_hash_def hex_pairs_bytes_to_hex split: if_splits)
  moreover have "be_bytes 32 (of_be bs :: hash) = bs" by (rule be_bytes_of_be) (use bs in simp_all)
  ultimately show ?thesis using bs by (simp add: hash_to_hex_def)
qed

lemma paths_of:
  assumes "paths_for k = Inr (i, z)"
  shows "i = ''blobs/blake3/'' @ k" "z = ''blobs/blake3/'' @ k @ ''.zst''" "length k = 64"
  using assms canonical_roundtrip [of k]
  by (auto simp: paths_for_def blob_relative_path_def blob_relative_encoded_path_def hash_from_hex_def is_canonical_blob_name_def
      split: option.splits if_splits)

lemma remove_law:
  assumes "remove_if_file p w = (r, w')"
  shows "w_assets w' = w_assets w" "w_files w' = w_files w \<or> w_files w' = w_files w - {p}"
proof -
  have "w_assets w' = w_assets w \<and> (w_files w' = w_files w \<or> w_files w' = w_files w - {p})"
  proof (cases "p \<in> w_files w")
    case True
    then have "backend_call (\<lambda>w1. ((), w1\<lparr>w_files := w_files w1 - {p}\<rparr>)) w = (r, w')" using assms by (simp add: remove_if_file_def)
    then show ?thesis by (cases rule: backend_cases) auto
  qed (use assms in \<open>simp add: remove_if_file_def\<close>)
  then show "w_assets w' = w_assets w" "w_files w' = w_files w \<or> w_files w' = w_files w - {p}" by blast+
qed

lemma delete_law:
  assumes "object_delete b k w = (r, w')"
  shows "w_assets w' = w_assets w" "blob_present w' h \<Longrightarrow> blob_present w h" "h \<noteq> k \<Longrightarrow> blob_present w' h = blob_present w h"
proof -
  have f: "w_assets w' = w_assets w \<and> w_files w' \<subseteq> w_files w
    \<and> (\<forall>i z. paths_for k = Inr (i, z) \<longrightarrow> w_files w \<subseteq> w_files w' \<union> {i, z}) \<and> (\<forall>er. paths_for k = Inl er \<longrightarrow> w' = w)"
  proof (cases "paths_for k")
    case (Inl er)
    then show ?thesis using assms by (simp add: object_delete_def)
  next
    case (Inr iz)
    obtain i z where iz: "iz = (i, z)" by fastforce
    obtain a w1 where a: "remove_if_file i w = (a, w1)" by fastforce
    obtain c w2 where c: "remove_if_file z w1 = (c, w2)" by fastforce
    have "w' = w1 \<or> w' = w2" using assms Inr iz a c by (cases a) (auto simp: object_delete_def gbind_def)
    then show ?thesis using remove_law [OF a] remove_law [OF c] Inr iz by auto
  qed
  show "w_assets w' = w_assets w" using f by blast
  have p: "blob_present w h \<longleftrightarrow> (\<exists>i z. paths_for h = Inr (i, z) \<and> (i \<in> w_files w \<or> z \<in> w_files w))" for w
    by (auto simp: blob_present_def object_head_def split: sum.splits prod.splits)
  show le: "blob_present w' h \<Longrightarrow> blob_present w h" using f unfolding p by blast
  assume "h \<noteq> k"
  have "blob_present w' h" if "blob_present w h"
  proof (cases "paths_for k")
    case (Inr iz)
    obtain i z where iz: "paths_for k = Inr (i, z)" using Inr by (cases iz) auto
    from that obtain i' z' where h: "paths_for h = Inr (i', z')" "i' \<in> w_files w \<or> z' \<in> w_files w" unfolding p by blast
    note q = paths_of [OF iz] paths_of [OF h(1)]
    have "i' \<noteq> i" "z' \<noteq> z" "i' \<noteq> z" "z' \<noteq> i" using q \<open>h \<noteq> k\<close> by (auto dest: arg_cong [of _ _ length])
    then show ?thesis using h f iz unfolding p by blast
  qed (use f that in auto)
  with le show "blob_present w' h = blob_present w h" by blast
qed

lemma blob_present_files: "w_files w' = w_files w \<Longrightarrow> blob_present w' = blob_present w"
  by (auto simp: blob_present_def object_head_def fun_eq_iff split: sum.splits)

lemma upsert_law:
  assumes ok: "gc_ok w" and u: "op_upsert_active_seen_batch (server_gc pins) run hs now w = (r, w')"
  shows "gc_ok w' \<and> blob_present w' = blob_present w \<and> (\<forall>h. h \<notin> set hs \<longrightarrow> asset_row (w_assets w') h = asset_row (w_assets w) h)
    \<and> (\<forall>h \<in> set hs. asset_row (w_assets w') h = asset_row (w_assets w) h
         \<or> (\<exists>v. asset_row (w_assets w') h = Some v \<and> av_state v = Active \<and> av_mark v = Some run))
    \<and> (\<forall>h \<in> set hs. r = Inr () \<longrightarrow> (\<exists>v. asset_row (w_assets w') h = Some v \<and> av_state v = Active \<and> av_mark v = Some run))"
proof -
  have "upsert_active_seen_batch local_key_scheme run hs now w = (r, w')" using u by (simp add: server_gc_def)
  from batch_law [OF this] show ?thesis
  proof (elim disjE conjE)
    assume "\<exists>er. r = Inl er" "same_blobs w w'"
    then show ?thesis using same_blobs_fields ok by auto
  next
    assume f: "w_files w' = w_files w" and a: "w_assets w' = fold (upsert_row local_key_scheme run (to_unix_millis now)) hs (w_assets w)"
    have "gc_ok w'" using fold_upsert(1) ok by (simp add: gc_ok_def a)
    then show ?thesis using fold_upsert(2,3) blob_present_files [OF f] by (simp add: a)
  qed
qed

lemma row_in: "rows_ok rows \<Longrightarrow> r \<in> set rows \<Longrightarrow> asset_row rows (gr_hash r) = Some (row_view r)"
  by (auto simp: rows_ok_def asset_row_def comp_def intro!: map_of_is_SomeI)

lemma unmarked_law:
  assumes ok: "gc_ok w" and u: "op_iter_unmarked_candidates (server_gc pins) run w = (r, w')"
  shows "gc_ok w' \<and> blob_present w' = blob_present w \<and> asset_row (w_assets w') = asset_row (w_assets w)
    \<and> (\<forall>recs rec. r = Inr recs \<longrightarrow> rec \<in> set recs \<longrightarrow>
         (\<exists>v. asset_row (w_assets w) (ar_hash rec) = Some v \<and> av_mark v \<noteq> Some run \<and> av_admin v = ar_is_admin_pinned rec))"
proof -
  note l = select_law [OF u [simplified server_gc_def gc_ops.simps iter_unmarked_candidates_def]]
  have "\<exists>v. asset_row (w_assets w) (ar_hash rec) = Some v \<and> av_mark v \<noteq> Some run \<and> av_admin v = ar_is_admin_pinned rec"
    if "r = Inr recs" "rec \<in> set recs" for recs rec
    using l(2) [OF that(1)] that(2) row_in ok by (auto simp: gc_ok_def row_to_record_def row_view_def)
  then show ?thesis using same_blobs_fields [OF l(1)] ok by simp
qed

lemma pending_law:
  assumes ok: "gc_ok w" and u: "op_iter_pending_older_than (server_gc pins) cutoff w = (r, w')"
  shows "gc_ok w' \<and> blob_present w' = blob_present w \<and> asset_row (w_assets w') = asset_row (w_assets w)
    \<and> (\<forall>recs rec. r = Inr recs \<longrightarrow> rec \<in> set recs \<longrightarrow> local_key_scheme (ar_hash rec) = (ar_bucket rec, ar_object_key rec)
         \<and> (\<exists>v p. asset_row (w_assets w) (ar_hash rec) = Some v \<and> av_state v = PendingDelete \<and> av_pending v = Some p
              \<and> p \<le> to_unix_millis cutoff \<and> av_admin v = ar_is_admin_pinned rec))"
proof -
  note l = select_law [OF u [simplified server_gc_def gc_ops.simps iter_pending_older_than_def]]
  have "local_key_scheme (ar_hash rec) = (ar_bucket rec, ar_object_key rec)
      \<and> (\<exists>v p. asset_row (w_assets w) (ar_hash rec) = Some v \<and> av_state v = PendingDelete \<and> av_pending v = Some p
           \<and> p \<le> to_unix_millis cutoff \<and> av_admin v = ar_is_admin_pinned rec)"
    if rs: "r = Inr recs" "rec \<in> set recs" for recs rec
  proof -
    from l(2) [OF rs(1)] rs(2) obtain x where x: "x \<in> set (w_assets w)" "rec = row_to_record x" "gr_state x = ''PendingDelete''"
      "case gr_pending_delete_at x of None \<Rightarrow> False | Some p \<Rightarrow> p \<le> to_unix_millis cutoff" by auto
    have "asset_row (w_assets w) (gr_hash x) = Some (row_view x)" using row_in x(1) ok by (simp add: gc_ok_def)
    then show ?thesis using x ok
      by (auto simp: gc_ok_def rows_ok_def row_to_record_def row_view_def state_from_str_def split: option.splits)
  qed
  then show ?thesis using same_blobs_fields [OF l(1)] ok by simp
qed

lemma set_pending_law:
  assumes ok: "gc_ok w" and u: "op_set_pending_delete (server_gc pins) h now w = (r, w')"
  shows "gc_ok w' \<and> blob_present w' = blob_present w \<and> (asset_row (w_assets w') = asset_row (w_assets w)
    \<or> (\<exists>v. asset_row (w_assets w) h = Some v
         \<and> asset_row (w_assets w') = (asset_row (w_assets w))(h \<mapsto> v\<lparr>av_state := PendingDelete, av_pending := Some (to_unix_millis now)\<rparr>)))"
  by (rule update_law [OF u [simplified server_gc_def gc_ops.simps set_pending_delete_def] ok])
    (simp_all add: row_view_def state_from_str_def)

lemma set_deleted_law:
  assumes ok: "gc_ok w" and u: "op_set_deleted (server_gc pins) h now w = (r, w')"
  shows "gc_ok w' \<and> blob_present w' = blob_present w \<and> (asset_row (w_assets w') = asset_row (w_assets w)
    \<or> (\<exists>v. asset_row (w_assets w) h = Some v \<and> asset_row (w_assets w') = (asset_row (w_assets w))(h \<mapsto> v\<lparr>av_state := Deleted\<rparr>)))"
  by (rule update_law [OF u [simplified server_gc_def gc_ops.simps set_deleted_def] ok])
    (simp_all add: row_view_def state_from_str_def)

lemma start_law:
  assumes "op_start_run (server_gc pins) mode now w = (r, w')"
  shows "same_blobs w w'"
proof -
  have "start_run mode now w = (r, w')" using assms by (simp add: server_gc_def)
  then have "same_blobs (snd (generate_run_id w)) w'"
    unfolding start_run_def Let_def split_beta by (rule quiet_call) (auto simp: same_blobs_def)
  then show ?thesis by (simp add: generate_run_id_def same_blobs_def)
qed

lemma run_update_law:
  assumes "execute_sql (update_run run f) w = (r, w')"
  shows "same_blobs w w'"
  using assms by (rule quiet_call) (auto simp: update_run_def same_blobs_def)

lemma ledger_law:
  "op_apply_delta (server_gc pins) run delta w = (r, w') \<Longrightarrow> same_blobs w w'"
  "op_finish_run (server_gc pins) run st now w = (r, w') \<Longrightarrow> same_blobs w w'"
  by (simp_all add: server_gc_def apply_delta_def finish_run_def run_update_law)

lemma check_law:
  "op_is_pinned (server_gc pins) h w = (r1, w') \<Longrightarrow> same_blobs w w'"
  "op_head (server_gc pins) b k w = (r1, w') \<Longrightarrow> same_blobs w w'"
  by (auto simp: server_gc_def same_blobs_def object_head_def split: sum.splits prod.splits)

lemma same_blobs_quiet:
  "gc_ok w \<Longrightarrow> same_blobs w w' \<Longrightarrow> gc_ok w' \<and> blob_present w' = blob_present w \<and> asset_row (w_assets w') = asset_row (w_assets w)"
  using same_blobs_fields by simp

interpretation gc: gc_contract "server_gc pins" gc_ok "\<lambda>w. asset_row (w_assets w)" blob_present "static_is_pinned pins"
  local_key_scheme to_unix_millis
proof unfold_locales
  fix h now w and r :: "unit gc" and w'
  assume ok: "gc_ok w"
  show "op_set_pending_delete (server_gc pins) h now w = (r, w') \<Longrightarrow> gc_ok w' \<and> blob_present w' = blob_present w
      \<and> (asset_row (w_assets w') = asset_row (w_assets w) \<or> (\<exists>v. asset_row (w_assets w) h = Some v
        \<and> asset_row (w_assets w') = (asset_row (w_assets w))(h \<mapsto> v\<lparr>av_state := PendingDelete, av_pending := Some (to_unix_millis now)\<rparr>)))"
    by (rule set_pending_law [OF ok])
  show "op_set_deleted (server_gc pins) h now w = (r, w') \<Longrightarrow> gc_ok w' \<and> blob_present w' = blob_present w
      \<and> (asset_row (w_assets w') = asset_row (w_assets w) \<or> (\<exists>v. asset_row (w_assets w) h = Some v
        \<and> asset_row (w_assets w') = (asset_row (w_assets w))(h \<mapsto> v\<lparr>av_state := Deleted\<rparr>)))"
    by (rule set_deleted_law [OF ok])
next
  fix b k w and r :: "unit gc" and w' h0
  assume ok: "gc_ok w" and d: "op_delete (server_gc pins) b k w = (r, w')" "local_key_scheme h0 = (b, k)"
  have "object_delete b k w = (r, w')" "h0 = k" using d by (simp_all add: server_gc_def local_key_scheme_def)
  note l = delete_law [OF this(1)]
  show "gc_ok w' \<and> asset_row (w_assets w') = asset_row (w_assets w) \<and> (\<forall>h. blob_present w' h \<longrightarrow> blob_present w h)
    \<and> (\<forall>h. h \<noteq> h0 \<longrightarrow> blob_present w' h = blob_present w h)"
    using l ok \<open>h0 = k\<close> by (simp add: gc_ok_def)
next
  fix h w and r1 :: "bool gc" and w'
  assume ok: "gc_ok w" and p: "op_is_pinned (server_gc pins) h w = (r1, w')"
  show "gc_ok w' \<and> blob_present w' = blob_present w \<and> asset_row (w_assets w') = asset_row (w_assets w)
    \<and> (\<forall>b. r1 = Inr b \<longrightarrow> b = static_is_pinned pins h)"
    using same_blobs_quiet [OF ok check_law(1) [OF p]] p by (auto simp: server_gc_def)
qed ((erule (1) upsert_law unmarked_law pending_law) | (erule same_blobs_quiet, erule start_law ledger_law check_law))+

end
