(* ===== verification/Gc_Props.thy ===== *)
theory Gc_Props
  imports Gc_Store
begin

text \<open>
  Histories of the server's garbage collector: runs of the coordinator and uploads
  (\<open>server/server/src/blob_http.rs\<close>), and what they guarantee for a stored blob.
\<close>

section \<open>Histories\<close>

definition UPLOAD_MARK_SENTINEL :: string where
  "UPLOAD_MARK_SENTINEL = ''upload''"

definition mark_upload_active :: "string \<Rightarrow> gc_time \<Rightarrow> gc_world \<Rightarrow> unit gc \<times> gc_world" where
  "mark_upload_active hash_hex now = upsert_active_seen local_key_scheme UPLOAD_MARK_SENTINEL hash_hex now"

text \<open>A run with its live set, or an upload that stored the file at a path and marked its hash.\<close>

datatype gc_event = Tick gc_run_mode "string list gc" gc_time | Upload string string gc_time

fun gc_event_step :: "string set \<Rightarrow> coordinator_config \<Rightarrow> gc_event \<Rightarrow> gc_world \<Rightarrow> bool \<times> gc_world" where
  "gc_event_step pins cfg (Tick mode live now) w =
     (case run_new_coordinator_once (server_gc pins) live mode cfg now w of (r, w') \<Rightarrow> (\<not> isl r, w'))"
| "gc_event_step pins cfg (Upload path h now) w =
     (case mark_upload_active h now (w\<lparr>w_files := insert path (w_files w)\<rparr>) of (r, w') \<Rightarrow> (\<not> isl r, w'))"

fun gc_history :: "string set \<Rightarrow> coordinator_config \<Rightarrow> gc_event list \<Rightarrow> gc_world \<Rightarrow> (gc_event \<times> bool) list \<times> gc_world" where
  "gc_history pins cfg [] w = ([], w)"
| "gc_history pins cfg (ev # evs) w =
     (let (ok, w1) = gc_event_step pins cfg ev w; (hist, w2) = gc_history pins cfg evs w1 in ((ev, ok) # hist, w2))"

text \<open>An event that succeeded and named the hash as used.\<close>

fun protects :: "string \<Rightarrow> gc_event \<times> bool \<Rightarrow> bool" where
  "protects h (Tick mode (Inr live) now, ok) = (ok \<and> h \<in> set live)"
| "protects h (Tick mode (Inl er) now, ok) = False"
| "protects h (Upload path h' now, ok) = (ok \<and> h' = h)"

text \<open>A run, at a time of tick \<open>p\<close>, whose live set lacks the hash, and nothing that protects the hash after it.\<close>

definition unused_since :: "string \<Rightarrow> int \<Rightarrow> (gc_event \<times> bool) list \<Rightarrow> bool" where
  "unused_since h p hist \<longleftrightarrow> (\<exists>pre mode live now ok post. hist = pre @ (Tick mode (Inr live) now, ok) # post
     \<and> h \<notin> set live \<and> to_unix_millis now = p \<and> (\<forall>ev \<in> set post. \<not> protects h ev))"

lemma unused_since_snoc: "unused_since h p hist \<Longrightarrow> \<not> protects h ev \<Longrightarrow> unused_since h p (hist @ [ev])"
  unfolding unused_since_def by (elim exE conjE) (rule exI, rule exI, rule exI, rule exI, rule exI, rule exI, rule conjI, simp, auto)

lemma unused_since_now: "h \<notin> set live \<Longrightarrow> unused_since h (to_unix_millis now) (hist @ [(Tick mode (Inr live) now, ok)])"
  unfolding unused_since_def by (intro exI [of _ hist] exI [of _ "[]"]) auto

lemma tick_strict: "2 * 10 ^ 6 \<le> g \<Longrightarrow> to_unix_millis (t - g) < to_unix_millis t"
  unfolding to_unix_millis_def by (auto split: if_splits)

section \<open>The invariant of histories\<close>

definition history_inv :: "(gc_event \<times> bool) list \<Rightarrow> gc_world \<Rightarrow> bool" where
  "history_inv hist w \<longleftrightarrow> gc_ok w \<and> (\<forall>h p. pending_at (asset_row (w_assets w) h) p \<longrightarrow> unused_since h p hist)"

lemma upload_law:
  assumes "mark_upload_active h now w = (r, w')" "gc_ok w"
  shows "gc_ok w'" "pending_at (asset_row (w_assets w') k) p \<Longrightarrow> pending_at (asset_row (w_assets w) k) p \<and> (k = h \<longrightarrow> (\<exists>er. r = Inl er))"
proof -
  have "execute_sql (\<lambda>w. w\<lparr>w_assets := upsert_row local_key_scheme UPLOAD_MARK_SENTINEL (to_unix_millis now) h (w_assets w)\<rparr>) w = (r, w')"
    using assms(1) by (simp add: mark_upload_active_def upsert_active_seen_def)
  then have "gc_ok w' \<and> (pending_at (asset_row (w_assets w') k) p \<longrightarrow> pending_at (asset_row (w_assets w) k) p \<and> (k = h \<longrightarrow> (\<exists>er. r = Inl er)))"
  proof (cases rule: backend_cases)
    case (ok_call x fs)
    then have "w_assets w' = upsert_row local_key_scheme UPLOAD_MARK_SENTINEL (to_unix_millis now) h (w_assets w)" by auto
    then show ?thesis using assms(2) rows_ok_upsert by (auto simp: gc_ok_def asset_row_upsert pending_at_def split: option.splits)
  qed (use assms(2) in \<open>auto simp: gc_ok_def\<close>)
  then show "gc_ok w'" "pending_at (asset_row (w_assets w') k) p \<Longrightarrow> pending_at (asset_row (w_assets w) k) p \<and> (k = h \<longrightarrow> (\<exists>er. r = Inl er))"
    by blast+
qed

lemma succeeded_iff: "\<not> isl r \<longleftrightarrow> (\<exists>x. r = Inr x)"
  by (cases r) auto

lemma history_inv_step:
  assumes "history_inv hist w" "gc_event_step pins cfg ev w = (ok, w')" "2 * 10 ^ 6 \<le> grace_window cfg"
  shows "history_inv (hist @ [(ev, ok)]) w'"
proof (cases ev)
  case (Tick mode live now)
  obtain r where r: "run_new_coordinator_once (server_gc pins) live mode cfg now w = (r, w')" "ok = (\<exists>x. r = Inr x)"
    using assms(2) by (auto simp: Tick succeeded_iff split: prod.splits)
  have "gc_ok w" using assms(1) by (simp add: history_inv_def)
  from gc.run_once_effect [OF this tick_strict [OF assms(3)] r(1)] have e: "gc.run_effect pins cfg mode live now ok w w'" by (simp add: r(2))
  have "unused_since h p (hist @ [(ev, ok)])" if p: "pending_at (asset_row (w_assets w') h) p" for h p
  proof (cases "pending_at (asset_row (w_assets w) h) p \<and> (ok \<longrightarrow> (\<exists>hs. live = Inr hs \<and> h \<notin> set hs))")
    case True
    then have "unused_since h p hist" using assms(1) by (simp add: history_inv_def)
    moreover have "\<not> protects h (ev, ok)" using True by (cases live) (auto simp: Tick)
    ultimately show ?thesis by (rule unused_since_snoc)
  next
    case False
    with e p obtain hs where "p = to_unix_millis now" "live = Inr hs" "h \<notin> set hs" unfolding gc.run_effect_def by blast
    then show ?thesis using unused_since_now by (simp add: Tick)
  qed
  moreover have "gc_ok w'" using e unfolding gc.run_effect_def by blast
  ultimately show ?thesis by (simp add: history_inv_def)
next
  case (Upload path k now)
  obtain r where r: "mark_upload_active k now (w\<lparr>w_files := insert path (w_files w)\<rparr>) = (r, w')" "ok = (\<exists>x. r = Inr x)"
    using assms(2) by (auto simp: Upload succeeded_iff split: prod.splits)
  have "gc_ok (w\<lparr>w_files := insert path (w_files w)\<rparr>)" using assms(1) by (simp add: history_inv_def gc_ok_def)
  note u = upload_law [OF r(1) this]
  have "unused_since h p (hist @ [(ev, ok)])" if "pending_at (asset_row (w_assets w') h) p" for h p
  proof (rule unused_since_snoc)
    show "unused_since h p hist" using u(2) [OF that] assms(1) by (simp add: history_inv_def)
    show "\<not> protects h (ev, ok)" using u(2) [OF that] r(2) by (auto simp: Upload)
  qed
  with u(1) show ?thesis by (simp add: history_inv_def)
qed

lemma history_inv_run:
  assumes "gc_history pins cfg evs w = (hist, w')" "history_inv hist0 w" "2 * 10 ^ 6 \<le> grace_window cfg"
  shows "history_inv (hist0 @ hist) w'"
  using assms(1,2)
proof (induction evs arbitrary: w hist hist0)
  case (Cons ev evs)
  obtain ok w1 where s: "gc_event_step pins cfg ev w = (ok, w1)" by fastforce
  obtain hist1 where h: "gc_history pins cfg evs w1 = (hist1, w')" "hist = (ev, ok) # hist1"
    using Cons.prems(1) s by (auto split: prod.splits)
  with Cons.IH [OF h(1), of "hist0 @ [(ev, ok)]"] history_inv_step [OF Cons.prems(2) s assms(3)] show ?case by simp
qed simp

section \<open>Safety\<close>

text \<open>C16: the collector deletes a blob only in a hard sweep, only when the blob is not pinned and not in the live set, and only
  when an earlier run, at least the grace window ago, found it unused and no successful run and no successful upload
  has named it since; whatever statements and file operations fail on the way. A run deletes at most the
  configured number of blobs.\<close>

theorem blob_deletion_safe:
  assumes "w_assets w0 = []" "gc_history pins cfg evs w0 = (hist, w)" "2 * 10 ^ 6 \<le> grace_window cfg"
    and "run_new_coordinator_once (server_gc pins) live mode cfg now w = (r, w')"
  shows "card {h. blob_present w h \<and> \<not> blob_present w' h} \<le> unat (max_deletes_per_run cfg)
    \<and> (\<forall>h. blob_present w h \<and> \<not> blob_present w' h \<longrightarrow> mode = SweepHard \<and> \<not> static_is_pinned pins h
         \<and> (\<exists>hs. live = Inr hs \<and> h \<notin> set hs)
         \<and> (\<exists>p. p \<le> to_unix_millis (now - grace_window cfg) \<and> unused_since h p hist))"
proof -
  have "history_inv [] w0" using assms(1) by (simp add: history_inv_def gc_ok_def rows_ok_def asset_row_def pending_at_def)
  from history_inv_run [OF assms(2) this assms(3)] have inv: "history_inv hist w" by simp
  then have "gc_ok w" by (simp add: history_inv_def)
  note e = gc.run_once_effect [OF this tick_strict [OF assms(3)] assms(4), unfolded gc.run_effect_def lost_objects_def]
  have unused: "unused_since h p hist" if "pending_at (asset_row (w_assets w) h) p" for h p
    using inv that by (simp add: history_inv_def)
  show ?thesis
  proof (rule conjI)
    show "card {h. blob_present w h \<and> \<not> blob_present w' h} \<le> unat (max_deletes_per_run cfg)" using e by (elim conjE)
  qed (use e unused in fastforce)
qed

definition sample_blob :: string where
  "sample_blob = replicate 64 CHR ''0''"

definition sample_gc_cfg :: coordinator_config where
  "sample_gc_cfg = \<lparr>grace_window = 2 * 10 ^ 6, max_deletes_per_run = 1, require_head_before_delete = True\<rparr>"

definition sample_gc_world :: gc_world where
  "sample_gc_world = \<lparr>w_assets = [], w_runs = [], w_files = {}, w_run_id_counter = 0, w_clock_millis = 7, w_faults = []\<rparr>"

definition sample_gc_events :: "gc_event list" where
  "sample_gc_events = [Upload (''blobs/blake3/'' @ sample_blob) sample_blob 0, Tick SweepSoft (Inr []) (10 ^ 6)]"

lemma sample_paths:
  "paths_for sample_blob = Inr (''blobs/blake3/'' @ sample_blob, ''blobs/blake3/'' @ sample_blob @ ''.zst'')"
proof -
  have c: "is_canonical_blob_name sample_blob" by (simp add: is_canonical_blob_name_def sample_blob_def list_all_iff)
  then have "length sample_blob = 2 * 32" "list_all (\<lambda>c. \<exists>n < 16. c = hex_char n) sample_blob"
    by (auto simp: is_canonical_blob_name_def list_all_iff intro: canonical_char)
  from hex_chars_bytes [OF this] obtain bs where bs: "length bs = 32" "bytes_to_hex bs = sample_blob" by blast
  then have "hex_pairs sample_blob = Some bs" using hex_pairs_bytes_to_hex [of bs] by simp
  then have "hash_from_hex sample_blob = Some (of_be bs)" using c by (simp add: hash_from_hex_def parse_hex_hash_def is_canonical_blob_name_def)
  with canonical_roundtrip [OF this] show ?thesis
    by (simp add: paths_for_def blob_relative_path_def blob_relative_encoded_path_def)
qed

definition sample_row :: "string \<Rightarrow> gc_row" where
  "sample_row st = \<lparr>gr_hash = sample_blob, gr_object_key = sample_blob, gr_bucket = ''local'', gr_namespace = ''blobs'',
     gr_first_seen_at = 0, gr_last_seen_at = 0, gr_state = st, gr_pending_delete_at = (if st = ''Active'' then None else Some 1),
     gr_deleted_at = (if st = ''Deleted'' then Some 10 else None), gr_last_marked_run_id = Some ''upload'', gr_mark_count = 1,
     gr_size_bytes = None, gr_content_type = None, gr_is_admin_pinned = 0, gr_pin_reason = None,
     gr_updated_at = (if st = ''Active'' then 0 else if st = ''Deleted'' then 10 else 1)\<rparr>"

lemma sample_upload:
  "mark_upload_active sample_blob 0 (sample_gc_world\<lparr>w_files := {p}\<rparr>) = (Inr (), sample_gc_world\<lparr>w_files := {p}, w_assets := [sample_row ''Active'']\<rparr>)"
  by (simp add: mark_upload_active_def upsert_active_seen_def backend_call_def fallible_def sample_gc_world_def upsert_row_def
      fresh_row_def local_key_scheme_def to_unix_millis_def UPLOAD_MARK_SENTINEL_def sample_row_def)

lemmas gc_run_defs = run_new_coordinator_once_def run_once_def run_inner_def gbind_def server_gc_def upsert_active_seen_batch_def
  sweep_soft_def iter_unmarked_candidates_def select_assets_def backend_call_def fallible_def start_run_def apply_delta_def
  finish_run_def update_run_def generate_run_id_def protected_by_pin_def static_is_pinned_def set_pending_delete_def
  update_where_def sweep_hard_def checked_sub_time_def iter_pending_older_than_def set_deleted_def object_head_def
  object_delete_def remove_if_file_def row_to_record_def state_from_str_def to_unix_millis_def from_unix_millis_def Let_def

lemma sample_soft:
  assumes "w_assets w = [sample_row ''Active'']" "w_faults w = []"
  shows "\<exists>d w'. run_new_coordinator_once (server_gc {}) (Inr []) SweepSoft sample_gc_cfg (10 ^ 6) w = (Inr d, w')
    \<and> w_assets w' = [sample_row ''PendingDelete''] \<and> w_files w' = w_files w \<and> w_faults w' = []"
  using assms by (simp add: gc_run_defs sample_row_def)

lemma sample_hard:
  assumes "w_assets w = [sample_row ''PendingDelete'']" "w_faults w = []" "w_files w = {''blobs/blake3/'' @ sample_blob}"
  shows "\<not> blob_present (snd (run_new_coordinator_once (server_gc {}) (Inr []) SweepHard sample_gc_cfg (10 ^ 7) w)) sample_blob"
  using assms by (simp add: gc_run_defs sample_row_def sample_gc_cfg_def sample_paths blob_present_def)

theorem blob_deletion_safe_witness:
  "\<exists>hist w p. gc_history {} sample_gc_cfg sample_gc_events sample_gc_world = (hist, w) \<and> blob_present w sample_blob
     \<and> \<not> blob_present (snd (run_new_coordinator_once (server_gc {}) (Inr []) SweepHard sample_gc_cfg (10 ^ 7) w)) sample_blob
     \<and> p \<le> 8 \<and> unused_since sample_blob p hist"
proof -
  let ?w1 = "sample_gc_world\<lparr>w_files := {''blobs/blake3/'' @ sample_blob}, w_assets := [sample_row ''Active'']\<rparr>"
  obtain d w where s: "run_new_coordinator_once (server_gc {}) (Inr []) SweepSoft sample_gc_cfg (10 ^ 6) ?w1 = (Inr d, w)"
    "w_assets w = [sample_row ''PendingDelete'']" "w_files w = {''blobs/blake3/'' @ sample_blob}" "w_faults w = []"
    using sample_soft [of ?w1] by (auto simp: sample_gc_world_def)
  obtain hist where h: "gc_history {} sample_gc_cfg sample_gc_events sample_gc_world = (hist, w)"
    using sample_upload [of "''blobs/blake3/'' @ sample_blob"] s(1) by (simp add: sample_gc_events_def sample_gc_world_def)
  let ?run = "run_new_coordinator_once (server_gc {}) (Inr []) SweepHard sample_gc_cfg (10 ^ 7) w"
  have p: "blob_present w sample_blob" by (simp add: blob_present_def object_head_def sample_paths s(3))
  have n: "\<not> blob_present (snd ?run) sample_blob" by (rule sample_hard [OF s(2,4,3)])
  have "w_assets sample_gc_world = []" "2 * 10 ^ 6 \<le> grace_window sample_gc_cfg" by (simp_all add: sample_gc_world_def sample_gc_cfg_def)
  from blob_deletion_safe [OF this(1) h this(2), of "Inr []" SweepHard "10 ^ 7" "fst ?run" "snd ?run"] p n
  obtain p' where "p' \<le> to_unix_millis (10 ^ 7 - grace_window sample_gc_cfg)" "unused_since sample_blob p' hist" by auto
  then show ?thesis using h p n by (auto simp: to_unix_millis_def sample_gc_cfg_def)
qed

section \<open>An upload during a hard sweep\<close>

lemma present_iff: "blob_present w h \<longleftrightarrow> (\<exists>i z. paths_for h = Inr (i, z) \<and> (i \<in> w_files w \<or> z \<in> w_files w))"
  by (auto simp: blob_present_def object_head_def split: sum.splits prod.splits)

lemma removed_file: "remove_if_file p w = (Inr (), w') \<Longrightarrow> p \<notin> w_files w'"
  by (cases "p \<in> w_files w") (auto simp: remove_if_file_def elim: backend_cases)

lemma deleted_object:
  assumes "object_delete b k w = (Inr (), w')"
  shows "\<not> blob_present w' k"
proof -
  from assms obtain i z where iz: "paths_for k = Inr (i, z)" by (auto simp: object_delete_def split: sum.splits)
  obtain a w1 where a: "remove_if_file i w = (a, w1)" by fastforce
  then have "a = Inr ()" "remove_if_file z w1 = (Inr (), w')" using assms iz by (cases a; auto simp: object_delete_def gbind_def)+
  then have "i \<notin> w_files w1" "z \<notin> w_files w'" "w_files w' \<subseteq> w_files w1" using removed_file a remove_law(2) by fastforce+
  then show ?thesis using iz by (auto simp: present_iff)
qed

lemma server_gc_ops:
  "op_is_pinned (server_gc pins) h w = (Inr (static_is_pinned pins h), w)" "op_head (server_gc pins) = object_head"
  "op_delete (server_gc pins) = object_delete"
  by (simp_all add: server_gc_def)

lemma hard_loop_step:
  assumes "sweep_hard_loop (server_gc pins) cfg now (rec # recs) remaining delta w = (Inr d, w')" "remaining \<noteq> 0" "gc_ok w"
    and l: "local_key_scheme (ar_hash rec) = (ar_bucket rec, ar_object_key rec)"
  shows "\<exists>rem2 delta2 w2. sweep_hard_loop (server_gc pins) cfg now recs rem2 delta2 w2 = (Inr d, w') \<and> gc_ok w2 \<and> remaining - 1 \<le> rem2
    \<and> (ar_is_admin_pinned rec \<or> static_is_pinned pins (ar_hash rec) \<or> \<not> blob_present w2 (ar_hash rec))"
proof (cases "ar_is_admin_pinned rec \<or> static_is_pinned pins (ar_hash rec)")
  case True
  have "remaining - 1 \<le> remaining" using assms(2) by (simp add: word_le_nat_alt unat_minus_one)
  moreover have "protected_by_pin (server_gc pins) rec w = (Inr True, w)" using True by (auto simp: protected_by_pin_def server_gc_ops)
  then have "sweep_hard_loop (server_gc pins) cfg now recs remaining (delta\<lparr>d_skipped_pinned := d_skipped_pinned delta + 1\<rparr>) w = (Inr d, w')"
    using assms(1,2) by (simp add: gbind_def)
  ultimately show ?thesis using assms(3) True by blast
next
  case False
  have k: "ar_object_key rec = ar_hash rec" using l by (simp add: local_key_scheme_def)
  have pin: "protected_by_pin (server_gc pins) rec w = (Inr False, w)" using False by (simp add: protected_by_pin_def server_gc_ops)
  show ?thesis
  proof (cases "require_head_before_delete cfg \<and> fst (object_head (ar_bucket rec) (ar_hash rec) w) = Inr False")
    case True
    then have absent: "\<not> blob_present w (ar_hash rec)" by (auto simp: blob_present_def object_head_def split: sum.splits prod.splits)
    have "op_head (server_gc pins) (ar_bucket rec) (ar_object_key rec) w = (Inr False, w)"
      using True by (auto simp: k server_gc_ops object_head_def split: sum.splits prod.splits)
    then obtain w2 where w2: "op_set_deleted (server_gc pins) (ar_hash rec) now w = (Inr (), w2)"
      "sweep_hard_loop (server_gc pins) cfg now recs remaining delta w2 = (Inr d, w')"
      using assms(1,2) True by (auto simp: pin gbind_def split: prod.splits sum.splits)
    note sd = set_deleted_law [OF assms(3) w2(1)]
    have "gc_ok w2" "\<not> blob_present w2 (ar_hash rec)" using sd absent by auto
    moreover have "remaining - 1 \<le> remaining" using assms(2) by (simp add: word_le_nat_alt unat_minus_one)
    ultimately show ?thesis using w2(2) by blast
  next
    case exists: False
    then obtain w1 w2 where w2: "object_delete (ar_bucket rec) (ar_hash rec) w = (Inr (), w1)" "op_set_deleted (server_gc pins) (ar_hash rec) now w1 = (Inr (), w2)"
      "sweep_hard_loop (server_gc pins) cfg now recs (remaining - 1) (delta\<lparr>d_hard_deleted := d_hard_deleted delta + 1\<rparr>) w2 = (Inr d, w')"
      using assms(1,2) by (auto simp: pin k gbind_def server_gc_ops object_head_def split: prod.splits sum.splits if_splits)
    have "gc_ok w1" using delete_law(1) [OF w2(1)] assms(3) by (simp add: gc_ok_def)
    note sd = set_deleted_law [OF this w2(2)]
    have "gc_ok w2" "\<not> blob_present w2 (ar_hash rec)" using sd deleted_object [OF w2(1)] by auto
    then show ?thesis using w2(3) by blast
  qed
qed

lemma hard_loop_removes:
  "sweep_hard_loop (server_gc pins) cfg now recs remaining delta w = (Inr d, w') \<Longrightarrow> gc_ok w \<Longrightarrow>
   \<forall>rec \<in> set recs. local_key_scheme (ar_hash rec) = (ar_bucket rec, ar_object_key rec) \<Longrightarrow> length recs \<le> unat remaining \<Longrightarrow>
   rec \<in> set recs \<Longrightarrow> \<not> ar_is_admin_pinned rec \<Longrightarrow> \<not> static_is_pinned pins (ar_hash rec) \<Longrightarrow> \<not> blob_present w' (ar_hash rec)"
proof (induction recs arbitrary: remaining delta w)
  case (Cons r recs)
  have nz: "remaining \<noteq> 0" using Cons.prems(4) by auto
  obtain rem2 delta2 w2 where s: "sweep_hard_loop (server_gc pins) cfg now recs rem2 delta2 w2 = (Inr d, w')" "gc_ok w2" "remaining - 1 \<le> rem2"
    "ar_is_admin_pinned r \<or> static_is_pinned pins (ar_hash r) \<or> \<not> blob_present w2 (ar_hash r)"
    using hard_loop_step [OF Cons.prems(1) nz Cons.prems(2)] Cons.prems(3) by auto
  have len: "length recs \<le> unat rem2"
    using s(3) nz Cons.prems(4) by (simp add: word_le_nat_alt unat_minus_one)
  have locs: "\<forall>rec \<in> set recs. local_key_scheme (ar_hash rec) = (ar_bucket rec, ar_object_key rec)" using Cons.prems(3) by auto
  show ?case
  proof (cases "rec \<in> set recs")
    case True
    then show ?thesis by (rule Cons.IH [OF s(1,2) locs len]) (use Cons.prems in simp_all)
  next
    case False
    then have "\<not> blob_present w2 (ar_hash rec)" using Cons.prems(5-7) s(4) by auto
    moreover have "gc.hard_effect pins recs (unat rem2) w2 w'" by (rule gc.hard_loop [OF s(2) locs s(1)])
    ultimately show ?thesis unfolding gc.hard_effect_def by blast
  qed
qed simp

text \<open>C39: an upload that lands while a hard sweep is under way is lost. The sweep lists its candidates once; when the
  upload of a listed blob is then confirmed, which makes its row active again, the sweep still deletes the object.\<close>

theorem upload_during_sweep_lost:
  assumes "gc_ok w" "iter_pending_older_than cutoff w = (Inr recs, w1)" "rec \<in> set recs"
    and "\<not> ar_is_admin_pinned rec" "\<not> static_is_pinned pins (ar_hash rec)"
    and "mark_upload_active (ar_hash rec) t w1 = (Inr (), w2)"
    and "length recs \<le> unat budget" "sweep_hard_loop (server_gc pins) cfg now recs budget delta w2 = (Inr d, w3)"
  shows "(\<exists>v. asset_row (w_assets w2) (ar_hash rec) = Some v \<and> av_state v = Active) \<and> \<not> blob_present w3 (ar_hash rec)"
proof -
  have "op_iter_pending_older_than (server_gc pins) cutoff w = (Inr recs, w1)" using assms(2) by (simp add: server_gc_def)
  note p = pending_law [OF assms(1) this]
  have u: "execute_sql (\<lambda>w. w\<lparr>w_assets := upsert_row local_key_scheme UPLOAD_MARK_SENTINEL (to_unix_millis t) (ar_hash rec) (w_assets w)\<rparr>) w1
      = (Inr (), w2)" using assms(6) by (simp add: mark_upload_active_def upsert_active_seen_def)
  have "w_assets w2 = upsert_row local_key_scheme UPLOAD_MARK_SENTINEL (to_unix_millis t) (ar_hash rec) (w_assets w1)"
    using u by (cases rule: backend_cases) auto
  then have "\<exists>v. asset_row (w_assets w2) (ar_hash rec) = Some v \<and> av_state v = Active"
    by (auto simp: asset_row_upsert split: option.split)
  moreover have "gc_ok w2" using upload_law(1) [OF assms(6)] p by blast
  ultimately show ?thesis using hard_loop_removes [OF assms(8) _ _ assms(7,3-5)] p by blast
qed

definition sample_swept_world :: gc_world where
  "sample_swept_world = sample_gc_world\<lparr>w_assets := [sample_row ''PendingDelete''], w_files := {''blobs/blake3/'' @ sample_blob}\<rparr>"

theorem upload_during_sweep_lost_witness:
  "\<exists>recs w1 w2 d w3. iter_pending_older_than (10 ^ 7) sample_swept_world = (Inr recs, w1)
     \<and> mark_upload_active sample_blob (10 ^ 7) w1 = (Inr (), w2) \<and> blob_present w2 sample_blob
     \<and> sweep_hard_loop (server_gc {}) sample_gc_cfg (10 ^ 7) recs 1 delta_default w2 = (Inr d, w3) \<and> \<not> blob_present w3 sample_blob"
proof -
  let ?rec = "row_to_record (sample_row ''PendingDelete'')"
  have ok: "gc_ok sample_swept_world" by (simp add: gc_ok_def rows_ok_def sample_swept_world_def sample_row_def local_key_scheme_def)
  have l: "iter_pending_older_than (10 ^ 7) sample_swept_world = (Inr [?rec], sample_swept_world)"
    by (simp add: gc_run_defs sample_swept_world_def sample_gc_world_def sample_row_def)
  obtain w2 where u: "mark_upload_active sample_blob (10 ^ 7) sample_swept_world = (Inr (), w2)"
    "w_files w2 = {''blobs/blake3/'' @ sample_blob}" "w_faults w2 = []"
    by (auto simp: mark_upload_active_def upsert_active_seen_def backend_call_def fallible_def sample_swept_world_def sample_gc_world_def)
  have p: "blob_present w2 sample_blob" by (simp add: blob_present_def object_head_def sample_paths u(2))
  have "\<exists>d w3. sweep_hard_loop (server_gc {}) sample_gc_cfg (10 ^ 7) [?rec] 1 delta_default w2 = (Inr d, w3)"
    using u(2,3) by (simp add: gc_run_defs sample_row_def sample_gc_cfg_def sample_paths)
  then obtain d w3 where s: "sweep_hard_loop (server_gc {}) sample_gc_cfg (10 ^ 7) [?rec] 1 delta_default w2 = (Inr d, w3)" by blast
  have h: "ar_hash ?rec = sample_blob" "\<not> ar_is_admin_pinned ?rec" by (simp_all add: row_to_record_def sample_row_def)
  have "\<not> blob_present w3 sample_blob"
    using upload_during_sweep_lost [OF ok l, of ?rec "{}" "10 ^ 7" w2 1] s u(1) h by (auto simp: static_is_pinned_def)
  with l u(1) p s show ?thesis by blast
qed

end
