(* ===== verification/Gc_Types.thy ===== *)
theory Gc_Types
  imports Gc_Props
begin

text \<open>
  Well-formed rows of the inventory, and the live sets the server composes (\<open>gc_service.rs\<close>).
\<close>

section \<open>A predicate every operation keeps is kept by a run\<close>

definition ops_keep :: "('s \<Rightarrow> bool) \<Rightarrow> 's gc_ops \<Rightarrow> bool" where
  "ops_keep P I \<longleftrightarrow> (\<forall>s. P s \<longrightarrow>
     (\<forall>run hs now. P (snd (op_upsert_active_seen_batch I run hs now s))) \<and> (\<forall>run. P (snd (op_iter_unmarked_candidates I run s)))
     \<and> (\<forall>c. P (snd (op_iter_pending_older_than I c s))) \<and> (\<forall>h now. P (snd (op_set_pending_delete I h now s)))
     \<and> (\<forall>h now. P (snd (op_set_deleted I h now s))) \<and> (\<forall>mode now. P (snd (op_start_run I mode now s)))
     \<and> (\<forall>run d. P (snd (op_apply_delta I run d s))) \<and> (\<forall>run st now. P (snd (op_finish_run I run st now s)))
     \<and> (\<forall>h. P (snd (op_is_pinned I h s))) \<and> (\<forall>b k. P (snd (op_head I b k s))) \<and> (\<forall>b k. P (snd (op_delete I b k s))))"

lemma gbind_keep: "P (snd r) \<Longrightarrow> (\<And>x s. P s \<Longrightarrow> P (snd (f x s))) \<Longrightarrow> P (snd (gbind r f))"
  by (auto simp: gbind_def split: prod.splits sum.splits)

lemma sweep_keep:
  assumes "ops_keep P I"
  shows "P s \<Longrightarrow> P (snd (sweep_soft_loop I now recs delta s))" "P s \<Longrightarrow> P (snd (sweep_hard_loop I cfg now recs rem delta s))"
proof -
  have pin: "P s \<Longrightarrow> P (snd (protected_by_pin I rec s))" for s rec using assms by (simp add: protected_by_pin_def ops_keep_def)
  show "P s \<Longrightarrow> P (snd (sweep_soft_loop I now recs delta s))"
  proof (induction recs arbitrary: delta s)
    case (Cons rec recs)
    then show ?case using assms pin [OF Cons.prems] by (auto intro!: gbind_keep [of P] simp: ops_keep_def)
  qed simp
  show "P s \<Longrightarrow> P (snd (sweep_hard_loop I cfg now recs rem delta s))"
  proof (induction recs arbitrary: rem delta s)
    case (Cons rec recs)
    then show ?case using assms pin [OF Cons.prems] by (auto intro!: gbind_keep [of P] simp: ops_keep_def)
  qed simp
qed

lemma run_keep:
  assumes k: "ops_keep P I" and s: "P s"
  shows "P (snd (run_new_coordinator_once I live mode cfg now s))"
proof -
  have "P (snd (sweep_soft I run now d s))" "P (snd (sweep_hard I cfg now d s))" if "P s" for run d s
    using that k sweep_keep [OF k] by (auto simp: sweep_soft_def sweep_hard_def ops_keep_def intro!: gbind_keep [of P] split: option.split)
  then have "P (snd (run_inner I (\<lambda>s. (live, s)) cfg run mode now s))" if "P s" for run s
    using that k unfolding run_inner_def Let_def by (auto simp: ops_keep_def intro!: gbind_keep [of P])
  then show ?thesis using k s
    unfolding run_new_coordinator_once_def run_once_def by (auto simp: ops_keep_def Let_def split_beta intro!: gbind_keep [of P])
qed

section \<open>Rows of the inventory\<close>

definition row_typed :: "gc_row \<Rightarrow> bool" where
  "row_typed r \<longleftrightarrow> local_key_scheme (gr_hash r) = (gr_bucket r, gr_object_key r) \<and> gr_namespace r = ''blobs'' \<and> 1 \<le> gr_mark_count r
     \<and> gr_is_admin_pinned r = 0 \<and> gr_last_marked_run_id r \<noteq> None
     \<and> (gr_state r = ''Active'' \<and> gr_pending_delete_at r = None
        \<or> gr_state r = ''PendingDelete'' \<and> gr_pending_delete_at r \<noteq> None
        \<or> gr_state r = ''Deleted'' \<and> gr_deleted_at r \<noteq> None)"

definition table_typed :: "gc_row list \<Rightarrow> bool" where
  "table_typed rows \<longleftrightarrow> distinct (map gr_hash rows) \<and> (\<forall>r \<in> set rows. row_typed r)"

lemma table_typed_update:
  assumes "\<And>r. gr_hash (f r) = gr_hash r" "\<And>r. row_typed r \<Longrightarrow> row_typed (f r)" "table_typed rows"
  shows "table_typed (update_where h f rows)"
  using assms by (auto simp: table_typed_def update_where_hashes) (auto simp: update_where_def)

lemma table_typed_upsert: "table_typed rows \<Longrightarrow> table_typed (upsert_row local_key_scheme run t h rows)"
proof (cases "h \<in> gr_hash ` set rows")
  case True
  then show "table_typed rows \<Longrightarrow> ?thesis"
    by (auto simp: upsert_row_def intro!: table_typed_update) (auto simp: seen_row_def row_typed_def)
next
  case False
  moreover have "row_typed (fresh_row local_key_scheme run t h)" by (simp add: row_typed_def fresh_row_def)
  ultimately show "table_typed rows \<Longrightarrow> ?thesis" by (auto simp: upsert_row_def table_typed_def) (auto simp: fresh_row_def)
qed

lemma table_typed_backend:
  assumes "\<And>w. table_typed (w_assets w) \<Longrightarrow> table_typed (w_assets (snd (f w)))" "table_typed (w_assets w)"
  shows "table_typed (w_assets (snd (backend_call f w)))"
proof -
  obtain r w' where b: "backend_call f w = (r, w')" by fastforce
  then have "table_typed (w_assets w')"
  proof (cases rule: backend_cases)
    case (ok_call x fs)
    then show ?thesis using assms(1) [of "w\<lparr>w_faults := fs\<rparr>"] assms(2) by simp
  qed (use assms(2) in simp)
  then show ?thesis by (simp add: b)
qed

lemma batch_typed:
  assumes "table_typed (w_assets w)"
  shows "table_typed (w_assets (snd (upsert_active_seen_batch local_key_scheme run hs now w)))"
proof -
  obtain r w' where b: "upsert_active_seen_batch local_key_scheme run hs now w = (r, w')" by fastforce
  have "table_typed (fold (upsert_row local_key_scheme run t) hs rows)" if "table_typed rows" for t rows
    using that by (induction hs arbitrary: rows) (simp_all add: table_typed_upsert)
  then show ?thesis using batch_law [OF b] assms by (auto simp: b same_blobs_def)
qed

lemma server_keeps: "ops_keep (\<lambda>w. table_typed (w_assets w)) (server_gc pins)"
proof -
  have sel: "table_typed (w_assets w) \<Longrightarrow> table_typed (w_assets (snd (select_assets p w)))" for p w
    using select_law(1) [of p w "fst (select_assets p w)" "snd (select_assets p w)"] by (simp add: same_blobs_def)
  have del: "w_assets (snd (object_delete b k w)) = w_assets w" for b k w
    using delete_law(1) [of b k w "fst (object_delete b k w)" "snd (object_delete b k w)"] by simp
  have hd: "w_assets (snd (object_head b k w)) = w_assets w" for b k w by (simp add: object_head_def split: sum.split prod.split)
  have upd: "table_typed (w_assets w) \<Longrightarrow> table_typed (w_assets (snd (execute_sql (\<lambda>w. w\<lparr>w_assets := update_where h f (w_assets w)\<rparr>) w)))"
    if "\<And>r. gr_hash (f r) = gr_hash r" "\<And>r. row_typed r \<Longrightarrow> row_typed (f r)" for f h w
    by (rule table_typed_backend) (simp_all add: table_typed_update that)
  have st: "table_typed (w_assets w) \<Longrightarrow> table_typed (w_assets (snd (start_run mode now w)))" for mode now w
    by (simp add: start_run_def generate_run_id_def Let_def) (rule table_typed_backend, simp_all)
  have run: "table_typed (w_assets w) \<Longrightarrow> table_typed (w_assets (snd (execute_sql (update_run run f) w)))" for run f w
    by (rule table_typed_backend) (simp_all add: update_run_def)
  show ?thesis
    unfolding ops_keep_def server_gc_def gc_ops.simps iter_unmarked_candidates_def iter_pending_older_than_def set_pending_delete_def
      set_deleted_def apply_delta_def finish_run_def
    by (auto intro!: batch_typed sel upd st run simp: del hd) (auto simp: row_typed_def)
qed

text \<open>C38: in every history that starts with an empty inventory, whatever calls fail, each hash has at most one row, its
  location is that of the key scheme, its state is one of the three the code writes, a pending row carries the
  time of its tombstone, an active row carries none, and a deleted row carries the time of its deletion.\<close>

theorem inventory_wellformed:
  assumes "w_assets w0 = []" "gc_history pins cfg evs w0 = (hist, w)"
  shows "table_typed (w_assets w)"
proof -
  have step: "table_typed (w_assets (snd (gc_event_step pins cfg ev w)))" if "table_typed (w_assets w)" for ev w
  proof (cases ev)
    case (Tick mode live now)
    then show ?thesis using run_keep [OF server_keeps, of w] that by (simp add: split_beta)
  next
    case (Upload path h now)
    have "table_typed (w_assets (snd (mark_upload_active h now (w\<lparr>w_files := insert path (w_files w)\<rparr>))))"
      unfolding mark_upload_active_def upsert_active_seen_def
      by (rule table_typed_backend) (simp_all add: table_typed_upsert that)
    then show ?thesis by (simp add: Upload split_beta)
  qed
  have "table_typed (w_assets (snd (gc_history pins cfg evs w0)))" if "table_typed (w_assets w0)" for w0
    using that by (induction evs arbitrary: w0) (simp_all add: split_beta step)
  from this [of w0] show ?thesis using assms by (simp add: table_typed_def)
qed

theorem inventory_wellformed_witness:
  "table_typed (w_assets (snd (gc_history {} sample_gc_cfg sample_gc_events sample_gc_world)))"
  by (rule inventory_wellformed [of sample_gc_world]) (simp_all add: sample_gc_world_def prod_eq_iff)

end
