(* ===== verification/Spec2Isabelle.thy ===== *)
theory Spec2Isabelle
  imports Text_Range Client_Sync Gc_Types
begin

text \<open>
  A verification of nodalmerge: the replicated state engine (\<open>src/core/crdt\<close>), the browser client over it
  (\<open>src/clients/bridge-wasm\<close>), and the garbage collection of blobs (\<open>src/core/gc\<close> with the stores of
  \<open>src/server/server\<close>).

  \<^bold>\<open>The program.\<close> A peer holds a graph of signed nodes. A node is a transaction of operations on maps, lists, texts and
  blobs, with its author, a logical clock value and the identities of its parents; its identity is the hash of the
  transaction. Peers exchange nodes in any order and must show the same state once they hold the same nodes. A browser
  client wraps one graph with keys, a blob store and buffers. A server holds one graph per room, admits peers by
  token, answers handshakes, compacts rooms and deletes blobs that nothing refers to.

  \<^bold>\<open>Theories, by component.\<close>

  \<^item> \<open>Prelude\<close>: words, byte and hexadecimal codecs, panics as values, the last-writer-wins register (a locale).
  \<^item> \<open>Op_Node\<close> (\<open>op.rs\<close>, \<open>node.rs\<close>, \<open>hash.rs\<close>, \<open>error.rs\<close>): operations, nodes, signatures, wire form, and the
    record \<open>env\<close> of library code.
  \<^item> \<open>Policy\<close> (\<open>policy.rs\<close>): write rules; the glob matcher accepts the language of its pattern.
  \<^item> \<open>Frac_Idx\<close>, \<open>List_Seq\<close> (\<open>list.rs\<close>): positions between neighbours, and list replay as a function of the set of nodes.
  \<^item> \<open>Storage\<close>, \<open>Frontier\<close> (\<open>storage.rs\<close>, \<open>frontier.rs\<close>): node and blob stores with their contracts as locales, heads.
  \<^item> \<open>Conflicts\<close> (\<open>conflicts.rs\<close>): conflict detection by replay, independent of order.
  \<^item> \<open>Fenwick\<close>, \<open>Text_Projection\<close> (\<open>text.rs\<close>): the position index and the chunked text projection. \<open>Rga\<close> is the flat
    sequence it stands for and shows convergence of that; \<open>Text_Refine\<close>, \<open>Text_Simulation\<close> and \<open>Text_Correct\<close>
    show that the projection refines it; \<open>Text_Reads\<close>, \<open>Text_Props\<close> hold reads, range edits, replay and the
    properties; \<open>Text_Range\<close> (\<open>text_range.rs\<close>) the lowering of range edits.
  \<^item> \<open>State_Caches\<close>, \<open>Graph_State\<close>, \<open>Graph\<close> (\<open>graph.rs\<close>): the materialised views, the state of a peer with the upkeep
    of its text projections, and admission and reads. \<open>Graph_Inv\<close> has the step relation, one rule per operation, and
    the invariant of reachable graphs; \<open>Graph_Props\<close>, \<open>Graph_Admission\<close> and \<open>Graph_Local\<close> the properties: views equal
    replay, peers converge, which nodes are admitted, clocks, batches, local writes.
  \<^item> \<open>Replay\<close>, \<open>Compaction\<close> (\<open>replay.rs\<close>, \<open>compaction.rs\<close>, and \<open>handle_compact_room\<close> of \<open>ws_handler.rs\<close>): replay does not
    depend on order, snapshots verify, and what compaction loses.
  \<^item> \<open>Ibf\<close>, \<open>Mst\<close> (\<open>ibf.rs\<close>, \<open>mst.rs\<close>, \<open>decide_sync_diff\<close> of \<open>host-core/src/protocol.rs\<close>): set reconciliation.
  \<^item> \<open>Token\<close>, \<open>Crypto\<close>, \<open>Base64\<close> (\<open>token.rs\<close>, \<open>capabilities.rs\<close>, \<open>crypto.rs\<close>): admission tokens, feature negotiation,
    encryption of operations, the base64 codec with its round trip.
  \<^item> \<open>Client_Store\<close>, \<open>Client_Reads\<close> (\<open>bridge-wasm/src/lib.rs\<close>): the state of the browser client, its writes, imports and
    reads. \<open>Client_Props\<close>: what encryption does to a session; \<open>Client_Export\<close>: the chunked export is a topological
    order within its size; \<open>Client_Sync\<close>: two clients that exchange their nodes agree.
  \<^item> \<open>Gc\<close> (\<open>core/gc\<close>): the coordinator over a record of the operations of its traits; the locale \<open>gc_contract\<close> states what
    the stores promise and proves the effect of a run once. \<open>Gc_Store\<close> (\<open>gc_store.rs\<close>, \<open>gc_blob_objects.rs\<close>,
    \<open>gc_pin_store.rs\<close>) models the stores and interprets the locale on them; \<open>Gc_Props\<close> shows for every history of runs
    and uploads when a blob may go; \<open>Gc_Types\<close> that the inventory stays well formed.

  \<^bold>\<open>Conventions.\<close> \<open>u8\<close>, \<open>u32\<close> and \<open>u64\<close> are words, \<open>[u8; n]\<close> a word of \<open>8n\<close> bits read big-endian, a
  \<open>String\<close> used as a key a list of its bytes, the characters of a text natural numbers, \<open>usize\<close> counts natural numbers.
  A panic is the value \<open>Panic\<close> of the type \<open>rust\<close>; an error is the left injection of a sum, and an operation that can
  fail after it changed its state returns both. Arithmetic is that of a release build: the logical clock and the counts of
  the Bloom filter wrap. Code outside the repository (Blake3, postcard, Ed25519, AES-GCM, HKDF, the iteration order of
  hash tables, the clock) is the record \<open>env\<close> or an argument of its own; \<open>sign_correct\<close>, \<open>batch_sound\<close> and
  \<open>iter_enumerates\<close> name what is used of it, and \<open>sample_env\<close> meets them. A theorem about hashes that excludes collisions
  says on which values.

  \<^bold>\<open>Bounds and fuel.\<close> The text theorems hold while a projection has at most \<open>MAX_ITEMS\<close> = \<open>2^30 - 1\<close> characters, below the
  point where its \<open>u32\<close> handles and counts saturate. The eviction loop of \<open>Graph_State\<close> has the number of resident keys
  as fuel: each pass removes one. \<open>build_recursive\<close> counts the nibbles left below a path, of 64. The decoder of the Bloom
  filter runs at most 320 times, as in the code. \<open>trim\<close> has the length of its text. The replay and import loops, the
  glob matchers, Kahn's loop and the chunking are total by a measure.

  \<^bold>\<open>Not modelled.\<close> Text that library code prints and parses (JSON, postcard) is a value here or a parameter. Of the server:
  sockets, the message loop, rate limits, metrics and persistence files other than blobs; archives, the Studio domain
  and query control, which are mostly JSON documents and SQL; the S3, MongoDB and Postgres backends, which call a service.
  Residency of rooms over locks and tasks, and the lineage and promotion records of rooms. The command engine of \<open>host-core\<close>
  with its rooms, sessions and JSON values; the graphs, tokens and codecs it calls are the ones above.
  The command-line, headless and FFI front ends forward to the components above; the C# host and the TypeScript SDK drive
  them from other languages.
\<close>

end
